theory Spec2Isabelle
  imports Main "HOL-Library.Word" "HOL-Library.Multiset"
begin

section \<open>Document identifiers and failures\<close>

text \<open>
  \<^verbatim>\<open>using DocId = uint32_t\<close>; the sentinel \<^verbatim>\<open>kInvalidDocId\<close> is the largest
  value of the type. Comparison of words is unsigned, as in the source.
\<close>

type_synonym DocId = "32 word"

definition kInvalidDocId :: DocId where
  "kInvalidDocId = - 1"

text \<open>
  The ways an operation of the library can end without a result. \<^verbatim>\<open>CHECK(...)\<close> of
  glog terminates the process in every build; it is the value \<open>CheckFailed\<close>. Reading
  \<^verbatim>\<open>children_[0]\<close> of an empty vector has no defined behaviour; it is the value
  \<open>UndefinedBehavior\<close>. \<^verbatim>\<open>DCHECK(...)\<close> is \<^verbatim>\<open>CHECK(...)\<close> in a build without
  \<^verbatim>\<open>NDEBUG\<close> and is compiled out of a build with it. The \<^verbatim>\<open>DCHECK(valid())\<close> of
  \<^verbatim>\<open>AndIterator::getTags\<close> and \<^verbatim>\<open>OrIterator::getTags\<close> can fail for a caller, and
  \<open>getTags\<close> takes the build as a parameter. The other \<^verbatim>\<open>DCHECK\<close>s state
  conditions between the parts of a cursor or of the parser that hold whenever they are
  reached from well-formed cursors; they are not branches of the model. A failure of the query parser is
  the exception \<^verbatim>\<open>QueryParser::Exception\<close>, modelled with the message kind and the
  0-based position that \<^verbatim>\<open>logAndThrow\<close> receives.
\<close>

datatype ParseError =
    NoSubExpression
  | DiffArity nat
  | MultipleQueries
  | TopLevelHasTag
  | ExpectingOperator
  | UnrecognizableOperator string
  | UnmatchedRightParenthesis
  | MultipleTags
  | TopLevelCannotHaveTag
  | UnmatchedLeftParenthesis

datatype failure =
    CheckFailed
  | UndefinedBehavior
  | Exception ParseError nat

section \<open>Cursors\<close>

text \<open>
  One constructor per class of \<^verbatim>\<open>iterator.h\<close>, holding the fields of the class.
  \<^verbatim>\<open>IteratorWithTag<BaseItr>\<close> derives from its base class and adds the field
  \<^verbatim>\<open>tag_\<close>; it is the constructor \<open>IteratorWithTag\<close> around the state of the base.
  The vector of \<^verbatim>\<open>unique_ptr\<close> children is a list: every child has one owner, so
  there is no aliasing to model.
\<close>

datatype Iterator =
    EmptyIterator
  | VectorIterator "DocId list" nat
  | AndIterator "Iterator list" bool
  | OrIterator "Iterator list" bool
  | DiffIterator Iterator Iterator
  | IteratorWithTag string Iterator

text \<open>
  \<^verbatim>\<open>AndIterator::valid\<close> reads \<^verbatim>\<open>children_[0]\<close>; the constructor's
  \<^verbatim>\<open>CHECK(!children_.empty())\<close> keeps the vector non-empty, and the model answers
  \<open>False\<close> for the empty vector that no constructed cursor has.
\<close>

fun valid :: "Iterator \<Rightarrow> bool" where
  "valid EmptyIterator = False"
| "valid (VectorIterator sortedDocIds nextPos) = (nextPos < length sortedDocIds)"
| "valid (AndIterator children h) = (case children of [] \<Rightarrow> False | c # _ \<Rightarrow> valid c)"
| "valid (OrIterator children h) = (case children of [] \<Rightarrow> False | c # _ \<Rightarrow> valid c)"
| "valid (DiffIterator lhs rhs) = valid lhs"
| "valid (IteratorWithTag t b) = valid b"

text \<open>
  \<^verbatim>\<open>Iterator::value\<close> (the name \<open>value\<close> is a keyword of Isabelle, hence
  \<open>itr_value\<close>) guards \<^verbatim>\<open>valueUnsafe\<close> with \<^verbatim>\<open>valid()\<close>, so the read
  \<^verbatim>\<open>sortedDocIds_[nextPos_]\<close> is in range whenever it is evaluated.
\<close>

fun itr_value :: "Iterator \<Rightarrow> DocId" where
  "itr_value EmptyIterator = kInvalidDocId"
| "itr_value (VectorIterator sortedDocIds nextPos) =
     (if nextPos < length sortedDocIds then sortedDocIds ! nextPos else kInvalidDocId)"
| "itr_value (AndIterator children h) =
     (case children of [] \<Rightarrow> kInvalidDocId
      | c # _ \<Rightarrow> if valid c then itr_value c else kInvalidDocId)"
| "itr_value (OrIterator children h) =
     (case children of [] \<Rightarrow> kInvalidDocId
      | c # _ \<Rightarrow> if valid c then itr_value c else kInvalidDocId)"
| "itr_value (DiffIterator lhs rhs) = (if valid lhs then itr_value lhs else kInvalidDocId)"
| "itr_value (IteratorWithTag t b) = itr_value b"

fun hasTag :: "Iterator \<Rightarrow> bool" where
  "hasTag EmptyIterator = False"
| "hasTag (VectorIterator sortedDocIds nextPos) = False"
| "hasTag (AndIterator children childrenHaveTags) = childrenHaveTags"
| "hasTag (OrIterator children childrenHaveTags) = childrenHaveTags"
| "hasTag (DiffIterator lhs rhs) = hasTag lhs"
| "hasTag (IteratorWithTag t b) = True"

text \<open>
  \<^verbatim>\<open>getTags\<close>. The parameter \<open>ndebug\<close> says whether the build defines \<^verbatim>\<open>NDEBUG\<close>.
  \<^verbatim>\<open>AndIterator::getTags\<close> and \<^verbatim>\<open>OrIterator::getTags\<close> start with
  \<^verbatim>\<open>DCHECK(valid())\<close>, which ends the process in a build without \<^verbatim>\<open>NDEBUG\<close>;
  \<^verbatim>\<open>DiffIterator::getTags\<close> starts with \<^verbatim>\<open>CHECK(valid())\<close>, which does so in every
  build. \<^verbatim>\<open>OrIterator::getTags\<close> reads \<^verbatim>\<open>valueUnsafe()\<close>, that is
  \<^verbatim>\<open>children_[0]->value()\<close>, which is undefined once the heap is empty; the private
  overload walks the heap in pre-order from \<^verbatim>\<open>heapPos\<close>, appending to \<^verbatim>\<open>tags\<close>.
  A failure in a child ends the whole call.
\<close>

function getTags :: "bool \<Rightarrow> Iterator \<Rightarrow> failure + string list"
  and and_getTags :: "bool \<Rightarrow> Iterator list \<Rightarrow> string list \<Rightarrow> failure + string list"
  and or_getTags :: "bool \<Rightarrow> Iterator list \<Rightarrow> nat \<Rightarrow> DocId \<Rightarrow> string list
    \<Rightarrow> failure + string list"
where
  "getTags ndebug EmptyIterator = Inr []"
| "getTags ndebug (VectorIterator sortedDocIds nextPos) = Inr []"
| "getTags ndebug (AndIterator children childrenHaveTags) =
     (if \<not> ndebug \<and> \<not> valid (AndIterator children childrenHaveTags) then Inl CheckFailed
      else if \<not> childrenHaveTags then Inr []
      else and_getTags ndebug children [])"
| "getTags ndebug (OrIterator children childrenHaveTags) =
     (if \<not> ndebug \<and> \<not> valid (OrIterator children childrenHaveTags) then Inl CheckFailed
      else if \<not> childrenHaveTags then Inr []
      else case children of [] \<Rightarrow> Inl UndefinedBehavior
           | c # _ \<Rightarrow> or_getTags ndebug children 0 (itr_value c) [])"
| "getTags ndebug (DiffIterator lhs rhs) =
     (if \<not> valid (DiffIterator lhs rhs) then Inl CheckFailed else getTags ndebug lhs)"
| "getTags ndebug (IteratorWithTag t b) =
     (if hasTag b
      then (case getTags ndebug b of Inl e \<Rightarrow> Inl e | Inr tags \<Rightarrow> Inr (tags @ [t]))
      else Inr [t])"
| "and_getTags ndebug [] tags = Inr tags"
| "and_getTags ndebug (itr # rest) tags =
     (case getTags ndebug itr of Inl e \<Rightarrow> Inl e
      | Inr childTags \<Rightarrow> and_getTags ndebug rest (tags @ childTags))"
| "or_getTags ndebug children heapPos currentValue tags =
     (if heapPos \<ge> length children \<or> currentValue \<noteq> itr_value (children ! heapPos)
      then Inr tags
      else case getTags ndebug (children ! heapPos) of Inl e \<Rightarrow> Inl e
           | Inr childTags \<Rightarrow>
               (case or_getTags ndebug children (heapPos * 2 + 1) currentValue (tags @ childTags) of
                  Inl e \<Rightarrow> Inl e
                | Inr tags' \<Rightarrow> or_getTags ndebug children (heapPos * 2 + 2) currentValue tags'))"
  by pat_completeness auto

lemma size_nth_le_size_list: "i < length cs \<Longrightarrow> size (cs ! i) < Suc (size_list size cs)"
proof (induction cs arbitrary: i)
  case Nil
  then show ?case by simp
next
  case (Cons c cs)
  then show ?case by (cases i) force+
qed

termination getTags
  apply (relation "inv_image (less_than <*lex*> less_than)
      (\<lambda>x. case x of
         Inl (nd, c) \<Rightarrow> (size c, 0)
       | Inr (Inl (nd, cs, tags)) \<Rightarrow> (size_list size cs, 1)
       | Inr (Inr (nd, cs, pos, cur, tags)) \<Rightarrow> (size_list size cs, Suc (Suc (length cs - pos))))")
  apply (auto simp: not_le dest: size_nth_le_size_list)
  done

section \<open>Standard-library algorithms and the cursor operations\<close>

text \<open>
  \<^verbatim>\<open>std::swap\<close> of two elements of a vector, and \<^verbatim>\<open>std::lower_bound\<close> on the range
  of \<open>len\<close> elements from \<open>first\<close>: the binary search of the standard library, which
  halves \<open>len\<close> until it is 0. On an ascending vector it finds the first position from
  \<open>first\<close> whose element is not below \<open>val\<close> (\<open>lower_bound_spec\<close> below).
\<close>

definition swap_at :: "'a list \<Rightarrow> nat \<Rightarrow> nat \<Rightarrow> 'a list" where
  "swap_at xs i j = xs[i := xs ! j, j := xs ! i]"

function lower_bound :: "DocId list \<Rightarrow> nat \<Rightarrow> nat \<Rightarrow> DocId \<Rightarrow> nat" where
  "lower_bound v first len val =
     (if len > 0 then
        (let half = len div 2; middle = first + half in
         if v ! middle < val then lower_bound v (middle + 1) (len - half - 1) val
         else lower_bound v first half val)
      else first)"
  by pat_completeness auto
termination
  by (relation "measure (\<lambda>(v, first, len, val). len)") auto

declare lower_bound.simps [simp del]

text \<open>
  \<^verbatim>\<open>adjustDownMinHeap\<close> of \<^verbatim>\<open>iterator.cc\<close>; its \<^verbatim>\<open>for (;;)\<close> loop is the recursion,
  \<^verbatim>\<open>break\<close> returns the heap. \<^verbatim>\<open>OrIterator::minHeapCmp\<close> is \<^verbatim>\<open>*rhs < *lhs\<close>, and
  \<^verbatim>\<open>Iterator::operator<\<close> compares \<^verbatim>\<open>value()\<close>.
\<close>

function adjustDownMinHeap :: "('a \<Rightarrow> 'a \<Rightarrow> bool) \<Rightarrow> 'a list \<Rightarrow> nat \<Rightarrow> 'a list" where
  "adjustDownMinHeap minHeapCmp heap pos =
     (let minChild = pos * 2 + 1 in
      if minChild \<ge> length heap then heap
      else
        let minChild =
              (if minChild + 1 < length heap \<and> minHeapCmp (heap ! minChild) (heap ! (minChild + 1))
               then minChild + 1 else minChild)
        in if minHeapCmp (heap ! pos) (heap ! minChild)
           then adjustDownMinHeap minHeapCmp (swap_at heap minChild pos) minChild
           else heap)"
  by pat_completeness auto
termination
  by (relation "measure (\<lambda>(c, heap, pos). length heap - pos)") (auto simp: swap_at_def Let_def)

declare adjustDownMinHeap.simps [simp del]

definition minHeapCmp :: "Iterator \<Rightarrow> Iterator \<Rightarrow> bool" where
  "minHeapCmp lhs rhs = (itr_value rhs < itr_value lhs)"

text \<open>
  \<^verbatim>\<open>std::make_heap\<close> and \<^verbatim>\<open>std::pop_heap\<close> are not code of the repository. The
  standard fixes what they leave only up to the arrangement of equal keys, and the order
  in which an OR cursor reports tags depends on that arrangement, so the model follows
  one implementation to the letter: the GNU C++ library (\<^verbatim>\<open>bits/stl_heap.h\<close>), with its
  functions \<^verbatim>\<open>__push_heap\<close> (\<open>push_heap_hole\<close>), \<^verbatim>\<open>__adjust_heap\<close> (\<open>adjust_heap\<close>, whose
  \<^verbatim>\<open>while\<close> loop is \<open>adjust_heap_down\<close>), \<^verbatim>\<open>__make_heap\<close> and \<^verbatim>\<open>__pop_heap\<close>. They
  move a hole through the vector: the value that belongs in the hole is held aside, a
  child or the parent is moved into the hole, and the value is stored when the hole has
  reached its place. The comparison \<open>cmp a b\<close> is the library's \<^verbatim>\<open>comp\<close>, true when
  \<open>a\<close> is to sink below \<open>b\<close>. \<open>first\<close> is the vector from \<^verbatim>\<open>__first\<close> on and
  \<open>len\<close> the length of the range the call works on; \<^verbatim>\<open>__pop_heap\<close> works on the
  range without its last element, where it stores the former root. The library computes
  with signed distances and the model with natural numbers; the two agree for \<open>len\<close>
  of 1 or more, and neither \<open>make_heap\<close> nor \<open>pop_heap\<close> calls \<open>adjust_heap\<close> on
  an empty range.
\<close>

function push_heap_hole :: "('a \<Rightarrow> 'a \<Rightarrow> bool) \<Rightarrow> 'a list \<Rightarrow> nat \<Rightarrow> nat \<Rightarrow> 'a \<Rightarrow> 'a list" where
  "push_heap_hole cmp first holeIndex topIndex v =
     (let parent = (holeIndex - 1) div 2 in
      if holeIndex > topIndex \<and> cmp (first ! parent) v
      then push_heap_hole cmp (first[holeIndex := first ! parent]) parent topIndex v
      else first[holeIndex := v])"
  by pat_completeness auto
termination
  by (relation "measure (\<lambda>(cmp, first, holeIndex, topIndex, v). holeIndex)") auto

declare push_heap_hole.simps [simp del]

function adjust_heap_down :: "('a \<Rightarrow> 'a \<Rightarrow> bool) \<Rightarrow> 'a list \<Rightarrow> nat \<Rightarrow> nat \<Rightarrow> nat
    \<Rightarrow> 'a list \<times> nat \<times> nat" where
  "adjust_heap_down cmp first holeIndex secondChild len =
     (if secondChild < (len - 1) div 2 then
        (let secondChild = 2 * (secondChild + 1);
             secondChild = (if cmp (first ! secondChild) (first ! (secondChild - 1))
                            then secondChild - 1 else secondChild);
             first = first[holeIndex := first ! secondChild];
             holeIndex = secondChild
         in adjust_heap_down cmp first holeIndex secondChild len)
      else (first, holeIndex, secondChild))"
  by pat_completeness auto
termination
  by (relation "measure (\<lambda>(cmp, first, holeIndex, secondChild, len). len - secondChild)")
     (auto simp: Let_def)

declare adjust_heap_down.simps [simp del]

definition adjust_heap :: "('a \<Rightarrow> 'a \<Rightarrow> bool) \<Rightarrow> 'a list \<Rightarrow> nat \<Rightarrow> nat \<Rightarrow> 'a \<Rightarrow> 'a list" where
  "adjust_heap cmp first holeIndex len v =
     (let topIndex = holeIndex;
          (first, holeIndex, secondChild) = adjust_heap_down cmp first holeIndex holeIndex len;
          (first, holeIndex) =
            (if len mod 2 = 0 \<and> secondChild = (len - 2) div 2
             then (let secondChild = 2 * (secondChild + 1)
                   in (first[holeIndex := first ! (secondChild - 1)], secondChild - 1))
             else (first, holeIndex))
      in push_heap_hole cmp first holeIndex topIndex v)"

fun make_heap_from :: "('a \<Rightarrow> 'a \<Rightarrow> bool) \<Rightarrow> 'a list \<Rightarrow> nat \<Rightarrow> 'a list" where
  "make_heap_from cmp first 0 = adjust_heap cmp first 0 (length first) (first ! 0)"
| "make_heap_from cmp first (Suc parent) =
     make_heap_from cmp (adjust_heap cmp first (Suc parent) (length first) (first ! Suc parent)) parent"

definition make_heap :: "('a \<Rightarrow> 'a \<Rightarrow> bool) \<Rightarrow> 'a list \<Rightarrow> 'a list" where
  "make_heap cmp first =
     (if length first < 2 then first else make_heap_from cmp first ((length first - 2) div 2))"

definition pop_heap :: "('a \<Rightarrow> 'a \<Rightarrow> bool) \<Rightarrow> 'a list \<Rightarrow> 'a list" where
  "pop_heap cmp first =
     (if length first > 1
      then (let last = length first - 1;
                v = first ! last;
                first = first[last := first ! 0]
            in adjust_heap cmp first 0 last v)
      else first)"

text \<open>
  The second loop of \<^verbatim>\<open>OrIterator::skipTo\<close>: it swaps the live children to the front
  and counts them in \<^verbatim>\<open>next\<close>; \<^verbatim>\<open>resize(next)\<close> then drops the rest.
\<close>

function or_compact :: "Iterator list \<Rightarrow> nat \<Rightarrow> nat \<Rightarrow> Iterator list \<times> nat" where
  "or_compact children i next =
     (if i < length children then
        (if valid (children ! i)
         then or_compact (if i \<noteq> next then swap_at children i next else children) (i + 1) (next + 1)
         else or_compact children (i + 1) next)
      else (children, next))"
  by pat_completeness auto
termination
  by (relation "measure (\<lambda>(children, i, next). length children - i)") (auto simp: swap_at_def)

declare or_compact.simps [simp del]

text \<open>
  The operations \<^verbatim>\<open>next\<close> and \<^verbatim>\<open>skipTo\<close> of every class, with the private loops they
  call. An operation returns the state it leaves and the flag it returns; \<open>next\<close> is a
  keyword of Isabelle, hence \<open>itr_next\<close>. \<^verbatim>\<open>IteratorWithTag<BaseItr>\<close> inherits both
  operations from its base.

  \<^verbatim>\<open>AndIterator::nextAgreement\<close> is a \<^verbatim>\<open>for\<close> loop over \<^verbatim>\<open>pos\<close> inside a
  \<^verbatim>\<open>while\<close> loop. The \<^verbatim>\<open>for\<close> loop never changes \<^verbatim>\<open>children_[0]\<close> before it
  leaves, so the condition of the \<^verbatim>\<open>while\<close> loop and \<^verbatim>\<open>candidate\<close> keep their values
  while it runs; it leaves either at \<^verbatim>\<open>pos == children_.size()\<close>, which ends the outer
  loop too, or by \<^verbatim>\<open>break\<close> with \<^verbatim>\<open>pos = 1\<close>, after which the outer loop tests its
  condition and reads a new candidate. The two loops are therefore the one recursion
  \<open>and_nextAgreement\<close> on the children and \<open>pos\<close>, which tests the condition and reads
  the candidate at every step.

  \<^verbatim>\<open>VectorIterator::next\<close> increments \<^verbatim>\<open>nextPos_\<close> whatever the position. With
  \<^verbatim>\<open>nextPos_\<close> beyond the size, \<^verbatim>\<open>VectorIterator::skipTo\<close> forms an iterator past the
  end of the vector, which C++ leaves undefined; the model returns the position
  unchanged there. No well-formed cursor is in that state, and the operators call
  \<^verbatim>\<open>next\<close> on live children only.
\<close>

function (domintros) itr_next :: "Iterator \<Rightarrow> Iterator \<times> bool"
  and skipTo :: "Iterator \<Rightarrow> DocId \<Rightarrow> Iterator \<times> bool"
  and and_nextAgreement :: "Iterator list \<Rightarrow> nat \<Rightarrow> Iterator list \<times> bool"
  and or_next_loop :: "Iterator list \<Rightarrow> DocId \<Rightarrow> Iterator list"
  and diff_nextAgreement :: "Iterator \<Rightarrow> Iterator \<Rightarrow> (Iterator \<times> Iterator) \<times> bool"
where
  "itr_next EmptyIterator = (EmptyIterator, False)"
| "itr_next (VectorIterator sortedDocIds nextPos) =
     (VectorIterator sortedDocIds (nextPos + 1), valid (VectorIterator sortedDocIds (nextPos + 1)))"
| "itr_next (AndIterator children h) =
     (if \<not> valid (AndIterator children h) then (AndIterator children h, False)
      else
        let children = children[0 := fst (itr_next (children ! 0))] in
        if valid (children ! 0)
        then (let (children, agreed) = and_nextAgreement children 1
              in (AndIterator children h, agreed))
        else (AndIterator children h, False))"
| "itr_next (OrIterator children h) =
     (if \<not> valid (OrIterator children h) then (OrIterator children h, False)
      else
        let current = itr_value (OrIterator children h);
            children = or_next_loop children current
        in (OrIterator children h, valid (OrIterator children h)))"
| "itr_next (DiffIterator lhs rhs) =
     (if \<not> valid (DiffIterator lhs rhs) then (DiffIterator lhs rhs, False)
      else
        let (lhs, ok) = itr_next lhs in
        if \<not> ok then (DiffIterator lhs rhs, False)
        else (let ((lhs, rhs), agreed) = diff_nextAgreement lhs rhs
              in (DiffIterator lhs rhs, agreed)))"
| "itr_next (IteratorWithTag tag b) =
     (let (b, ok) = itr_next b in (IteratorWithTag tag b, ok))"
| "skipTo EmptyIterator target = (EmptyIterator, False)"
| "skipTo (VectorIterator sortedDocIds nextPos) target =
     (let nextPos = lower_bound sortedDocIds nextPos (length sortedDocIds - nextPos) target
      in (VectorIterator sortedDocIds nextPos, valid (VectorIterator sortedDocIds nextPos)))"
| "skipTo (AndIterator children h) target =
     (if \<not> valid (AndIterator children h) then (AndIterator children h, False)
      else
        let (c0, ok) = skipTo (children ! 0) target;
            children = children[0 := c0]
        in if \<not> ok then (AndIterator children h, False)
           else (let (children, agreed) = and_nextAgreement children 1
                 in (AndIterator children h, agreed)))"
| "skipTo (OrIterator children h) target =
     (let children = map (\<lambda>c. fst (skipTo c target)) children;
          (children, next) = or_compact children 0 0;
          children = take next children;
          children = make_heap minHeapCmp children
      in (OrIterator children h, valid (OrIterator children h)))"
| "skipTo (DiffIterator lhs rhs) target =
     (let (lhs, ok) = skipTo lhs target in
      if \<not> ok then (DiffIterator lhs rhs, False)
      else (let ((lhs, rhs), agreed) = diff_nextAgreement lhs rhs
            in (DiffIterator lhs rhs, agreed)))"
| "skipTo (IteratorWithTag tag b) target =
     (let (b, ok) = skipTo b target in (IteratorWithTag tag b, ok))"
| "and_nextAgreement children pos =
     (if pos < length children \<and> valid (children ! 0) then
        (let candidate = itr_value (children ! 0) in
         if itr_value (children ! pos) < candidate then
           (let children = children[pos := fst (skipTo (children ! pos) candidate)] in
            if itr_value (children ! pos) > candidate
            then and_nextAgreement (swap_at children pos 0) 1
            else and_nextAgreement children (pos + 1))
         else and_nextAgreement children (pos + 1))
      else (children, pos = length children))"
| "or_next_loop children current =
     (if children \<noteq> [] \<and> itr_value (children ! 0) = current then
        (let children = children[0 := fst (itr_next (children ! 0))] in
         if valid (children ! 0)
         then or_next_loop (adjustDownMinHeap minHeapCmp children 0) current
         else or_next_loop (butlast (pop_heap minHeapCmp children)) current)
      else children)"
| "diff_nextAgreement lhs rhs =
     (if valid lhs then
        (let (rhs, ok) = skipTo rhs (itr_value lhs) in
         if \<not> ok \<or> itr_value rhs > itr_value lhs then ((lhs, rhs), True)
         else diff_nextAgreement (fst (itr_next lhs)) rhs)
      else ((lhs, rhs), False))"
  by pat_completeness auto


text \<open>
  The number of steps a cursor can still take, which no operation increases. It is the
  measure of the termination proof below.
\<close>

fun rank :: "Iterator \<Rightarrow> nat" where
  "rank EmptyIterator = 1"
| "rank (VectorIterator sortedDocIds nextPos) = 1 + (length sortedDocIds - nextPos)"
| "rank (AndIterator children h) = 1 + sum_list (map rank children)"
| "rank (OrIterator children h) = 1 + sum_list (map rank children)"
| "rank (DiffIterator lhs rhs) = 1 + rank lhs + rank rhs"
| "rank (IteratorWithTag t b) = 1 + rank b"

abbreviation ranks :: "Iterator list \<Rightarrow> nat" where
  "ranks cs \<equiv> sum_list (map rank cs)"

lemma rank_pos: "0 < rank c"
  by (cases c) auto

lemma ranks_mset: "mset xs = mset ys \<Longrightarrow> ranks xs = ranks ys"
  by (metis mset_map sum_mset_sum_list)

lemma ranks_update: "i < length cs \<Longrightarrow> ranks (cs[i := c]) + rank (cs ! i) = ranks cs + rank c"
proof (induction cs arbitrary: i)
  case Nil
  then show ?case by simp
next
  case (Cons a cs)
  then show ?case by (cases i) (auto simp: add.assoc add.left_commute)
qed

lemma mset_swap_at: "i < length xs \<Longrightarrow> j < length xs \<Longrightarrow> mset (swap_at xs i j) = mset xs"
  unfolding swap_at_def by (simp add: mset_swap)

lemma length_swap_at [simp]: "length (swap_at xs i j) = length xs"
  by (simp add: swap_at_def)

lemma lower_bound_0 [simp]: "lower_bound v first 0 val = first"
  by (simp add: lower_bound.simps)

lemma lower_bound_step:
  "0 < len \<Longrightarrow> lower_bound v first len val =
     (if v ! (first + len div 2) < val
      then lower_bound v (first + len div 2 + 1) (len - len div 2 - 1) val
      else lower_bound v first (len div 2) val)"
  by (subst lower_bound.simps) (simp add: Let_def)

lemma lower_bound_bounds:
  "first \<le> lower_bound v first len val \<and> lower_bound v first len val \<le> first + len"
proof (induction v first len val rule: lower_bound.induct)
  case (1 v first len val)
  show ?case
  proof (cases "len > 0")
    case False
    then show ?thesis by simp
  next
    case True
    have half: "len div 2 < len" using True by simp
    show ?thesis
    proof (cases "v ! (first + len div 2) < val")
      case lt: True
      from 1(1)[OF True refl refl lt] half
      show ?thesis unfolding lower_bound_step[OF True] using lt by simp
    next
      case ge: False
      from 1(2)[OF True refl refl ge] half
      show ?thesis unfolding lower_bound_step[OF True] using ge by simp
    qed
  qed
qed

lemma mset_adjustDownMinHeap: "mset (adjustDownMinHeap cmp heap pos) = mset heap"
proof (induction cmp heap pos rule: adjustDownMinHeap.induct)
  case (1 cmp heap pos)
  show ?case
    apply (subst adjustDownMinHeap.simps)
    using 1
    apply (auto simp: Let_def mset_swap_at split: if_splits)
    done
qed


lemma length_adjustDownMinHeap [simp]: "length (adjustDownMinHeap cmp heap pos) = length heap"
  using mset_adjustDownMinHeap [of cmp heap pos] by (metis size_mset)

lemma length_push_heap_hole [simp]:
  "length (push_heap_hole cmp first h tp v) = length first"
proof (induction cmp first h tp v rule: push_heap_hole.induct)
  case (1 cmp first holeIndex topIndex v)
  then show ?case by (subst push_heap_hole.simps) (simp add: Let_def)
qed

lemma length_adjust_heap_down [simp]:
  "length (fst (adjust_heap_down cmp first h sc len)) = length first"
proof (induction cmp first h sc len rule: adjust_heap_down.induct)
  case (1 cmp first holeIndex secondChild len)
  then show ?case by (subst adjust_heap_down.simps) (simp add: Let_def)
qed

lemma length_adjust_heap [simp]: "length (adjust_heap cmp first h len v) = length first"
proof -
  obtain f h' sc where eq: "adjust_heap_down cmp first h h len = (f, h', sc)"
    by (cases "adjust_heap_down cmp first h h len") auto
  then have "length f = length first"
    using length_adjust_heap_down[of cmp first h h len] by simp
  then show ?thesis by (simp add: adjust_heap_def eq Let_def)
qed

lemma mset_move_hole:
  assumes "h < length xs" "c < length xs" "h \<noteq> c"
  shows "mset (xs[h := xs ! c, c := v]) = mset (xs[h := v])"
  using assms by (simp add: mset_update nth_list_update)

lemma mset_push_heap_hole:
  "h < length first \<Longrightarrow> mset (push_heap_hole cmp first h tp v) = mset (first[h := v])"
proof (induction cmp first h tp v rule: push_heap_hole.induct)
  case (1 cmp first holeIndex topIndex v)
  let ?p = "(holeIndex - 1) div 2"
  show ?case
  proof (cases "holeIndex > topIndex \<and> cmp (first ! ?p) v")
    case False
    then show ?thesis by (subst push_heap_hole.simps) (auto simp: Let_def)
  next
    case True
    then have p: "?p < holeIndex" by auto
    have "mset (push_heap_hole cmp (first[holeIndex := first ! ?p]) ?p topIndex v)
        = mset (first[holeIndex := first ! ?p, ?p := v])"
      using "1.IH"[OF refl True] p "1.prems" by simp
    also have "\<dots> = mset (first[holeIndex := v])"
      using p "1.prems" by (intro mset_move_hole) auto
    finally show ?thesis using True by (subst push_heap_hole.simps) (simp add: Let_def)
  qed
qed

lemma adjust_heap_down_basic:
  assumes "adjust_heap_down cmp first h sc len = (first', h', sc')"
    and "sc = h" "len = length first" "h < length first"
  shows "h' < length first \<and> length first' = length first \<and> sc' = h'
    \<and> (\<forall>v. mset (first'[h' := v]) = mset (first[h := v]))"
  using assms
proof (induction cmp first h sc len arbitrary: first' h' sc' rule: adjust_heap_down.induct)
  case (1 cmp first holeIndex secondChild len)
  show ?case
  proof (cases "secondChild < (len - 1) div 2")
    case False
    then have "first' = first" "h' = holeIndex" "sc' = secondChild"
      using "1.prems"(1) by (subst (asm) adjust_heap_down.simps, simp)+
    then show ?thesis using "1.prems" by simp
  next
    case True
    define s2 where "s2 = 2 * (secondChild + 1)"
    define c where "c = (if cmp (first ! s2) (first ! (s2 - 1)) then s2 - 1 else s2)"
    define first1 where "first1 = first[holeIndex := first ! c]"
    have c: "c < length first" "holeIndex < c"
      using True "1.prems"(2,3) by (auto simp: s2_def c_def)
    have "adjust_heap_down cmp first holeIndex secondChild len = adjust_heap_down cmp first1 c c len"
      unfolding first1_def c_def s2_def
      by (subst adjust_heap_down.simps) (simp only: True if_True Let_def)
    then have rec: "adjust_heap_down cmp first1 c c len = (first', h', sc')"
      using "1.prems"(1) by simp
    have len1: "length first1 = length first" by (simp add: first1_def)
    have ms1: "mset (first1[c := v]) = mset (first[holeIndex := v])" for v
      unfolding first1_def using "1.prems"(4) c by (intro mset_move_hole) auto
    have "h' < length first1 \<and> length first' = length first1 \<and> sc' = h'
      \<and> (\<forall>v. mset (first'[h' := v]) = mset (first1[c := v]))"
      by (rule "1.IH"[OF True s2_def c_def first1_def refl rec refl])
         (simp_all add: len1 "1.prems"(3) c)
    then show ?thesis using len1 ms1 by simp
  qed
qed

lemma mset_adjust_heap:
  assumes "tp < length first"
  shows "mset (adjust_heap cmp first tp (length first) v) = mset (first[tp := v])"
proof -
  let ?n = "length first"
  obtain first1 h1 sc1 where down: "adjust_heap_down cmp first tp tp ?n = (first1, h1, sc1)"
    by (cases "adjust_heap_down cmp first tp tp ?n") auto
  have d: "h1 < ?n" "length first1 = ?n" "sc1 = h1"
    "\<And>v. mset (first1[h1 := v]) = mset (first[tp := v])"
    using adjust_heap_down_basic[OF down refl refl assms] by auto
  show ?thesis
  proof (cases "?n mod 2 = 0 \<and> sc1 = (?n - 2) div 2")
    case False
    then have "adjust_heap cmp first tp ?n v = push_heap_hole cmp first1 h1 tp v"
      by (auto simp: adjust_heap_def down Let_def)
    then show ?thesis using d by (simp add: mset_push_heap_hole)
  next
    case True
    define k where "k = 2 * (sc1 + 1) - 1"
    have k: "k < ?n" "h1 < k" using True d(1,3) unfolding k_def by presburger+
    have "adjust_heap cmp first tp ?n v = push_heap_hole cmp (first1[h1 := first1 ! k]) k tp v"
      using True by (simp add: adjust_heap_def down Let_def k_def)
    moreover have "mset (first1[h1 := first1 ! k, k := v]) = mset (first1[h1 := v])"
      using d(1,2) k by (intro mset_move_hole) auto
    ultimately show ?thesis using d k by (simp add: mset_push_heap_hole)
  qed
qed

lemma mset_make_heap_from:
  "parent < length first \<Longrightarrow> mset (make_heap_from cmp first parent) = mset first"
proof (induction parent arbitrary: first)
  case 0
  then show ?case by (simp add: mset_adjust_heap)
next
  case (Suc parent)
  then show ?case by (simp add: mset_adjust_heap)
qed

lemma mset_make_heap: "mset (make_heap cmp heap) = mset heap"
  by (simp add: make_heap_def mset_make_heap_from)

lemma adjust_heap_down_append:
  assumes "len = length xs" "h < length xs"
  shows "adjust_heap_down cmp (xs @ ys) h sc len =
     (case adjust_heap_down cmp xs h sc len of (f, h', sc') \<Rightarrow> (f @ ys, h', sc'))"
  using assms
proof (induction cmp xs h sc len rule: adjust_heap_down.induct)
  case (1 cmp first holeIndex secondChild len)
  show ?case
  proof (cases "secondChild < (len - 1) div 2")
    case False
    then show ?thesis
      by (subst adjust_heap_down.simps, subst (2) adjust_heap_down.simps) simp
  next
    case True
    define s2 where "s2 = 2 * (secondChild + 1)"
    define c where "c = (if cmp (first ! s2) (first ! (s2 - 1)) then s2 - 1 else s2)"
    define first1 where "first1 = first[holeIndex := first ! c]"
    have s2: "s2 < length first" "s2 - 1 < length first"
      using True "1.prems"(1) by (auto simp: s2_def)
    then have c: "c < length first" by (simp add: c_def)
    have l: "adjust_heap_down cmp first holeIndex secondChild len = adjust_heap_down cmp first1 c c len"
      unfolding first1_def c_def s2_def
      by (subst adjust_heap_down.simps) (simp only: True if_True Let_def)
    have "adjust_heap_down cmp (first @ ys) holeIndex secondChild len
        = adjust_heap_down cmp ((first @ ys)[holeIndex := (first @ ys) !
            (if cmp ((first @ ys) ! s2) ((first @ ys) ! (s2 - 1)) then s2 - 1 else s2)])
            (if cmp ((first @ ys) ! s2) ((first @ ys) ! (s2 - 1)) then s2 - 1 else s2)
            (if cmp ((first @ ys) ! s2) ((first @ ys) ! (s2 - 1)) then s2 - 1 else s2) len"
      unfolding s2_def
      by (subst adjust_heap_down.simps) (simp only: True if_True Let_def)
    also have "\<dots> = adjust_heap_down cmp (first1 @ ys) c c len"
      using s2 c "1.prems"(2) by (simp add: nth_append c_def first1_def list_update_append1)
    also have "\<dots> = (case adjust_heap_down cmp first1 c c len of (f, h', sc') \<Rightarrow> (f @ ys, h', sc'))"
      by (rule "1.IH"[OF True s2_def c_def first1_def refl])
         (simp_all add: first1_def "1.prems"(1) c)
    finally show ?thesis unfolding l .
  qed
qed

lemma push_heap_hole_append:
  "h < length xs \<Longrightarrow> push_heap_hole cmp (xs @ ys) h tp v = push_heap_hole cmp xs h tp v @ ys"
proof (induction cmp xs h tp v rule: push_heap_hole.induct)
  case (1 cmp first holeIndex topIndex v)
  let ?p = "(holeIndex - 1) div 2"
  have p: "?p < length first" using "1.prems" by auto
  show ?case
  proof (cases "holeIndex > topIndex \<and> cmp (first ! ?p) v")
    case False
    then show ?thesis using "1.prems" p
      by (subst push_heap_hole.simps, subst (2) push_heap_hole.simps)
         (auto simp: Let_def nth_append list_update_append1)
  next
    case True
    have "push_heap_hole cmp (first @ ys) holeIndex topIndex v
        = push_heap_hole cmp (first[holeIndex := first ! ?p] @ ys) ?p topIndex v"
      using True "1.prems" p
      by (subst push_heap_hole.simps) (simp add: Let_def nth_append list_update_append1)
    also have "\<dots> = push_heap_hole cmp (first[holeIndex := first ! ?p]) ?p topIndex v @ ys"
      using "1.IH"[OF refl True] p by simp
    also have "push_heap_hole cmp (first[holeIndex := first ! ?p]) ?p topIndex v
        = push_heap_hole cmp first holeIndex topIndex v"
      using True by (subst (2) push_heap_hole.simps) (simp add: Let_def)
    finally show ?thesis .
  qed
qed

lemma adjust_heap_append:
  assumes "h < length xs"
  shows "adjust_heap cmp (xs @ ys) h (length xs) v = adjust_heap cmp xs h (length xs) v @ ys"
proof -
  let ?n = "length xs"
  obtain first1 h1 sc1 where down: "adjust_heap_down cmp xs h h ?n = (first1, h1, sc1)"
    by (cases "adjust_heap_down cmp xs h h ?n") auto
  have d: "h1 < ?n" "length first1 = ?n" "sc1 = h1"
    using adjust_heap_down_basic[OF down refl refl assms] by auto
  have down': "adjust_heap_down cmp (xs @ ys) h h ?n = (first1 @ ys, h1, sc1)"
    using adjust_heap_down_append[OF refl assms, of cmp ys h] down by simp
  show ?thesis
  proof (cases "?n mod 2 = 0 \<and> sc1 = (?n - 2) div 2")
    case False
    then show ?thesis
      using d by (auto simp: adjust_heap_def down down' Let_def push_heap_hole_append)
  next
    case True
    define k where "k = 2 * (sc1 + 1) - 1"
    have k: "k < ?n" using True d(1,3) unfolding k_def by presburger
    have "adjust_heap cmp (xs @ ys) h ?n v
        = push_heap_hole cmp ((first1 @ ys)[h1 := (first1 @ ys) ! k]) k h v"
      using True by (simp add: adjust_heap_def down' Let_def k_def)
    also have "\<dots> = push_heap_hole cmp (first1[h1 := first1 ! k] @ ys) k h v"
      using d k by (simp add: nth_append list_update_append1)
    also have "\<dots> = push_heap_hole cmp (first1[h1 := first1 ! k]) k h v @ ys"
      using d k by (simp add: push_heap_hole_append)
    also have "push_heap_hole cmp (first1[h1 := first1 ! k]) k h v = adjust_heap cmp xs h ?n v"
      using True by (simp add: adjust_heap_def down Let_def k_def)
    finally show ?thesis .
  qed
qed

lemma pop_heap_eq:
  assumes "length heap > 1"
  shows "pop_heap cmp heap =
     adjust_heap cmp (butlast heap) 0 (length heap - 1) (last heap) @ [heap ! 0]"
proof -
  define n where "n = length heap - 1"
  have h: "heap = butlast heap @ [last heap]" using assms by (cases heap rule: rev_cases) auto
  have lb: "length (butlast heap) = n" by (simp add: n_def)
  have "heap \<noteq> []" using assms by auto
  then have l: "heap ! n = last heap" unfolding n_def by (rule last_conv_nth[symmetric])
  have "heap[n := heap ! 0] = butlast heap @ [heap ! 0]"
    by (subst h) (simp add: lb[symmetric] del: length_butlast)
  then have "pop_heap cmp heap = adjust_heap cmp (butlast heap @ [heap ! 0]) 0 n (last heap)"
    using assms l by (simp add: pop_heap_def Let_def n_def)
  also have "\<dots> = adjust_heap cmp (butlast heap) 0 n (last heap) @ [heap ! 0]"
    using adjust_heap_append[of 0 "butlast heap" cmp "[heap ! 0]" "last heap"] assms lb by simp
  finally show ?thesis by (simp add: n_def)
qed

lemma mset_pop_heap: "mset (pop_heap cmp heap) = mset heap"
proof (cases "length heap > 1")
  case False
  then show ?thesis by (simp add: pop_heap_def)
next
  case True
  define xs where "xs = butlast heap"
  have h: "heap = xs @ [last heap]" using True by (cases heap rule: rev_cases) (auto simp: xs_def)
  have xs: "0 < length xs" "length xs = length heap - 1" using True by (simp_all add: xs_def)
  have x0: "xs ! 0 = heap ! 0" using xs by (subst h) (simp add: nth_append)
  have "mset (adjust_heap cmp xs 0 (length xs) (last heap)) = mset (xs[0 := last heap])"
    using xs by (intro mset_adjust_heap) simp
  also have "\<dots> = add_mset (last heap) (mset xs - {#heap ! 0#})"
    using xs x0 by (simp add: mset_update)
  finally have "mset (pop_heap cmp heap) = add_mset (heap ! 0) (add_mset (last heap) (mset xs - {#heap ! 0#}))"
    using pop_heap_eq[OF True, of cmp] xs by (simp add: xs_def)
  also have "\<dots> = add_mset (last heap) (mset xs)"
    using xs x0 by (metis add_mset_commute insert_DiffM nth_mem_mset)
  also have "\<dots> = mset heap" by (subst (2) h) simp
  finally show ?thesis .
qed

lemma or_compact_length [simp]: "length (fst (or_compact cs i n)) = length cs"
proof (induction cs i n rule: or_compact.induct)
  case (1 children i nxt)
  then show ?case by (subst or_compact.simps) auto
qed

lemma or_compact_take:
  "n \<le> i \<Longrightarrow> i \<le> length cs \<Longrightarrow> (\<forall>j. n \<le> j \<and> j < i \<longrightarrow> \<not> valid (cs ! j)) \<Longrightarrow>
   take (snd (or_compact cs i n)) (fst (or_compact cs i n)) = take n cs @ filter valid (drop i cs)"
proof (induction cs i n rule: or_compact.induct)
  case (1 cs i n)
  show ?case
  proof (cases "i < length cs")
    case False
    with 1(4) show ?thesis by (subst (1 2) or_compact.simps) simp
  next
    case True
    note i = True
    have drop_i: "drop i cs = cs ! i # drop (Suc i) cs"
      using i by (simp add: Cons_nth_drop_Suc)
    show ?thesis
    proof (cases "valid (cs ! i)")
      case False
      have "\<forall>j. n \<le> j \<and> j < i + 1 \<longrightarrow> \<not> valid (cs ! j)"
        using 1(5) False by (metis Suc_eq_plus1 less_Suc_eq)
      from 1(2)[OF i False _ _ this] 1(3) i
      have "take (snd (or_compact cs (i + 1) n)) (fst (or_compact cs (i + 1) n)) =
            take n cs @ filter valid (drop (i + 1) cs)" by simp
      then show ?thesis
        using i False by (subst (1 2) or_compact.simps) (simp add: drop_i)
    next
      case v: True
      define cs' where "cs' = (if i \<noteq> n then swap_at cs i n else cs)"
      have len': "length cs' = length cs" by (simp add: cs'_def)
      have n_lt: "n < length cs" using 1(3) i by simp
      have inv': "\<forall>j. n + 1 \<le> j \<and> j < i + 1 \<longrightarrow> \<not> valid (cs' ! j)"
      proof (intro allI impI)
        fix j assume j: "n + 1 \<le> j \<and> j < i + 1"
        then have "n < i" by simp
        then have ne: "i \<noteq> n" by simp
        show "\<not> valid (cs' ! j)"
        proof (cases "j = i")
          case True
          then have "cs' ! j = cs ! n"
            using ne i n_lt by (simp add: cs'_def swap_at_def)
          moreover have "\<not> valid (cs ! n)" using 1(5) \<open>n < i\<close> by simp
          ultimately show ?thesis by simp
        next
          case False
          then have "cs' ! j = cs ! j"
            using ne j i n_lt by (simp add: cs'_def swap_at_def)
          moreover have "\<not> valid (cs ! j)" using 1(5) j False by simp
          ultimately show ?thesis by simp
        qed
      qed
      have take': "take (Suc n) cs' = take n cs @ [cs ! i]"
      proof (cases "i = n")
        case True
        then show ?thesis using n_lt by (simp add: cs'_def take_Suc_conv_app_nth)
      next
        case False
        then have "n < i" using 1(3) by simp
        have "take (Suc n) cs' = take n cs' @ [cs' ! n]"
          using n_lt len' by (simp add: take_Suc_conv_app_nth)
        moreover have "cs' ! n = cs ! i"
          using False i n_lt by (simp add: cs'_def swap_at_def)
        moreover have "take n cs' = take n cs"
          using False \<open>n < i\<close> by (simp add: cs'_def swap_at_def)
        ultimately show ?thesis by simp
      qed
      have drop': "drop (Suc i) cs' = drop (Suc i) cs"
        using 1(3) by (simp add: cs'_def swap_at_def)
      have "take (snd (or_compact cs' (i + 1) (n + 1))) (fst (or_compact cs' (i + 1) (n + 1))) =
            take (n + 1) cs' @ filter valid (drop (i + 1) cs')"
        using 1(1)[OF i v _ _ inv'[unfolded cs'_def]] 1(3) i len' unfolding cs'_def by simp
      then show ?thesis
        using i v by (subst (1 2) or_compact.simps) (simp add: take' drop' drop_i cs'_def[symmetric])
    qed
  qed
qed

lemma or_compact_filter:
  "take (snd (or_compact cs 0 0)) (fst (or_compact cs 0 0)) = filter valid cs"
  using or_compact_take [of 0 0 cs] by simp

section \<open>Heap lemmas\<close>

text \<open>
  A vector is a min-heap for the key \<open>f\<close> when no element is above its two children.
  Sifting down from a position whose subtrees are heaps makes a heap, with the
  repository's \<open>adjustDownMinHeap\<close> as with the library's \<open>adjust_heap\<close>; so
  \<open>make_heap\<close> makes one, \<open>pop_heap\<close> leaves one in front of the former root, and
  the root of a heap is its minimum.
\<close>

definition heap_node :: "('a \<Rightarrow> 'k::linorder) \<Rightarrow> 'a list \<Rightarrow> nat \<Rightarrow> bool" where
  "heap_node f h i =
     ((2 * i + 1 < length h \<longrightarrow> f (h ! i) \<le> f (h ! (2 * i + 1))) \<and>
      (2 * i + 2 < length h \<longrightarrow> f (h ! i) \<le> f (h ! (2 * i + 2))))"

definition is_heap :: "('a \<Rightarrow> 'k::linorder) \<Rightarrow> 'a list \<Rightarrow> bool" where
  "is_heap f h = (\<forall>i. heap_node f h i)"

lemma adjustDown_step:
  "adjustDownMinHeap cmp heap pos =
     (if pos * 2 + 1 \<ge> length heap then heap
      else
        let minChild =
              (if pos * 2 + 2 < length heap \<and> cmp (heap ! (pos * 2 + 1)) (heap ! (pos * 2 + 2))
               then pos * 2 + 2 else pos * 2 + 1)
        in if cmp (heap ! pos) (heap ! minChild)
           then adjustDownMinHeap cmp (swap_at heap minChild pos) minChild
           else heap)"
  by (subst adjustDownMinHeap.simps) (simp add: Let_def add.commute)

lemma adjustDown_heap:
  fixes f :: "'a \<Rightarrow> 'k::linorder"
  assumes "\<forall>i. k \<le> i \<and> i \<noteq> pos \<longrightarrow> heap_node f h i"
    and "\<forall>p c. k \<le> p \<and> (pos = 2 * p + 1 \<or> pos = 2 * p + 2) \<and>
               (c = 2 * pos + 1 \<or> c = 2 * pos + 2) \<and> c < length h \<longrightarrow> f (h ! p) \<le> f (h ! c)"
  shows "\<forall>i. k \<le> i \<longrightarrow> heap_node f (adjustDownMinHeap (\<lambda>a b. f b < f a) h pos) i"
  using assms
proof (induction "\<lambda>a b. f b < f a" h pos rule: adjustDownMinHeap.induct)
  case (1 h pos)
  let ?cmp = "\<lambda>a b. f b < f a"
  show ?case
  proof (cases "pos * 2 + 1 \<ge> length h")
    case True
    then have "heap_node f h pos" by (simp add: heap_node_def)
    with 1(2) True show ?thesis
      by (subst adjustDown_step) auto
  next
    case False
    define m where "m = (if pos * 2 + 2 < length h \<and> ?cmp (h ! (pos * 2 + 1)) (h ! (pos * 2 + 2))
               then pos * 2 + 2 else pos * 2 + 1)"
    have m_cases: "m = 2 * pos + 1 \<or> m = 2 * pos + 2" by (auto simp: m_def)
    have m_lt: "m < length h" using False by (auto simp: m_def)
    have pos_lt_m: "pos < m" using m_cases by auto
    have m_min: "\<forall>c. (c = 2 * pos + 1 \<or> c = 2 * pos + 2) \<and> c < length h \<longrightarrow> f (h ! m) \<le> f (h ! c)"
      using False by (auto simp: m_def mult.commute)
    have step: "adjustDownMinHeap ?cmp h pos =
        (if ?cmp (h ! pos) (h ! m) then adjustDownMinHeap ?cmp (swap_at h m pos) m else h)"
      using False by (subst adjustDown_step) (simp add: m_def Let_def)
    show ?thesis
    proof (cases "?cmp (h ! pos) (h ! m)")
      case no: False
      then have "heap_node f h pos"
        using m_min by (auto simp: heap_node_def intro: order_trans)
      with "1.prems"(1) have "\<forall>i. k \<le> i \<longrightarrow> heap_node f h i" by auto
      then show ?thesis
        using no unfolding step by simp
    next
      case yes: True
      define h' where "h' = swap_at h m pos"
      have len': "length h' = length h" by (simp add: h'_def)
      have h'_pos: "h' ! pos = h ! m" and h'_m: "h' ! m = h ! pos"
        using m_lt pos_lt_m by (simp_all add: h'_def swap_at_def)
      have h'_other: "\<And>j. j \<noteq> pos \<Longrightarrow> j \<noteq> m \<Longrightarrow> h' ! j = h ! j"
        by (simp add: h'_def swap_at_def)
      have a: "\<forall>i. k \<le> i \<and> i \<noteq> m \<longrightarrow> heap_node f h' i"
      proof (intro allI impI)
        fix i assume i: "k \<le> i \<and> i \<noteq> m"
        show "heap_node f h' i"
        proof (cases "i = pos")
          case True
          have "\<And>c. (c = 2 * pos + 1 \<or> c = 2 * pos + 2) \<Longrightarrow> c < length h \<Longrightarrow> f (h ! m) \<le> f (h' ! c)"
          proof -
            fix c assume c: "c = 2 * pos + 1 \<or> c = 2 * pos + 2" "c < length h"
            show "f (h ! m) \<le> f (h' ! c)"
            proof (cases "c = m")
              case True
              then show ?thesis using h'_m yes by simp
            next
              case False
              then have "h' ! c = h ! c" using c h'_other by auto
              then show ?thesis using m_min c by simp
            qed
          qed
          then show ?thesis using True h'_pos len' by (simp add: heap_node_def)
        next
          case False
          then have hn: "heap_node f h i" using "1.prems"(1) i by simp
          have hi: "h' ! i = h ! i" using False i h'_other by simp
          have "\<And>c. (c = 2 * i + 1 \<or> c = 2 * i + 2) \<Longrightarrow> c < length h \<Longrightarrow> f (h ! i) \<le> f (h' ! c)"
          proof -
            fix c assume c: "c = 2 * i + 1 \<or> c = 2 * i + 2" "c < length h"
            have c_ne_m: "c \<noteq> m" using c m_cases False by auto
            show "f (h ! i) \<le> f (h' ! c)"
            proof (cases "c = pos")
              case True
              then have "f (h ! i) \<le> f (h ! m)"
                using "1.prems"(2) i c m_cases m_lt by blast
              then show ?thesis using True h'_pos by simp
            next
              case False
              then have "h' ! c = h ! c" using c_ne_m h'_other by simp
              then show ?thesis using hn c by (auto simp: heap_node_def)
            qed
          qed
          then show ?thesis using hi len' by (simp add: heap_node_def)
        qed
      qed
      have b: "\<forall>p c. k \<le> p \<and> (m = 2 * p + 1 \<or> m = 2 * p + 2) \<and>
               (c = 2 * m + 1 \<or> c = 2 * m + 2) \<and> c < length h' \<longrightarrow> f (h' ! p) \<le> f (h' ! c)"
      proof (intro allI impI)
        fix p c assume pc: "k \<le> p \<and> (m = 2 * p + 1 \<or> m = 2 * p + 2) \<and>
               (c = 2 * m + 1 \<or> c = 2 * m + 2) \<and> c < length h'"
        then have p: "p = pos" using m_cases by auto
        have c_other: "c \<noteq> pos" "c \<noteq> m" using pc pos_lt_m by auto
        have "heap_node f h m" using "1.prems"(1) pc p pos_lt_m by simp
        then have "f (h ! m) \<le> f (h ! c)" using pc len' by (auto simp: heap_node_def)
        then show "f (h' ! p) \<le> f (h' ! c)" using p h'_pos h'_other c_other by simp
      qed
      have m_eq: "m = (if pos * 2 + 1 + 1 < length h \<and> ?cmp (h ! (pos * 2 + 1)) (h ! (pos * 2 + 1 + 1))
               then pos * 2 + 1 + 1 else pos * 2 + 1)"
        by (simp add: m_def)
      have "\<forall>i. k \<le> i \<longrightarrow> heap_node f (adjustDownMinHeap ?cmp (swap_at h m pos) m) i"
      proof (rule "1.hyps"[OF refl _ m_eq yes])
        show "\<not> length h \<le> pos * 2 + 1" using False by simp
        show "\<forall>i. k \<le> i \<and> i \<noteq> m \<longrightarrow> heap_node f (swap_at h m pos) i"
          using a by (simp add: h'_def)
        show "\<forall>p c. k \<le> p \<and> (m = 2 * p + 1 \<or> m = 2 * p + 2) \<and>
               (c = 2 * m + 1 \<or> c = 2 * m + 2) \<and> c < length (swap_at h m pos) \<longrightarrow>
               f (swap_at h m pos ! p) \<le> f (swap_at h m pos ! c)"
          using b by (simp add: h'_def)
      qed
      then show ?thesis
        using yes unfolding step h'_def by simp
    qed
  qed
qed


inductive heap_below :: "nat \<Rightarrow> nat \<Rightarrow> bool" for tp where
  heap_below_refl: "heap_below tp tp"
| heap_below_left: "heap_below tp h \<Longrightarrow> heap_below tp (2 * h + 1)"
| heap_below_right: "heap_below tp h \<Longrightarrow> heap_below tp (2 * h + 2)"

lemma heap_below_le: "heap_below tp h \<Longrightarrow> tp \<le> h"
  by (induction rule: heap_below.induct) auto

lemma heap_below_parent: "heap_below tp h \<Longrightarrow> h \<noteq> tp \<Longrightarrow> heap_below tp ((h - 1) div 2)"
  by (cases rule: heap_below.cases) auto

lemma adjust_heap_down_props:
  fixes f :: "'a \<Rightarrow> 'k::linorder"
  assumes "adjust_heap_down cmp first h sc len = (first', h', sc')"
    and "cmp = (\<lambda>a b. f b < f a)" "sc = h" "len = length first"
    and "heap_below tp h" "h < length first"
    and "\<forall>i. tp \<le> i \<and> \<not> (i = tp \<and> h = tp) \<longrightarrow> heap_node f first i"
  shows "heap_below tp h' \<and> h' < length first \<and> length first' = length first
    \<and> (\<forall>i. tp \<le> i \<and> \<not> (i = tp \<and> h' = tp) \<longrightarrow> heap_node f first' i)
    \<and> \<not> h' < (length first - 1) div 2 \<and> sc' = h'
    \<and> (\<forall>v. mset (first'[h' := v]) = mset (first[h := v]))"
  using assms
proof (induction cmp first h sc len arbitrary: first' h' sc' rule: adjust_heap_down.induct)
  case (1 cmp first holeIndex secondChild len)
  note cmp = "1.prems"(2) and sc = "1.prems"(3) and len = "1.prems"(4)
  note bel = "1.prems"(5) and hl = "1.prems"(6) and J = "1.prems"(7)
  show ?case
  proof (cases "secondChild < (len - 1) div 2")
    case False
    then have "first' = first" "h' = holeIndex" "sc' = secondChild"
      using "1.prems"(1) by (subst (asm) adjust_heap_down.simps, simp)+
    then show ?thesis using False bel hl J sc len by simp
  next
    case True
    define s2 where "s2 = 2 * (secondChild + 1)"
    define c where "c = (if cmp (first ! s2) (first ! (s2 - 1)) then s2 - 1 else s2)"
    define first1 where "first1 = first[holeIndex := first ! c]"
    have s2: "s2 = 2 * holeIndex + 2" "s2 < length first"
      using True sc len by (auto simp: s2_def)
    have c_cases: "c = 2 * holeIndex + 1 \<or> c = 2 * holeIndex + 2"
      using s2 by (auto simp: c_def)
    have c_lt: "c < length first" "holeIndex < c" using c_cases s2 by auto
    have c_min: "f (first ! c) \<le> f (first ! (2 * holeIndex + 1))"
      "f (first ! c) \<le> f (first ! (2 * holeIndex + 2))"
      using s2 by (auto simp: c_def cmp)
    have "adjust_heap_down cmp first holeIndex secondChild len = adjust_heap_down cmp first1 c c len"
      unfolding first1_def c_def s2_def
      by (subst adjust_heap_down.simps) (simp only: True if_True Let_def)
    then have rec: "adjust_heap_down cmp first1 c c len = (first', h', sc')"
      using "1.prems"(1) by simp
    have len1: "length first1 = length first" by (simp add: first1_def)
    have J1: "\<forall>i. tp \<le> i \<and> \<not> (i = tp \<and> c = tp) \<longrightarrow> heap_node f first1 i"
    proof (intro allI impI)
      fix i assume i: "tp \<le> i \<and> \<not> (i = tp \<and> c = tp)"
      show "heap_node f first1 i"
      proof (cases "i = holeIndex")
        case True
        have "first1 ! holeIndex = first ! c" using hl by (simp add: first1_def)
        moreover have "first1 ! (2 * holeIndex + 1) = first ! (2 * holeIndex + 1)"
          "first1 ! (2 * holeIndex + 2) = first ! (2 * holeIndex + 2)"
          by (simp_all add: first1_def)
        ultimately show ?thesis using True c_min by (simp add: heap_node_def)
      next
        case False
        then have hn: "heap_node f first i" using J i by auto
        have vi: "first1 ! i = first ! i" using False by (simp add: first1_def)
        have "f (first ! i) \<le> f (first1 ! k)"
          if k: "k = 2 * i + 1 \<or> k = 2 * i + 2" "k < length first" for k
        proof (cases "k = holeIndex")
          case True
          then have "holeIndex \<noteq> tp" using k i by auto
          then have "heap_node f first holeIndex" using J heap_below_le[OF bel] by auto
          then have "f (first ! holeIndex) \<le> f (first ! c)"
            using c_cases c_lt by (auto simp: heap_node_def)
          moreover have "f (first ! i) \<le> f (first ! holeIndex)"
            using hn k True by (auto simp: heap_node_def)
          ultimately show ?thesis using True hl by (simp add: first1_def)
        next
          case False
          then show ?thesis using hn k by (auto simp: heap_node_def first1_def)
        qed
        then show ?thesis using vi len1 by (simp add: heap_node_def)
      qed
    qed
    have belc: "heap_below tp c"
      using c_cases heap_below_left[OF bel] heap_below_right[OF bel] by metis
    have ms1: "mset (first1[c := v]) = mset (first[holeIndex := v])" for v
      unfolding first1_def using hl c_lt by (intro mset_move_hole) auto
    have IH: "heap_below tp h' \<and> h' < length first1 \<and> length first' = length first1
      \<and> (\<forall>i. tp \<le> i \<and> \<not> (i = tp \<and> h' = tp) \<longrightarrow> heap_node f first' i)
      \<and> \<not> h' < (length first1 - 1) div 2 \<and> sc' = h'
      \<and> (\<forall>v. mset (first'[h' := v]) = mset (first1[c := v]))"
      by (rule "1.IH"[OF True s2_def c_def first1_def refl rec cmp refl _ belc _ J1])
         (simp_all add: len1 len c_lt)
    then show ?thesis using len1 ms1 by simp
  qed
qed

lemma push_heap_hole_heap:
  fixes f :: "'a \<Rightarrow> 'k::linorder"
  assumes "cmp = (\<lambda>a b. f b < f a)" "heap_below tp h" "h < length first"
    and "\<forall>i. tp \<le> i \<longrightarrow> heap_node f first i"
    and "\<forall>c. (c = 2 * h + 1 \<or> c = 2 * h + 2) \<and> c < length first \<longrightarrow> f v \<le> f (first ! c)"
  shows "\<forall>i. tp \<le> i \<longrightarrow> heap_node f (push_heap_hole cmp first h tp v) i"
  using assms
proof (induction cmp first h tp v rule: push_heap_hole.induct)
  case (1 cmp first holeIndex topIndex v)
  note cmp = "1.prems"(1) and bel = "1.prems"(2) and hl = "1.prems"(3)
    and H = "1.prems"(4) and K = "1.prems"(5)
  let ?p = "(holeIndex - 1) div 2"
  show ?case
  proof (cases "holeIndex > topIndex \<and> cmp (first ! ?p) v")
    case False
    have res: "push_heap_hole cmp first holeIndex topIndex v = first[holeIndex := v]"
      using False by (subst push_heap_hole.simps) (auto simp: Let_def)
    have "heap_node f (first[holeIndex := v]) i" if i: "topIndex \<le> i" for i
    proof (cases "i = holeIndex")
      case True
      then show ?thesis using K hl by (auto simp: heap_node_def)
    next
      case ne: False
      have hn: "heap_node f first i" using H i by simp
      have "f (first ! i) \<le> f (first[holeIndex := v] ! k)"
        if k: "k = 2 * i + 1 \<or> k = 2 * i + 2" "k < length first" for k
      proof (cases "k = holeIndex")
        case True
        then have ip: "i = ?p" and gt: "holeIndex > topIndex" using k i by auto
        then have "\<not> cmp (first ! ?p) v" using False by simp
        then show ?thesis using True ip hl by (simp add: cmp not_less)
      next
        case False
        then show ?thesis using hn k by (auto simp: heap_node_def)
      qed
      then show ?thesis using ne by (simp add: heap_node_def)
    qed
    then show ?thesis unfolding res by simp
  next
    case True
    define first1 where "first1 = first[holeIndex := first ! ?p]"
    have p: "?p < holeIndex" "holeIndex = 2 * ?p + 1 \<or> holeIndex = 2 * ?p + 2"
      using True by auto
    have belp: "heap_below topIndex ?p" using heap_below_parent[OF bel] True by simp
    then have tp_p: "topIndex \<le> ?p" by (rule heap_below_le)
    have hnp: "heap_node f first ?p" using H tp_p by simp
    have vp: "f v < f (first ! ?p)" using True by (simp add: cmp)
    have p_h: "f (first ! ?p) \<le> f (first ! holeIndex)"
      using hnp p hl by (auto simp: heap_node_def)
    have res: "push_heap_hole cmp first holeIndex topIndex v
        = push_heap_hole cmp first1 ?p topIndex v"
      using True by (subst push_heap_hole.simps) (simp add: Let_def first1_def)
    have H1: "\<forall>i. topIndex \<le> i \<longrightarrow> heap_node f first1 i"
    proof (intro allI impI)
      fix i assume i: "topIndex \<le> i"
      have hn: "heap_node f first i" using H i by simp
      have "f (first1 ! i) \<le> f (first1 ! k)"
        if k: "k = 2 * i + 1 \<or> k = 2 * i + 2" "k < length first" for k
      proof (cases "i = holeIndex")
        case True
        then have "k \<noteq> holeIndex" using k by auto
        then have "first1 ! k = first ! k" by (simp add: first1_def)
        moreover have "f (first ! holeIndex) \<le> f (first ! k)"
          using hn k True by (auto simp: heap_node_def)
        moreover have "first1 ! i = first ! ?p" using True hl by (simp add: first1_def)
        ultimately show ?thesis using p_h by simp
      next
        case False
        then have ii: "first1 ! i = first ! i" by (simp add: first1_def)
        show ?thesis
        proof (cases "k = holeIndex")
          case True
          then have "i = ?p" using k by auto
          then show ?thesis using True hl ii by (simp add: first1_def)
        next
          case False
          then show ?thesis using hn k ii by (auto simp: heap_node_def first1_def)
        qed
      qed
      then show "heap_node f first1 i" by (simp add: heap_node_def first1_def)
    qed
    have K1: "\<forall>c. (c = 2 * ?p + 1 \<or> c = 2 * ?p + 2) \<and> c < length first1 \<longrightarrow> f v \<le> f (first1 ! c)"
    proof (intro allI impI)
      fix c assume c: "(c = 2 * ?p + 1 \<or> c = 2 * ?p + 2) \<and> c < length first1"
      show "f v \<le> f (first1 ! c)"
      proof (cases "c = holeIndex")
        case True
        then show ?thesis using vp hl by (simp add: first1_def)
      next
        case False
        then have "first1 ! c = first ! c" by (simp add: first1_def)
        moreover have "f (first ! ?p) \<le> f (first ! c)"
          using hnp c by (auto simp: heap_node_def first1_def)
        ultimately show ?thesis using vp by simp
      qed
    qed
    have "\<forall>i. topIndex \<le> i \<longrightarrow> heap_node f (push_heap_hole cmp first1 ?p topIndex v) i"
      by (rule "1.IH"[OF refl True, folded first1_def, OF cmp belp _ H1 K1])
         (use p hl in \<open>simp add: first1_def\<close>)
    then show ?thesis unfolding res .
  qed
qed


lemma adjust_heap_props:
  fixes f :: "'a \<Rightarrow> 'k::linorder"
  assumes "tp < length first" "\<forall>i. tp < i \<longrightarrow> heap_node f first i"
  shows "\<forall>i. tp \<le> i \<longrightarrow> heap_node f (adjust_heap (\<lambda>a b. f b < f a) first tp (length first) v) i"
    and "mset (adjust_heap (\<lambda>a b. f b < f a) first tp (length first) v) = mset (first[tp := v])"
proof -
  let ?cmp = "\<lambda>a b. f b < f a"
  let ?n = "length first"
  obtain first1 h1 sc1 where down: "adjust_heap_down ?cmp first tp tp ?n = (first1, h1, sc1)"
    by (cases "adjust_heap_down ?cmp first tp tp ?n") auto
  have J: "\<forall>i. tp \<le> i \<and> \<not> (i = tp \<and> tp = tp) \<longrightarrow> heap_node f first i"
    using assms(2) by auto
  have d: "heap_below tp h1" "h1 < ?n" "length first1 = ?n"
    "\<forall>i. tp \<le> i \<and> \<not> (i = tp \<and> h1 = tp) \<longrightarrow> heap_node f first1 i"
    "\<not> h1 < (?n - 1) div 2" "sc1 = h1" "\<And>v. mset (first1[h1 := v]) = mset (first[tp := v])"
    using adjust_heap_down_props[OF down refl refl refl heap_below_refl assms(1) J] by auto
  define sp where "sp = (?n mod 2 = 0 \<and> sc1 = (?n - 2) div 2)"
  define first2 where "first2 = (if sp then first1[h1 := first1 ! (2 * (sc1 + 1) - 1)] else first1)"
  define h2 where "h2 = (if sp then 2 * (sc1 + 1) - 1 else h1)"
  have res: "adjust_heap ?cmp first tp ?n v = push_heap_hole ?cmp first2 h2 tp v"
    by (simp add: adjust_heap_def down Let_def sp_def first2_def h2_def)
  have len2: "length first2 = ?n" by (simp add: first2_def d)
  have p2: "heap_below tp h2 \<and> h2 < ?n \<and> (\<forall>i. tp \<le> i \<longrightarrow> heap_node f first2 i)
      \<and> ?n \<le> 2 * h2 + 1 \<and> (\<forall>v. mset (first2[h2 := v]) = mset (first[tp := v]))"
  proof (cases sp)
    case False
    then have leaf: "?n \<le> 2 * h1 + 1" using d(2,5,6) unfolding sp_def by presburger
    then have "heap_node f first1 h1" using d(3) by (simp add: heap_node_def)
    then have "\<forall>i. tp \<le> i \<longrightarrow> heap_node f first1 i" using d(4) by auto
    then show ?thesis using False d leaf by (simp add: first2_def h2_def)
  next
    case True
    define k where "k = 2 * h1 + 1"
    have k: "k = ?n - 1" "k < ?n" "h2 = k" "h1 < k" "2 * h1 + 2 = ?n"
      using True d(2,6) unfolding sp_def k_def h2_def by presburger+
    have f2: "first2 = first1[h1 := first1 ! k]"
      using True d(6) by (simp add: first2_def k_def)
    have H2: "heap_node f first2 i" if i: "tp \<le> i" for i
    proof (cases "i = h1")
      case True
      have "first2 ! h1 = first1 ! k" "first2 ! k = first1 ! k"
        using d(2,3) k by (simp_all add: f2)
      then show ?thesis using True k len2 by (simp add: heap_node_def k_def)
    next
      case False
      then have hn: "heap_node f first1 i" using d(4) i by auto
      have ii: "first2 ! i = first1 ! i" using False by (simp add: f2)
      have "f (first1 ! i) \<le> f (first2 ! c)"
        if c: "c = 2 * i + 1 \<or> c = 2 * i + 2" "c < ?n" for c
      proof (cases "c = h1")
        case True
        then have "h1 \<noteq> tp" using c i by auto
        then have "heap_node f first1 h1" using d(4) heap_below_le[OF d(1)] by auto
        then have "f (first1 ! h1) \<le> f (first1 ! k)"
          using k d(3) by (auto simp: heap_node_def k_def)
        moreover have "f (first1 ! i) \<le> f (first1 ! h1)"
          using hn c True d(3) by (auto simp: heap_node_def)
        ultimately show ?thesis using True d(2,3) by (simp add: f2)
      next
        case False
        then show ?thesis using hn c d(3) by (auto simp: heap_node_def f2)
      qed
      then show ?thesis using ii len2 by (simp add: heap_node_def)
    qed
    have "mset (first2[k := v]) = mset (first[tp := v])" for v
    proof -
      have "mset (first1[h1 := first1 ! k, k := v]) = mset (first1[h1 := v])"
        using d(2,3) k by (intro mset_move_hole) auto
      then show ?thesis using d(7) by (simp add: f2)
    qed
    moreover have "heap_below tp k" unfolding k_def using d(1) by (rule heap_below_left)
    ultimately show ?thesis using k H2 by simp
  qed
  have K2: "\<forall>c. (c = 2 * h2 + 1 \<or> c = 2 * h2 + 2) \<and> c < length first2 \<longrightarrow> f v \<le> f (first2 ! c)"
    using p2 len2 by auto
  show "\<forall>i. tp \<le> i \<longrightarrow> heap_node f (adjust_heap ?cmp first tp ?n v) i"
    unfolding res using p2 len2 K2 by (intro push_heap_hole_heap[OF refl]) auto
  show "mset (adjust_heap ?cmp first tp ?n v) = mset (first[tp := v])"
    unfolding res using p2 len2 by (simp add: mset_push_heap_hole)
qed

lemma make_heap_from_heap:
  fixes f :: "'a \<Rightarrow> 'k::linorder"
  shows "\<forall>i. p < i \<longrightarrow> heap_node f h i \<Longrightarrow> p < length h \<Longrightarrow>
    is_heap f (make_heap_from (\<lambda>a b. f b < f a) h p)"
proof (induction p arbitrary: h)
  case 0
  have "\<forall>i. 0 \<le> i \<longrightarrow> heap_node f (adjust_heap (\<lambda>a b. f b < f a) h 0 (length h) (h ! 0)) i"
    by (rule adjust_heap_props(1)) (use 0 in auto)
  then show ?case by (simp add: is_heap_def)
next
  case (Suc p)
  have "\<forall>i. Suc p \<le> i \<longrightarrow>
      heap_node f (adjust_heap (\<lambda>a b. f b < f a) h (Suc p) (length h) (h ! Suc p)) i"
    by (rule adjust_heap_props(1)) (use Suc.prems in auto)
  then have "\<forall>i. p < i \<longrightarrow>
      heap_node f (adjust_heap (\<lambda>a b. f b < f a) h (Suc p) (length h) (h ! Suc p)) i"
    by (simp add: Suc_le_eq)
  from Suc.IH[OF this] Suc.prems(2) show ?case by simp
qed

lemma make_heap_is_heap:
  fixes f :: "'a \<Rightarrow> 'k::linorder"
  shows "is_heap f (make_heap (\<lambda>a b. f b < f a) h)"
proof (cases "length h < 2")
  case True
  then show ?thesis by (auto simp: make_heap_def is_heap_def heap_node_def)
next
  case False
  have "\<forall>i. (length h - 2) div 2 < i \<longrightarrow> heap_node f h i"
  proof (intro allI impI)
    fix i assume "(length h - 2) div 2 < i"
    then have "length h \<le> 2 * i + 1" using False by linarith
    then show "heap_node f h i" by (simp add: heap_node_def)
  qed
  moreover have "(length h - 2) div 2 < length h" using False by simp
  ultimately show ?thesis
    using make_heap_from_heap[of "(length h - 2) div 2" f h] False by (simp add: make_heap_def)
qed

lemma is_heap_root_min:
  fixes f :: "'a \<Rightarrow> 'k::linorder"
  assumes "is_heap f h"
  shows "i < length h \<Longrightarrow> f (h ! 0) \<le> f (h ! i)"
proof (induction i rule: less_induct)
  case (less i)
  show ?case
  proof (cases "i = 0")
    case True
    then show ?thesis by simp
  next
    case False
    define p where "p = (i - 1) div 2"
    have pi: "i = 2 * p + 1 \<or> i = 2 * p + 2" using False unfolding p_def by linarith
    then have "p < i" by auto
    then have "f (h ! 0) \<le> f (h ! p)" using less by simp
    moreover have "heap_node f h p" using assms by (simp add: is_heap_def)
    then have "f (h ! p) \<le> f (h ! i)" using pi less.prems by (auto simp: heap_node_def)
    ultimately show ?thesis by (rule order_trans)
  qed
qed

lemma minHeapCmp_key: "minHeapCmp = (\<lambda>a b. itr_value b < itr_value a)"
  by (intro ext) (simp add: minHeapCmp_def)

lemma itr_value_invalid: "\<not> valid c \<Longrightarrow> itr_value c = kInvalidDocId"
  by (induction c) (auto split: list.splits)

lemma itr_value_le_sentinel [simp]: "t \<le> kInvalidDocId"
  by (simp add: kInvalidDocId_def)

lemma not_sentinel_less [simp]: "\<not> kInvalidDocId < t"
  by (simp add: kInvalidDocId_def)

lemma valid_if_value_less: "itr_value c < t \<Longrightarrow> valid c"
  using itr_value_invalid[of c] by (cases "valid c") auto

lemma valid_And [simp]: "valid (AndIterator cs h) = (cs \<noteq> [] \<and> valid (cs ! 0))"
  by (cases cs) auto

lemma valid_Or [simp]: "valid (OrIterator cs h) = (cs \<noteq> [] \<and> valid (cs ! 0))"
  by (cases cs) auto

lemma itr_value_And [simp]:
  "itr_value (AndIterator cs h) = (if cs = [] then kInvalidDocId else itr_value (cs ! 0))"
  by (cases cs) (auto simp: itr_value_invalid)

lemma itr_value_Or [simp]:
  "itr_value (OrIterator cs h) = (if cs = [] then kInvalidDocId else itr_value (cs ! 0))"
  by (cases cs) (auto simp: itr_value_invalid)

declare valid.simps(3,4) [simp del] itr_value.simps(3,4) [simp del]

lemma itr_value_Diff [simp]: "itr_value (DiffIterator l r) = itr_value l"
  by (simp add: itr_value_invalid)

declare itr_value.simps(5) [simp del]

section \<open>Termination of the cursor operations\<close>

text \<open>
  The operations call one another through the children, and the loops of the operators
  end only because each turn consumes input. On the domain of the functions,
  \<open>bundle_ok\<close> shows that no operation increases the rank and that the turns the loops
  rely on decrease it. Termination follows for every cursor, well-formed or not.
\<close>

abbreviation bundle_dom where
  "bundle_dom \<equiv> itr_next_skipTo_and_nextAgreement_or_next_loop_diff_nextAgreement_dom"

definition next_ok :: "Iterator \<Rightarrow> bool" where
  "next_ok c = (rank (fst (itr_next c)) \<le> rank c \<and>
     (valid c \<longrightarrow> rank (fst (itr_next c)) < rank c) \<and>
     (valid (fst (itr_next c)) \<longrightarrow> valid c))"

definition skip_ok :: "Iterator \<Rightarrow> DocId \<Rightarrow> bool" where
  "skip_ok c t = (rank (fst (skipTo c t)) \<le> rank c \<and>
     (itr_value c < t \<and> t < itr_value (fst (skipTo c t)) \<longrightarrow> rank (fst (skipTo c t)) < rank c))"

definition and_ok :: "Iterator list \<Rightarrow> nat \<Rightarrow> bool" where
  "and_ok cs pos = (let r = fst (and_nextAgreement cs pos) in
     length r = length cs \<and> ranks r \<le> ranks cs \<and>
     (itr_value (r ! 0) \<noteq> itr_value (cs ! 0) \<longrightarrow> ranks r < ranks cs))"

definition or_ok :: "Iterator list \<Rightarrow> DocId \<Rightarrow> bool" where
  "or_ok cs cur = (let r = or_next_loop cs cur in
     ranks r \<le> ranks cs \<and> (cs \<noteq> [] \<and> itr_value (cs ! 0) = cur \<longrightarrow> ranks r < ranks cs))"

definition diff_ok :: "Iterator \<Rightarrow> Iterator \<Rightarrow> bool" where
  "diff_ok l r = (let (l', r') = fst (diff_nextAgreement l r) in
     rank l' + rank r' \<le> rank l + rank r \<and>
     (itr_value l' \<noteq> itr_value l \<longrightarrow> rank l' + rank r' < rank l + rank r))"

lemma ranks_butlast: "xs \<noteq> [] \<Longrightarrow> ranks (butlast xs) + rank (last xs) = ranks xs"
  by (induction xs) auto

lemma bundle_ok:
  shows "bundle_dom (Inl (Inl c)) \<Longrightarrow> next_ok c"
    and "bundle_dom (Inl (Inr (c', t))) \<Longrightarrow> skip_ok c' t"
    and "bundle_dom (Inr (Inl (cs, pos))) \<Longrightarrow> and_ok cs pos"
    and "bundle_dom (Inr (Inr (Inl (cs', cur)))) \<Longrightarrow> or_ok cs' cur"
    and "bundle_dom (Inr (Inr (Inr (l, r)))) \<Longrightarrow> diff_ok l r"
proof (induct rule: itr_next_skipTo_and_nextAgreement_or_next_loop_diff_nextAgreement.pinduct)
  case 1
  then show ?case by (simp add: next_ok_def itr_next.psimps)
next
  case (2 sortedDocIds nextPos)
  then show ?case by (auto simp: next_ok_def itr_next.psimps)
next
  case (3 children h)
  note dom = 3(1)
  show ?case
  proof (cases "valid (AndIterator children h)")
    case False
    then show ?thesis by (auto simp: next_ok_def itr_next.psimps dom)
  next
    case True
    then have ne: "children \<noteq> []" and v0: "valid (children ! 0)" by simp_all
    define c0 where "c0 = fst (itr_next (children ! 0))"
    define cs where "cs = children[0 := c0]"
    have "next_ok (children ! 0)" using 3(2) True by simp
    then have "rank c0 < rank (children ! 0)" using v0 by (simp add: next_ok_def c0_def)
    moreover have "ranks cs + rank (children ! 0) = ranks children + rank c0"
      unfolding cs_def using ne by (intro ranks_update) simp
    ultimately have lt: "ranks cs < ranks children" by linarith
    have cs0: "cs ! 0 = c0" using ne by (simp add: cs_def)
    show ?thesis
    proof (cases "valid c0")
      case False
      then have "itr_next (AndIterator children h) = (AndIterator cs h, False)"
        using True cs0 by (simp add: itr_next.psimps dom Let_def cs_def c0_def)
      then show ?thesis using lt True by (simp add: next_ok_def)
    next
      case v: True
      have "and_ok cs 1" using 3(3)[of cs] True v cs0 by (simp add: cs_def c0_def)
      then have "ranks (fst (and_nextAgreement cs 1)) \<le> ranks cs" by (simp add: and_ok_def Let_def)
      moreover have "fst (itr_next (AndIterator children h)) = AndIterator (fst (and_nextAgreement cs 1)) h"
        using True v cs0 by (simp add: itr_next.psimps dom Let_def cs_def c0_def split: prod.splits)
      ultimately show ?thesis using lt True by (simp add: next_ok_def)
    qed
  qed
next
  case (4 children h)
  note dom = 4(1)
  show ?case
  proof (cases "valid (OrIterator children h)")
    case False
    then show ?thesis by (auto simp: next_ok_def itr_next.psimps dom)
  next
    case True
    then have ne: "children \<noteq> []" by simp
    define cur where "cur = itr_value (OrIterator children h)"
    have cur0: "itr_value (children ! 0) = cur" using ne by (simp add: cur_def)
    have "or_ok children cur" using 4(2) True by (simp add: cur_def)
    then have "ranks (or_next_loop children cur) < ranks children"
      using ne cur0 by (simp add: or_ok_def Let_def)
    moreover have "fst (itr_next (OrIterator children h)) = OrIterator (or_next_loop children cur) h"
      using True by (simp add: itr_next.psimps dom Let_def cur_def)
    ultimately show ?thesis using True by (simp add: next_ok_def)
  qed
next
  case (5 lhs rhs)
  note dom = 5(1)
  show ?case
  proof (cases "valid lhs")
    case False
    then show ?thesis by (auto simp: next_ok_def itr_next.psimps dom)
  next
    case True
    obtain l1 ok where n: "itr_next lhs = (l1, ok)" by (cases "itr_next lhs")
    have "next_ok lhs" using 5(2) True by simp
    then have lt: "rank l1 < rank lhs" using True n by (simp add: next_ok_def)
    show ?thesis
    proof (cases ok)
      case False
      then have "itr_next (DiffIterator lhs rhs) = (DiffIterator l1 rhs, False)"
        using True n by (simp add: itr_next.psimps dom)
      then show ?thesis using lt True by (simp add: next_ok_def)
    next
      case ok: True
      obtain l2 r2 ag where d: "diff_nextAgreement l1 rhs = ((l2, r2), ag)"
        by (cases "diff_nextAgreement l1 rhs") auto
      have "diff_ok l1 rhs" using 5(3)[OF _ refl n[symmetric]] True ok by simp
      then have "rank l2 + rank r2 \<le> rank l1 + rank rhs" using d by (simp add: diff_ok_def)
      moreover have "itr_next (DiffIterator lhs rhs) = (DiffIterator l2 r2, ag)"
        using True n ok d by (simp add: itr_next.psimps dom)
      ultimately show ?thesis using lt True by (simp add: next_ok_def)
    qed
  qed
next
  case (6 tag b)
  then show ?case by (auto simp: next_ok_def itr_next.psimps split: prod.splits)
next
  case (7 target)
  then show ?case by (simp add: skip_ok_def skipTo.psimps)
next
  case (8 sortedDocIds nextPos target)
  note dom = 8(1)
  define p where "p = lower_bound sortedDocIds nextPos (length sortedDocIds - nextPos) target"
  have b: "nextPos \<le> p" "p \<le> nextPos + (length sortedDocIds - nextPos)"
    using lower_bound_bounds[of nextPos sortedDocIds "length sortedDocIds - nextPos" target]
    by (simp_all add: p_def)
  have res: "fst (skipTo (VectorIterator sortedDocIds nextPos) target) = VectorIterator sortedDocIds p"
    by (simp add: skipTo.psimps dom Let_def p_def)
  have "p = nextPos" if "\<not> nextPos < length sortedDocIds"
    using that by (simp add: p_def)
  then have "nextPos < length sortedDocIds" if "p \<noteq> nextPos" using that by blast
  then show ?case
    unfolding skip_ok_def res using b by (cases "p = nextPos") auto
next
  case (9 children h target)
  note dom = 9(1)
  show ?case
  proof (cases "valid (AndIterator children h)")
    case False
    then have "skipTo (AndIterator children h) target = (AndIterator children h, False)"
      by (auto simp: skipTo.psimps dom)
    then show ?thesis by (auto simp: skip_ok_def)
  next
    case True
    then have ne: "children \<noteq> []" and v0: "valid (children ! 0)" by simp_all
    obtain c0 ok where sk: "skipTo (children ! 0) target = (c0, ok)" by (cases "skipTo (children ! 0) target")
    define cs where "cs = children[0 := c0]"
    have c0_ok: "skip_ok (children ! 0) target" using 9(2) True by simp
    then have le0: "rank c0 \<le> rank (children ! 0)" using sk by (simp add: skip_ok_def)
    have upd: "ranks cs + rank (children ! 0) = ranks children + rank c0"
      unfolding cs_def using ne by (intro ranks_update) simp
    have le: "ranks cs \<le> ranks children" using le0 upd by linarith
    have cs0: "cs ! 0 = c0" and cs_ne: "cs \<noteq> []" using ne by (simp_all add: cs_def)
    have val: "itr_value (AndIterator children h) = itr_value (children ! 0)"
      using ne by simp
    have strict0: "rank c0 < rank (children ! 0)" if "itr_value (children ! 0) < target" "target < itr_value c0"
      using c0_ok that sk by (simp add: skip_ok_def)
    show ?thesis
    proof (cases ok)
      case False
      then have res: "skipTo (AndIterator children h) target = (AndIterator cs h, False)"
        using True sk by (simp add: skipTo.psimps dom cs_def)
      have "itr_value (AndIterator cs h) = itr_value c0"
        using cs_ne cs0 by simp
      then show ?thesis
        unfolding skip_ok_def res using le val strict0 upd by auto
    next
      case ok: True
      define r where "r = fst (and_nextAgreement cs 1)"
      have "and_ok cs 1" using 9(3)[OF _ sk[symmetric] refl] True ok by (simp add: cs_def)
      then have r: "length r = length cs" "ranks r \<le> ranks cs"
        "itr_value (r ! 0) \<noteq> itr_value (cs ! 0) \<Longrightarrow> ranks r < ranks cs"
        by (simp_all add: and_ok_def Let_def r_def)
      have res: "fst (skipTo (AndIterator children h) target) = AndIterator r h"
        using True sk ok by (simp add: skipTo.psimps dom cs_def r_def split: prod.splits)
      have r_ne: "r \<noteq> []" using r(1) cs_ne by auto
      have valr: "itr_value (AndIterator r h) = itr_value (r ! 0)"
        using r_ne by simp
      have "ranks r < ranks children"
        if "itr_value (children ! 0) < target" "target < itr_value (r ! 0)"
      proof (cases "itr_value (r ! 0) = itr_value (cs ! 0)")
        case True
        then have "rank c0 < rank (children ! 0)" using strict0 that cs0 by simp
        then show ?thesis using upd r(2) by linarith
      next
        case False
        then show ?thesis using r(3) le by simp
      qed
      then show ?thesis
        unfolding skip_ok_def res using r(2) le val valr by auto
    qed
  qed
next
  case (10 children h target)
  note dom = 10(1)
  define f where "f = (\<lambda>c. fst (skipTo c target))"
  define cs1 where "cs1 = map f children"
  define cs3 where "cs3 = filter valid cs1"
  define cs4 where "cs4 = make_heap minHeapCmp cs3"
  have ih: "\<And>x. x \<in> set children \<Longrightarrow> skip_ok x target" using 10(2) by simp
  obtain cs2 n where oc: "or_compact cs1 0 0 = (cs2, n)" by (cases "or_compact cs1 0 0")
  have "take n cs2 = cs3" using or_compact_filter[of cs1] oc by (simp add: cs3_def)
  then have res: "fst (skipTo (OrIterator children h) target) = OrIterator cs4 h"
    using oc by (simp add: skipTo.psimps dom Let_def cs4_def cs1_def[unfolded f_def, symmetric])
  have le1: "ranks cs1 \<le> ranks children"
    unfolding cs1_def map_map
    by (rule sum_list_mono) (use ih in \<open>simp add: skip_ok_def f_def\<close>)
  have le3: "ranks cs3 \<le> ranks cs1"
    unfolding cs3_def by (rule sum_list_filter_le_nat)
  have eq4: "ranks cs4 = ranks cs3"
    unfolding cs4_def by (rule ranks_mset) (rule mset_make_heap)
  have set4: "set cs4 = set cs3"
    unfolding cs4_def by (metis mset_make_heap set_mset_mset)
  have strict: "ranks cs4 < ranks children"
    if a: "itr_value (OrIterator children h) < target" and b: "target < itr_value (OrIterator cs4 h)"
  proof -
    have v: "valid (OrIterator children h)"
      using a by (rule valid_if_value_less)
    then obtain c0 rest where ch: "children = c0 # rest" by (cases children) auto
    have vc0: "itr_value c0 < target" using a v ch by simp
    show ?thesis
    proof (cases "rank (f c0) < rank c0")
      case True
      have "ranks (map f rest) \<le> ranks rest"
        unfolding map_map
        by (rule sum_list_mono) (use ih ch in \<open>simp add: skip_ok_def f_def\<close>)
      then have "ranks cs1 < ranks children" using True by (simp add: cs1_def ch)
      then show ?thesis using le3 eq4 by linarith
    next
      case False
      have "skip_ok c0 target" using ih ch by simp
      then have nlt: "\<not> target < itr_value (f c0)"
        using False vc0 by (auto simp: skip_ok_def f_def)
      have "target < kInvalidDocId" using b by (metis itr_value_le_sentinel order_less_le_trans)
      then have "itr_value (f c0) < kInvalidDocId" using nlt by simp
      then have vf: "valid (f c0)" by (rule valid_if_value_less)
      then have mem: "f c0 \<in> set cs4" by (simp add: set4 cs3_def cs1_def ch)
      then obtain i where i: "i < length cs4" "cs4 ! i = f c0" by (auto simp: in_set_conv_nth)
      have "is_heap itr_value cs4"
        unfolding cs4_def minHeapCmp_key by (rule make_heap_is_heap)
      then have "itr_value (cs4 ! 0) \<le> itr_value (f c0)"
        using is_heap_root_min[of itr_value cs4 i] i by simp
      moreover have "itr_value (OrIterator cs4 h) = itr_value (cs4 ! 0)"
        using i by auto
      ultimately show ?thesis using b nlt by simp
    qed
  qed
  show ?case
    unfolding skip_ok_def res using le1 le3 eq4 strict by auto
next
  case (11 lhs rhs target)
  note dom = 11(1)
  obtain l1 ok where sk: "skipTo lhs target = (l1, ok)" by (cases "skipTo lhs target")
  have l_ok: "skip_ok lhs target" using 11(2) by simp
  then have le: "rank l1 \<le> rank lhs" using sk by (simp add: skip_ok_def)
  have strict0: "rank l1 < rank lhs" if "itr_value lhs < target" "target < itr_value l1"
    using l_ok that sk by (simp add: skip_ok_def)
  show ?case
  proof (cases ok)
    case False
    then have res: "skipTo (DiffIterator lhs rhs) target = (DiffIterator l1 rhs, False)"
      using sk by (simp add: skipTo.psimps dom)
    show ?thesis unfolding skip_ok_def res using le strict0 by auto
  next
    case ok: True
    obtain l2 r2 ag where d: "diff_nextAgreement l1 rhs = ((l2, r2), ag)"
      by (cases "diff_nextAgreement l1 rhs") auto
    have "diff_ok l1 rhs" using 11(3)[OF sk[symmetric] refl] ok by simp
    then have r: "rank l2 + rank r2 \<le> rank l1 + rank rhs"
      "itr_value l2 \<noteq> itr_value l1 \<Longrightarrow> rank l2 + rank r2 < rank l1 + rank rhs"
      using d by (simp_all add: diff_ok_def)
    have res: "skipTo (DiffIterator lhs rhs) target = (DiffIterator l2 r2, ag)"
      using sk ok d by (simp add: skipTo.psimps dom)
    have "rank l2 + rank r2 < rank lhs + rank rhs"
      if "itr_value lhs < target" "target < itr_value l2"
    proof (cases "itr_value l2 = itr_value l1")
      case True
      then show ?thesis using strict0 that r(1) by fastforce
    next
      case False
      then show ?thesis using r(2) le by linarith
    qed
    then show ?thesis unfolding skip_ok_def res using r(1) le by auto
  qed
next
  case (12 tag b target)
  then show ?case by (auto simp: skip_ok_def skipTo.psimps split: prod.splits)
next
  case (13 children pos)
  note dom = 13(1)
  show ?case
  proof (cases "pos < length children \<and> valid (children ! 0)")
    case False
    then have "and_nextAgreement children pos = (children, pos = length children)"
      by (subst and_nextAgreement.psimps[OF dom]) auto
    then show ?thesis by (simp add: and_ok_def)
  next
    case True
    define cand where "cand = itr_value (children ! 0)"
    show ?thesis
    proof (cases "itr_value (children ! pos) < cand")
      case False
      then have "and_nextAgreement children pos = and_nextAgreement children (pos + 1)"
        using True by (subst and_nextAgreement.psimps[OF dom]) (simp add: cand_def)
      moreover have "and_ok children (pos + 1)"
        using 13(5)[OF True refl] False by (simp add: cand_def)
      ultimately show ?thesis by (simp add: and_ok_def)
    next
      case lt: True
      then have pos0: "pos \<noteq> 0" unfolding cand_def by (cases "pos = 0") auto
      define c' where "c' = fst (skipTo (children ! pos) cand)"
      define cs where "cs = children[pos := c']"
      have sk: "skip_ok (children ! pos) cand"
        using 13(2)[OF True refl] lt by (simp add: cand_def)
      have upd: "ranks cs + rank (children ! pos) = ranks children + rank c'"
        unfolding cs_def using True by (intro ranks_update) simp
      have le: "ranks cs \<le> ranks children"
        using sk upd by (simp add: skip_ok_def c'_def)
      have cs_pos: "cs ! pos = c'" using True by (simp add: cs_def)
      have cs_0: "cs ! 0 = children ! 0" using pos0 by (simp add: cs_def)
      have len: "length cs = length children" by (simp add: cs_def)
      show ?thesis
      proof (cases "cand < itr_value c'")
        case sw: True
        have eq: "and_nextAgreement children pos = and_nextAgreement (swap_at cs pos 0) 1"
          using True lt sw cs_pos
          by (subst and_nextAgreement.psimps[OF dom]) (simp add: cand_def Let_def cs_def c'_def)
        have "and_ok (swap_at cs pos 0) 1"
          using 13(3)[OF True refl _ refl] lt sw cs_pos by (simp add: cand_def cs_def c'_def)
        then have r: "length (fst (and_nextAgreement (swap_at cs pos 0) 1)) = length cs"
          "ranks (fst (and_nextAgreement (swap_at cs pos 0) 1)) \<le> ranks (swap_at cs pos 0)"
          by (simp_all add: and_ok_def Let_def)
        have "ranks (swap_at cs pos 0) = ranks cs"
          by (rule ranks_mset) (use True len in \<open>auto intro!: mset_swap_at\<close>)
        moreover have "rank c' < rank (children ! pos)"
          using sk lt sw by (simp add: skip_ok_def c'_def)
        ultimately have "ranks (fst (and_nextAgreement (swap_at cs pos 0) 1)) < ranks children"
          using r(2) upd by linarith
        then show ?thesis using r(1) len by (simp add: and_ok_def eq)
      next
        case nsw: False
        have eq: "and_nextAgreement children pos = and_nextAgreement cs (pos + 1)"
          using True lt nsw cs_pos
          by (subst and_nextAgreement.psimps[OF dom]) (simp add: cand_def Let_def cs_def c'_def)
        have "and_ok cs (pos + 1)"
          using 13(4)[OF True refl _ refl] lt nsw cs_pos by (simp add: cand_def cs_def c'_def)
        then show ?thesis using le len cs_0 by (auto simp: and_ok_def eq Let_def)
      qed
    qed
  qed
next
  case (14 children current)
  note dom = 14(1)
  show ?case
  proof (cases "children \<noteq> [] \<and> itr_value (children ! 0) = current")
    case False
    then have "or_next_loop children current = children"
      by (subst or_next_loop.psimps[OF dom]) auto
    then show ?thesis using False by (simp add: or_ok_def)
  next
    case True
    define c' where "c' = fst (itr_next (children ! 0))"
    define cs where "cs = children[0 := c']"
    have nx: "next_ok (children ! 0)" using 14(2)[OF True] .
    have upd: "ranks cs + rank (children ! 0) = ranks children + rank c'"
      unfolding cs_def using True by (intro ranks_update) simp
    have cs0: "cs ! 0 = c'" using True by (simp add: cs_def)
    have cs_ne: "cs \<noteq> []" using True by (simp add: cs_def)
    show ?thesis
    proof (cases "valid c'")
      case v: True
      have eq: "or_next_loop children current = or_next_loop (adjustDownMinHeap minHeapCmp cs 0) current"
        using True v cs0
        by (subst or_next_loop.psimps[OF dom]) (simp add: Let_def cs_def c'_def)
      have "or_ok (adjustDownMinHeap minHeapCmp cs 0) current"
        using 14(3)[OF True refl] v cs0 by (simp add: cs_def c'_def)
      then have "ranks (or_next_loop (adjustDownMinHeap minHeapCmp cs 0) current)
          \<le> ranks (adjustDownMinHeap minHeapCmp cs 0)"
        by (simp add: or_ok_def Let_def)
      moreover have "ranks (adjustDownMinHeap minHeapCmp cs 0) = ranks cs"
        by (rule ranks_mset) (rule mset_adjustDownMinHeap)
      moreover have "rank c' < rank (children ! 0)"
        using nx v by (simp add: next_ok_def c'_def)
      ultimately have "ranks (or_next_loop children current) < ranks children"
        unfolding eq using upd by linarith
      then show ?thesis by (simp add: or_ok_def)
    next
      case nv: False
      define ph where "ph = pop_heap minHeapCmp cs"
      have eq: "or_next_loop children current = or_next_loop (butlast ph) current"
        using True nv cs0
        by (subst or_next_loop.psimps[OF dom]) (simp add: Let_def cs_def c'_def ph_def)
      have "or_ok (butlast ph) current"
        using 14(4)[OF True refl] nv cs0 by (simp add: cs_def c'_def ph_def)
      then have "ranks (or_next_loop (butlast ph) current) \<le> ranks (butlast ph)"
        by (simp add: or_ok_def Let_def)
      moreover have "ranks ph = ranks cs"
        unfolding ph_def by (rule ranks_mset) (rule mset_pop_heap)
      moreover have "ph \<noteq> []"
        using cs_ne mset_pop_heap[of minHeapCmp cs] unfolding ph_def by (metis mset_zero_iff)
      then have "ranks (butlast ph) < ranks ph"
        using rank_pos[of "last ph"] ranks_butlast[of ph] by linarith
      moreover have "rank c' \<le> rank (children ! 0)"
        using nx by (simp add: next_ok_def c'_def)
      ultimately have "ranks (or_next_loop children current) < ranks children"
        unfolding eq using upd by linarith
      then show ?thesis by (simp add: or_ok_def)
    qed
  qed
next
  case (15 lhs rhs)
  note dom = 15(1)
  show ?case
  proof (cases "valid lhs")
    case False
    then have "diff_nextAgreement lhs rhs = ((lhs, rhs), False)"
      by (subst diff_nextAgreement.psimps[OF dom]) auto
    then show ?thesis by (simp add: diff_ok_def)
  next
    case True
    obtain r1 ok where sk: "skipTo rhs (itr_value lhs) = (r1, ok)"
      by (cases "skipTo rhs (itr_value lhs)")
    have "skip_ok rhs (itr_value lhs)" using 15(2)[OF True] .
    then have le: "rank r1 \<le> rank rhs" using sk by (simp add: skip_ok_def)
    show ?thesis
    proof (cases "\<not> ok \<or> itr_value lhs < itr_value r1")
      case stop: True
      then have "diff_nextAgreement lhs rhs = ((lhs, r1), True)"
        using True sk by (subst diff_nextAgreement.psimps[OF dom]) auto
      then show ?thesis using le by (simp add: diff_ok_def)
    next
      case go: False
      define l1 where "l1 = fst (itr_next lhs)"
      have eq: "diff_nextAgreement lhs rhs = diff_nextAgreement l1 r1"
        using True sk go by (subst diff_nextAgreement.psimps[OF dom]) (auto simp: l1_def)
      have "next_ok lhs" using 15(3)[OF True sk[symmetric] refl go] .
      then have lt: "rank l1 < rank lhs" using True by (simp add: next_ok_def l1_def)
      have "diff_ok l1 r1" using 15(4)[OF True sk[symmetric] refl go] by (simp add: l1_def)
      then show ?thesis using lt le by (auto simp: diff_ok_def eq split: prod.splits)
    qed
  qed
qed


lemma next_dom_le: "bundle_dom (Inl (Inl c)) \<Longrightarrow> rank (fst (itr_next c)) \<le> rank c"
  and next_dom_less: "bundle_dom (Inl (Inl c)) \<Longrightarrow> valid c \<Longrightarrow> rank (fst (itr_next c)) < rank c"
  and next_dom_valid: "bundle_dom (Inl (Inl c)) \<Longrightarrow> valid (fst (itr_next c)) \<Longrightarrow> valid c"
  using bundle_ok(1)[of c] by (simp_all add: next_ok_def)

lemma skip_dom_le: "bundle_dom (Inl (Inr (c, t))) \<Longrightarrow> rank (fst (skipTo c t)) \<le> rank c"
  and skip_dom_less: "bundle_dom (Inl (Inr (c, t))) \<Longrightarrow> itr_value c < t \<Longrightarrow>
      t < itr_value (fst (skipTo c t)) \<Longrightarrow> rank (fst (skipTo c t)) < rank c"
  using bundle_ok(2)[of c t] by (simp_all add: skip_ok_def)

lemma rank_nth_le: "i < length cs \<Longrightarrow> rank (cs ! i) \<le> ranks cs"
  by (metis elem_le_sum_list length_map nth_map)

lemma rank_mem_le: "x \<in> set cs \<Longrightarrow> rank x \<le> ranks cs"
  by (metis in_set_conv_nth rank_nth_le)

termination itr_next
  apply (relation "inv_image (less_than <*lex*> less_than)
    (\<lambda>x. case x of
       Inl (Inl c) \<Rightarrow> (rank c, 0)
     | Inl (Inr (c, t)) \<Rightarrow> (rank c, 0)
     | Inr (Inl (cs, pos)) \<Rightarrow> (ranks cs, Suc (length cs - pos))
     | Inr (Inr (Inl (cs, cur))) \<Rightarrow> (ranks cs, 1)
     | Inr (Inr (Inr (l, r))) \<Rightarrow> (rank l + rank r, 1))")
  apply simp_all
  subgoal by (intro wf_inv_image wf_lex_prod wf_less_than)
  subgoal for children using rank_nth_le[of 0 children] by simp
  subgoal for children x
    using next_dom_less[of "children ! 0"] ranks_update[of 0 children "fst (itr_next (children ! 0))"]
    by simp
  subgoal premises p for lhs x xa y
  proof -
    have "fst (itr_next lhs) = xa" using p(3) by (cases "itr_next lhs") simp
    then show ?thesis using next_dom_le[OF p(5)] by simp
  qed
  subgoal for children using rank_nth_le[of 0 children] by simp
  subgoal premises p for children target x xa y xb
  proof -
    have "fst (skipTo (children ! 0) target) = xa"
      using p(3) by (cases "skipTo (children ! 0) target") simp
    then have "rank xa \<le> rank (children ! 0)" using skip_dom_le[OF p(6)] by simp
    moreover have "ranks (children[0 := xa]) + rank (children ! 0) = ranks children + rank xa"
      using p(1) by (intro ranks_update) simp
    ultimately show ?thesis by linarith
  qed
  subgoal for children x using rank_mem_le[of x children] by simp
  subgoal premises p for lhs target x xa y
  proof -
    have "fst (skipTo lhs target) = xa" using p(2) by (cases "skipTo lhs target") simp
    then show ?thesis using skip_dom_le[OF p(4)] by simp
  qed
  subgoal for children pos x using rank_nth_le[of pos children] by linarith
  subgoal premises p for children pos x xa
  proof -
    define c where "c = fst (skipTo (children ! pos) (itr_value (children ! 0)))"
    have "rank c < rank (children ! pos)"
      unfolding c_def using p(6,3,5) by (rule skip_dom_less)
    moreover have "ranks (children[pos := c]) + rank (children ! pos) = ranks children + rank c"
      using p(1) by (intro ranks_update) simp
    moreover have "ranks (swap_at (children[pos := c]) pos 0) = ranks (children[pos := c])"
      by (rule ranks_mset) (use p(1) in \<open>auto intro!: mset_swap_at\<close>)
    ultimately show ?thesis unfolding c_def by linarith
  qed
  subgoal premises p for children pos x xa
  proof -
    define c where "c = fst (skipTo (children ! pos) (itr_value (children ! 0)))"
    have "rank c \<le> rank (children ! pos)"
      unfolding c_def using p(6) by (rule skip_dom_le)
    moreover have "ranks (children[pos := c]) + rank (children ! pos) = ranks children + rank c"
      using p(1) by (intro ranks_update) simp
    ultimately show ?thesis unfolding c_def using p(1) by linarith
  qed
  subgoal by linarith
  subgoal for children using rank_nth_le[of 0 children] by simp linarith
  subgoal premises p for children x
  proof -
    define c where "c = fst (itr_next (children ! 0))"
    have "valid (children ! 0)" using p(4,3) by (rule next_dom_valid)
    then have "rank c < rank (children ! 0)" unfolding c_def using p(4) by (intro next_dom_less)
    moreover have "ranks (children[0 := c]) + rank (children ! 0) = ranks children + rank c"
      using p(1) by (intro ranks_update) simp
    moreover have "ranks (adjustDownMinHeap minHeapCmp (children[0 := c]) 0) = ranks (children[0 := c])"
      by (rule ranks_mset) (rule mset_adjustDownMinHeap)
    ultimately show ?thesis unfolding c_def by linarith
  qed
  subgoal premises p for children x
  proof -
    define c where "c = fst (itr_next (children ! 0))"
    define ph where "ph = pop_heap minHeapCmp (children[0 := c])"
    have "rank c \<le> rank (children ! 0)" unfolding c_def using p(4) by (rule next_dom_le)
    moreover have "ranks (children[0 := c]) + rank (children ! 0) = ranks children + rank c"
      using p(1) by (intro ranks_update) simp
    moreover have ms: "mset ph = mset (children[0 := c])" unfolding ph_def by (rule mset_pop_heap)
    then have "ranks ph = ranks (children[0 := c])" by (rule ranks_mset)
    moreover have "ph \<noteq> []" using ms p(1) by (metis length_list_update length_0_conv size_mset)
    then have "ranks (butlast ph) + rank (last ph) = ranks ph" by (rule ranks_butlast)
    moreover have "0 < rank (last ph)" by (rule rank_pos)
    ultimately show ?thesis unfolding ph_def c_def by linarith
  qed
  subgoal for lhs using rank_pos[of lhs] by simp
  subgoal for lhs rhs x xa y using rank_pos[of rhs] by simp
  subgoal premises p for lhs rhs x xa y
  proof -
    have "fst (skipTo rhs (itr_value lhs)) = xa"
      using p(3) by (cases "skipTo rhs (itr_value lhs)") simp
    then have "rank xa \<le> rank rhs" using skip_dom_le[OF p(5)] by simp
    moreover have "rank (fst (itr_next lhs)) < rank lhs" using next_dom_less[OF p(6) p(1)] .
    ultimately show ?thesis by linarith
  qed
  done

declare and_nextAgreement.simps [simp del] or_next_loop.simps [simp del]
  diff_nextAgreement.simps [simp del]

lemma case_valid: "(case cs of [] \<Rightarrow> False | c # x \<Rightarrow> valid c) = (cs \<noteq> [] \<and> valid (cs ! 0))"
  by (cases cs) auto

lemma case_value:
  "(case cs of [] \<Rightarrow> kInvalidDocId | c # x \<Rightarrow> if valid c then itr_value c else kInvalidDocId) =
   (if cs = [] then kInvalidDocId else itr_value (cs ! 0))"
  by (cases cs) (auto simp: itr_value_invalid)

lemma all_dom:
  "bundle_dom (Inl (Inl c))"
  "bundle_dom (Inl (Inr (c', t)))"
  "bundle_dom (Inr (Inl (cs, pos)))"
  "bundle_dom (Inr (Inr (Inl (cs', cur))))"
  "bundle_dom (Inr (Inr (Inr (l, r))))"
  by (induction c and c' t and cs pos and cs' cur and l r
      rule: itr_next_skipTo_and_nextAgreement_or_next_loop_diff_nextAgreement.induct)
     (auto intro: itr_next_skipTo_and_nextAgreement_or_next_loop_diff_nextAgreement.domintros
         [unfolded case_valid case_value])

lemma next_rank_less: "valid c \<Longrightarrow> rank (fst (itr_next c)) < rank c"
  by (rule next_dom_less[OF all_dom(1)])

section \<open>Constructors and the driver loop\<close>

text \<open>
  \<^verbatim>\<open>std::max_element\<close> with the comparison \<^verbatim>\<open>*lhs < *rhs\<close>: the index of the first
  child whose value no later child exceeds.
\<close>

definition max_element :: "Iterator list \<Rightarrow> nat" where
  "max_element children =
     fold (\<lambda>first largest.
             if itr_value (children ! largest) < itr_value (children ! first) then first else largest)
          [1 ..< length children] 0"

text \<open>
  The constructors. \<^verbatim>\<open>AndIterator\<close> and \<^verbatim>\<open>OrIterator\<close> end the process on an empty
  vector (\<^verbatim>\<open>CHECK(!children_.empty())\<close>); \<^verbatim>\<open>childrenHaveTags_\<close> is
  \<^verbatim>\<open>std::any_of\<close> over the children's \<^verbatim>\<open>hasTag()\<close>. The result of
  \<^verbatim>\<open>nextAgreement()\<close> is discarded by the constructors.
\<close>

definition AndIterator_new :: "Iterator list \<Rightarrow> failure + Iterator" where
  "AndIterator_new children =
     (let childrenHaveTags = list_ex hasTag children in
      if children = [] then Inl CheckFailed
      else
        let maxItr = max_element children;
            children = swap_at children 0 maxItr;
            (children, agreed) = and_nextAgreement children 1
        in Inr (AndIterator children childrenHaveTags))"

definition OrIterator_new :: "Iterator list \<Rightarrow> failure + Iterator" where
  "OrIterator_new children =
     (let childrenHaveTags = list_ex hasTag children in
      if children = [] then Inl CheckFailed
      else Inr (OrIterator (make_heap minHeapCmp children) childrenHaveTags))"

definition DiffIterator_new :: "Iterator \<Rightarrow> Iterator \<Rightarrow> Iterator" where
  "DiffIterator_new lhs rhs =
     (let ((lhs, rhs), agreed) = diff_nextAgreement lhs rhs in DiffIterator lhs rhs)"

text \<open>
  \<^verbatim>\<open>Iterator::iterateWith\<close>: while the cursor is valid, hand its value to the callback
  and advance. The model returns the values handed over, in order.
\<close>

function iterateWith :: "Iterator \<Rightarrow> DocId list" where
  "iterateWith c = (if valid c then itr_value c # iterateWith (fst (itr_next c)) else [])"
  by pat_completeness auto
termination iterateWith
  by (relation "measure rank") (simp_all add: next_rank_less)

declare iterateWith.simps [simp del]

section \<open>Leaf cursors\<close>

text \<open>
  Both constructors of \<^verbatim>\<open>VectorIterator\<close> start at position 0, and neither looks at
  the elements. The one taking an rvalue owns the vector; the one taking a reference
  keeps the reference \<^verbatim>\<open>sortedDocIds_\<close> to the caller's vector. The model holds the list
  of elements, that is, the caller's vector is taken not to change while the cursor is in
  use.
\<close>

definition getVectorIterator :: "DocId list \<Rightarrow> Iterator" where
  "getVectorIterator sortedDocIds = VectorIterator sortedDocIds 0"

definition getEmptyIterator :: Iterator where
  "getEmptyIterator = EmptyIterator"

text \<open>A posting list as the specification describes it: strictly ascending, without the sentinel.\<close>

definition posting_list :: "DocId list \<Rightarrow> bool" where
  "posting_list ds = (sorted_wrt (<) ds \<and> kInvalidDocId \<notin> set ds)"


section \<open>The remaining sequence of a cursor and well-formed cursors\<close>

text \<open>
  \<open>seq c\<close> is the list of values the cursor \<open>c\<close> has still to report, the current one
  first. It is defined from the structure of the cursor alone, not from its operations.
  \<open>well_formed\<close> is the representation invariant the operators keep: the vector of a
  leaf is a posting list and its position is within it; the children of an AND cursor
  agree on their value whenever the first is live; the children of an OR cursor form a
  min-heap on their values; the left child of a DIFF cursor does not stand on a value
  of the right one.
\<close>

definition inter_all :: "DocId list list \<Rightarrow> DocId list" where
  "inter_all xss = (case xss of [] \<Rightarrow> [] | xs # rest \<Rightarrow> filter (\<lambda>x. \<forall>ys \<in> set rest. x \<in> set ys) xs)"

definition union_all :: "DocId list list \<Rightarrow> DocId list" where
  "union_all xss = sorted_list_of_set (set (concat xss))"

fun seq :: "Iterator \<Rightarrow> DocId list" where
  "seq EmptyIterator = []"
| "seq (VectorIterator sortedDocIds nextPos) = drop nextPos sortedDocIds"
| "seq (AndIterator children h) = inter_all (map seq children)"
| "seq (OrIterator children h) = union_all (map seq children)"
| "seq (DiffIterator lhs rhs) = filter (\<lambda>x. x \<notin> set (seq rhs)) (seq lhs)"
| "seq (IteratorWithTag t b) = seq b"

fun well_formed :: "Iterator \<Rightarrow> bool" where
  "well_formed EmptyIterator = True"
| "well_formed (VectorIterator sortedDocIds nextPos) =
     (posting_list sortedDocIds \<and> nextPos \<le> length sortedDocIds)"
| "well_formed (AndIterator children h) =
     (children \<noteq> [] \<and> (\<forall>c \<in> set children. well_formed c) \<and>
      (valid (children ! 0) \<longrightarrow> (\<forall>c \<in> set children. itr_value (children ! 0) = itr_value c)))"
| "well_formed (OrIterator children h) =
     ((\<forall>c \<in> set children. well_formed c) \<and> is_heap itr_value children)"
| "well_formed (DiffIterator lhs rhs) =
     (well_formed lhs \<and> well_formed rhs \<and> (valid lhs \<longrightarrow> itr_value lhs \<notin> set (seq rhs)))"
| "well_formed (IteratorWithTag t b) = well_formed b"

abbreviation ascending :: "DocId list \<Rightarrow> bool" where
  "ascending xs \<equiv> sorted_wrt (<) xs"

lemma ascending_unique: "ascending xs \<Longrightarrow> ascending ys \<Longrightarrow> set xs = set ys \<Longrightarrow> xs = ys"
  by (simp add: strict_sorted_iff sorted_distinct_set_unique)

lemma ascending_filter: "ascending xs \<Longrightarrow> ascending (filter P xs)"
  by (rule sorted_wrt_filter)

lemma ascending_drop: "ascending xs \<Longrightarrow> ascending (drop n xs)"
  by (rule sorted_wrt_drop)

lemma ascending_tl: "ascending xs \<Longrightarrow> ascending (tl xs)"
  by (cases xs) auto

lemma ascending_dropWhile: "ascending xs \<Longrightarrow> ascending (dropWhile P xs)"
  by (subst dropWhile_eq_drop) (rule sorted_wrt_drop)

lemma set_dropWhile_ascending:
  "ascending xs \<Longrightarrow> set (dropWhile (\<lambda>x. x < t) xs) = {x \<in> set xs. t \<le> x}"
proof (induction xs)
  case Nil
  then show ?case by simp
next
  case (Cons a xs)
  then show ?case by (auto simp: not_less)
qed

lemma ascending_hd_le: "ascending xs \<Longrightarrow> x \<in> set xs \<Longrightarrow> hd xs \<le> x"
  by (cases xs) auto

lemma less_sentinel_iff: "t < kInvalidDocId \<longleftrightarrow> t \<noteq> kInvalidDocId"
  by (simp add: order.strict_iff_order)

lemma hd_ascending_eq:
  assumes "ascending xs" "m \<in> set xs" "\<And>x. x \<in> set xs \<Longrightarrow> m \<le> x"
  shows "hd xs = m"
proof -
  have "xs \<noteq> []" using assms(2) by auto
  then have "hd xs \<in> set xs" by simp
  then have "m \<le> hd xs" by (rule assms(3))
  moreover have "hd xs \<le> m" using assms(1,2) by (rule ascending_hd_le)
  ultimately show ?thesis by simp
qed

lemma ascending_hd_notin_tl: "ascending xs \<Longrightarrow> xs \<noteq> [] \<Longrightarrow> hd xs \<notin> set (tl xs)"
  by (cases xs) auto

lemma ascending_union_all: "ascending (union_all xss)"
  by (simp add: union_all_def strict_sorted_iff)

lemma set_union_all [simp]: "set (union_all xss) = \<Union> (set ` set xss)"
  by (simp add: union_all_def)

lemma set_inter_all: "xss \<noteq> [] \<Longrightarrow> set (inter_all xss) = \<Inter> (set ` set xss)"
  by (cases xss) (auto simp: inter_all_def)

lemma seq_props:
  "well_formed c \<Longrightarrow> ascending (seq c) \<and> kInvalidDocId \<notin> set (seq c)"
proof (induction c)
  case EmptyIterator
  then show ?case by simp
next
  case (VectorIterator ds p)
  then show ?case by (auto simp: posting_list_def sorted_wrt_drop dest: in_set_dropD)
next
  case (AndIterator cs h)
  then obtain c rest where cs: "cs = c # rest" by (cases cs) auto
  have "ascending (seq c) \<and> kInvalidDocId \<notin> set (seq c)"
    using AndIterator cs by simp
  then show ?case by (auto simp: cs inter_all_def sorted_wrt_filter)
next
  case (OrIterator cs h)
  then show ?case by (auto simp: ascending_union_all)
next
  case (DiffIterator l r)
  then show ?case by (auto simp: sorted_wrt_filter)
next
  case (IteratorWithTag t b)
  then show ?case by simp
qed

lemma valid_value: "well_formed c \<Longrightarrow> (valid c \<longleftrightarrow> seq c \<noteq> []) \<and> (valid c \<longrightarrow> itr_value c = hd (seq c))"
proof (induction c)
  case EmptyIterator
  then show ?case by simp
next
  case (VectorIterator ds p)
  then show ?case by (auto simp: hd_drop_conv_nth)
next
  case (AndIterator cs h)
  then obtain c rest where cs: "cs = c # rest" by (cases cs) auto
  have wf: "\<forall>c' \<in> set cs. well_formed c'" using AndIterator.prems by simp
  have ihc: "(valid c \<longleftrightarrow> seq c \<noteq> []) \<and> (valid c \<longrightarrow> itr_value c = hd (seq c))"
    using AndIterator cs by simp
  show ?case
  proof (cases "valid c")
    case False
    then show ?thesis using ihc by (simp add: cs inter_all_def)
  next
    case True
    define v where "v = itr_value c"
    have hdc: "seq c \<noteq> []" "hd (seq c) = v" using True ihc by (simp_all add: v_def)
    have vs: "v \<noteq> kInvalidDocId"
    proof -
      have "hd (seq c) \<in> set (seq c)" using hdc(1) by simp
      then show ?thesis using seq_props[of c] wf hdc(2) cs by auto
    qed
    have "v \<in> set (seq c')" if "c' \<in> set rest" for c'
    proof -
      have val: "itr_value c' = v" using AndIterator.prems True that by (auto simp: cs v_def)
      then have "valid c'" using vs itr_value_invalid[of c'] by auto
      moreover have "(valid c' \<longleftrightarrow> seq c' \<noteq> []) \<and> (valid c' \<longrightarrow> itr_value c' = hd (seq c'))"
        using AndIterator.IH[of c'] wf that cs by simp
      ultimately have "seq c' \<noteq> []" "hd (seq c') = v" using val by simp_all
      then show ?thesis using hd_in_set[of "seq c'"] by simp
    qed
    then have "seq (AndIterator cs h) = v # filter (\<lambda>x. \<forall>ys \<in> set (map seq rest). x \<in> set ys) (tl (seq c))"
      using hdc by (cases "seq c") (auto simp: cs inter_all_def)
    then show ?thesis using True by (simp add: cs v_def)
  qed
next
  case (OrIterator cs h)
  have wf: "\<forall>c' \<in> set cs. well_formed c'" and hp: "is_heap itr_value cs"
    using OrIterator.prems by simp_all
  have ih: "\<And>c'. c' \<in> set cs \<Longrightarrow> (valid c' \<longleftrightarrow> seq c' \<noteq> []) \<and> (valid c' \<longrightarrow> itr_value c' = hd (seq c'))"
    using OrIterator.IH wf by simp
  define s where "s = seq (OrIterator cs h)"
  have asc: "ascending s" unfolding s_def by (simp add: ascending_union_all)
  have sets: "set s = (\<Union>c\<in>set cs. set (seq c))" unfolding s_def by simp
  have root: "itr_value (cs ! 0) \<le> itr_value c'" if "c' \<in> set cs" for c'
  proof -
    from that obtain i where "i < length cs" "cs ! i = c'" by (auto simp: in_set_conv_nth)
    then show ?thesis using is_heap_root_min[OF hp, of i] by simp
  qed
  have lower: "itr_value (cs ! 0) \<le> x" if "x \<in> set s" for x
  proof -
    from that obtain c' where c': "c' \<in> set cs" "x \<in> set (seq c')" unfolding sets by auto
    then have "seq c' \<noteq> []" by auto
    then have "itr_value c' = hd (seq c')" using ih[OF c'(1)] by simp
    moreover have "hd (seq c') \<le> x" using seq_props[of c'] wf c' by (simp add: ascending_hd_le)
    ultimately show ?thesis using root[OF c'(1)] by simp
  qed
  show ?case
  proof (cases "cs \<noteq> [] \<and> valid (cs ! 0)")
    case True
    then have c0: "cs ! 0 \<in> set cs" by simp
    then have ne0: "seq (cs ! 0) \<noteq> []" and v0: "itr_value (cs ! 0) = hd (seq (cs ! 0))"
      using ih[of "cs ! 0"] True by simp_all
    have "hd (seq (cs ! 0)) \<in> set (seq (cs ! 0))" using ne0 by simp
    then have mem: "itr_value (cs ! 0) \<in> set s" unfolding sets using c0 v0 by auto
    then have "s \<noteq> []" by auto
    moreover have "hd s = itr_value (cs ! 0)"
      using asc mem lower by (rule hd_ascending_eq) 
    ultimately show ?thesis using True unfolding s_def by simp
  next
    case False
    have "s = []"
    proof (rule ccontr)
      assume "s \<noteq> []"
      then obtain x where "x \<in> set s" by (cases s) auto
      then obtain c' where c': "c' \<in> set cs" "x \<in> set (seq c')" unfolding sets by auto
      then have ne: "seq c' \<noteq> []" by auto
      then have v: "valid c'" and val: "itr_value c' = hd (seq c')" using ih[OF c'(1)] by simp_all
      have "hd (seq c') \<in> set (seq c')" using ne by simp
      then have "itr_value c' \<noteq> kInvalidDocId"
        using val seq_props[of c'] wf c'(1) by auto
      then have "itr_value c' < kInvalidDocId"
        by (simp add: less_sentinel_iff)
      then have "itr_value (cs ! 0) < kInvalidDocId"
        using root[OF c'(1)] by simp
      then have "valid (cs ! 0)" by (rule valid_if_value_less)
      then show False using False c'(1) by auto
    qed
    then show ?thesis using False unfolding s_def by auto
  qed
next
  case (DiffIterator l r)
  then show ?case by (cases "seq l") auto
next
  case (IteratorWithTag t b)
  then show ?case by simp
qed


lemma ascending_nth_mono: "ascending v \<Longrightarrow> i \<le> j \<Longrightarrow> j < length v \<Longrightarrow> v ! i \<le> v ! j"
  by (cases "i = j") (auto simp: sorted_wrt_iff_nth_less order.strict_iff_order)

lemma lower_bound_spec:
  "ascending v \<Longrightarrow> first + len \<le> length v \<Longrightarrow>
     (\<forall>i. first \<le> i \<and> i < lower_bound v first len t \<longrightarrow> v ! i < t) \<and>
     (\<forall>i. lower_bound v first len t \<le> i \<and> i < first + len \<longrightarrow> t \<le> v ! i)"
proof (induction v first len t rule: lower_bound.induct)
  case (1 v first len val)
  note asc = "1.prems"(1) and range = "1.prems"(2)
  show ?case
  proof (cases "len > 0")
    case False
    then show ?thesis by auto
  next
    case True
    define mid where "mid = first + len div 2"
    have half: "len div 2 < len" using True by simp
    have mid_lt: "mid < length v" using range half by (simp add: mid_def)
    show ?thesis
    proof (cases "v ! mid < val")
      case lt: True
      define r where "r = lower_bound v (mid + 1) (len - len div 2 - 1) val"
      have eq: "lower_bound v first len val = r"
        unfolding lower_bound_step[OF True] r_def mid_def using lt by (simp add: mid_def)
      have ih: "(\<forall>i. mid + 1 \<le> i \<and> i < r \<longrightarrow> v ! i < val) \<and>
          (\<forall>i. r \<le> i \<and> i < mid + 1 + (len - len div 2 - 1) \<longrightarrow> val \<le> v ! i)"
        unfolding r_def mid_def
        by (rule "1.IH"(1)[OF True refl refl _ asc]) (use lt range half in \<open>simp_all add: mid_def\<close>)
      have "v ! i < val" if "first \<le> i" "i < r" for i
      proof (cases "i \<le> mid")
        case True
        then have "v ! i \<le> v ! mid" using asc mid_lt by (intro ascending_nth_mono)
        then show ?thesis using lt by simp
      next
        case False
        then show ?thesis using ih that by simp
      qed
      moreover have "val \<le> v ! i" if "r \<le> i" "i < first + len" for i
        using ih that half by (simp add: mid_def)
      ultimately show ?thesis unfolding eq by blast
    next
      case ge: False
      define r where "r = lower_bound v first (len div 2) val"
      have eq: "lower_bound v first len val = r"
        unfolding lower_bound_step[OF True] r_def using ge by (simp add: mid_def)
      have ih: "(\<forall>i. first \<le> i \<and> i < r \<longrightarrow> v ! i < val) \<and>
          (\<forall>i. r \<le> i \<and> i < first + len div 2 \<longrightarrow> val \<le> v ! i)"
        unfolding r_def
        by (rule "1.IH"(2)[OF True refl refl _ asc]) (use ge range half in \<open>simp_all add: mid_def\<close>)
      have "val \<le> v ! i" if "r \<le> i" "i < first + len" for i
      proof (cases "i < mid")
        case True
        then show ?thesis using ih that by (simp add: mid_def)
      next
        case False
        then have "v ! mid \<le> v ! i" using asc that range by (intro ascending_nth_mono) simp_all
        then show ?thesis using ge by simp
      qed
      then show ?thesis unfolding eq using ih by blast
    qed
  qed
qed

lemma lower_bound_dropWhile:
  assumes "ascending ds" "p \<le> length ds"
  shows "drop (lower_bound ds p (length ds - p) t) ds = dropWhile (\<lambda>x. x < t) (drop p ds)"
proof -
  define r where "r = lower_bound ds p (length ds - p) t"
  have b: "p \<le> r" "r \<le> length ds"
    using lower_bound_bounds[of p ds "length ds - p" t] assms(2) by (simp_all add: r_def)
  have sp: "\<forall>i. p \<le> i \<and> i < r \<longrightarrow> ds ! i < t" "\<forall>i. r \<le> i \<and> i < length ds \<longrightarrow> t \<le> ds ! i"
    using lower_bound_spec[OF assms(1), of p "length ds - p" t] assms(2) by (simp_all add: r_def)
  have "takeWhile (\<lambda>x. x < t) (drop p ds) = take (r - p) (drop p ds)"
  proof (rule takeWhile_eq_take_P_nth)
    fix i assume "i < r - p" "i < length (drop p ds)"
    then show "drop p ds ! i < t" using sp(1) b by simp
  next
    assume "r - p < length (drop p ds)"
    then have "r < length ds" using b by simp
    then have "t \<le> ds ! r" using sp(2) by simp
    then show "\<not> drop p ds ! (r - p) < t" using b by simp
  qed
  then have "length (takeWhile (\<lambda>x. x < t) (drop p ds)) = r - p" using b by simp
  then have "dropWhile (\<lambda>x. x < t) (drop p ds) = drop (r - p) (drop p ds)"
    by (simp add: dropWhile_eq_drop)
  also have "\<dots> = drop r ds" using b by simp
  finally show ?thesis by (simp add: r_def)
qed

lemma heap_node_update_root:
  "heap_node f h i \<Longrightarrow> i \<noteq> 0 \<Longrightarrow> heap_node f (h[0 := x]) i"
  by (simp add: heap_node_def)

lemma adjustDown_root:
  fixes f :: "'a \<Rightarrow> 'k::linorder"
  assumes "\<forall>i. i \<noteq> 0 \<longrightarrow> heap_node f h i"
  shows "is_heap f (adjustDownMinHeap (\<lambda>a b. f b < f a) h 0)"
proof -
  have "\<forall>i. 0 \<le> i \<longrightarrow> heap_node f (adjustDownMinHeap (\<lambda>a b. f b < f a) h 0) i"
    by (rule adjustDown_heap) (use assms in auto)
  then show ?thesis by (simp add: is_heap_def)
qed

lemma pop_heap_spec:
  fixes f :: "'a \<Rightarrow> 'k::linorder"
  assumes "h \<noteq> []" "\<forall>i. i \<noteq> 0 \<longrightarrow> heap_node f h i"
  shows "\<exists>r. pop_heap (\<lambda>a b. f b < f a) h = r @ [h ! 0] \<and> mset r + {#h ! 0#} = mset h \<and> is_heap f r"
proof (cases "length h > 1")
  case False
  then have "h = [h ! 0]" using assms(1) by (cases h) auto
  then have "pop_heap (\<lambda>a b. f b < f a) h = [] @ [h ! 0]" "mset [] + {#h ! 0#} = mset h"
    using False by (simp_all add: pop_heap_def)
  moreover have "is_heap f ([] :: 'a list)" by (simp add: is_heap_def heap_node_def)
  ultimately show ?thesis by blast
next
  case True
  define xs where "xs = butlast h"
  define r where "r = adjust_heap (\<lambda>a b. f b < f a) xs 0 (length xs) (last h)"
  have xs: "0 < length xs" "length xs = length h - 1" using True by (simp_all add: xs_def)
  have ph: "pop_heap (\<lambda>a b. f b < f a) h = r @ [h ! 0]"
    using pop_heap_eq[OF True, of "\<lambda>a b. f b < f a"] by (simp add: r_def xs_def)
  have "mset (r @ [h ! 0]) = mset h"
    using mset_pop_heap[of "\<lambda>a b. f b < f a" h] unfolding ph .
  then have ms: "mset r + {#h ! 0#} = mset h" by simp
  have "\<forall>i. 0 < i \<longrightarrow> heap_node f xs i"
  proof (intro allI impI)
    fix i :: nat assume "0 < i"
    then have "heap_node f h i" using assms(2) by simp
    then show "heap_node f xs i"
      by (auto simp: heap_node_def xs_def nth_butlast)
  qed
  then have "\<forall>i. 0 \<le> i \<longrightarrow> heap_node f r i"
    unfolding r_def using xs by (intro adjust_heap_props(1)) auto
  then have "is_heap f r" by (simp add: is_heap_def)
  then show ?thesis using ph ms by blast
qed

lemma max_element_fold:
  "0 < k \<Longrightarrow> k \<le> length cs \<Longrightarrow>
   (let m = fold (\<lambda>first largest.
             if itr_value (cs ! largest) < itr_value (cs ! first) then first else largest)
          [1 ..< k] 0
    in m < k \<and> (\<forall>i < k. itr_value (cs ! i) \<le> itr_value (cs ! m)))"
proof (induction k)
  case 0
  then show ?case by simp
next
  case (Suc k)
  show ?case
  proof (cases "k = 0")
    case True
    then show ?thesis by simp
  next
    case False
    then have ih: "let m = fold (\<lambda>first largest.
             if itr_value (cs ! largest) < itr_value (cs ! first) then first else largest)
          [1 ..< k] 0
      in m < k \<and> (\<forall>i < k. itr_value (cs ! i) \<le> itr_value (cs ! m))"
      using Suc by simp
    have "[1 ..< Suc k] = [1 ..< k] @ [k]" using False by simp
    then show ?thesis using ih by (auto simp: Let_def less_Suc_eq)
  qed
qed

lemma max_element_spec:
  assumes "cs \<noteq> []"
  shows "max_element cs < length cs" "c \<in> set cs \<Longrightarrow> itr_value c \<le> itr_value (cs ! max_element cs)"
proof -
  have *: "max_element cs < length cs \<and> (\<forall>i < length cs. itr_value (cs ! i) \<le> itr_value (cs ! max_element cs))"
    using max_element_fold[of "length cs" cs] assms by (simp add: max_element_def Let_def)
  then show "max_element cs < length cs" by simp
  show "itr_value c \<le> itr_value (cs ! max_element cs)" if "c \<in> set cs"
    using * that by (auto simp: in_set_conv_nth)
qed

text \<open>
  The conditions before and after the private loops: \<open>and_pre\<close> and \<open>and_post\<close> for
  \<^verbatim>\<open>AndIterator::nextAgreement\<close> entered at \<open>pos\<close> (the first child holds the largest
  value, the children before \<open>pos\<close> agree with it), \<open>or_pre\<close> and \<open>or_post\<close> for the
  loop of \<^verbatim>\<open>OrIterator::next\<close>, \<open>diff_post\<close> for \<^verbatim>\<open>DiffIterator::nextAgreement\<close>.
\<close>

definition common :: "Iterator list \<Rightarrow> DocId set" where
  "common cs = (\<Inter>c\<in>set cs. set (seq c))"

definition united :: "Iterator list \<Rightarrow> DocId set" where
  "united cs = (\<Union>c\<in>set cs. set (seq c))"

definition and_pre :: "Iterator list \<Rightarrow> nat \<Rightarrow> bool" where
  "and_pre cs pos = (1 \<le> pos \<and> pos \<le> length cs \<and> (\<forall>c\<in>set cs. well_formed c) \<and>
     (\<forall>c\<in>set cs. itr_value c \<le> itr_value (cs ! 0)) \<and>
     (\<forall>j. 1 \<le> j \<and> j < pos \<longrightarrow> itr_value (cs ! j) = itr_value (cs ! 0)))"

definition and_post :: "Iterator list \<Rightarrow> nat \<Rightarrow> Iterator list \<times> bool \<Rightarrow> bool" where
  "and_post cs pos res = (case res of (r, b) \<Rightarrow>
     length r = length cs \<and> (\<forall>c\<in>set r. well_formed c) \<and> common r = common cs \<and>
     (valid (r ! 0) \<longrightarrow> (\<forall>c\<in>set r. itr_value (r ! 0) = itr_value c)) \<and>
     (valid (cs ! 0) \<or> pos < length cs \<longrightarrow> b = valid (r ! 0)))"

definition or_pre :: "Iterator list \<Rightarrow> DocId \<Rightarrow> bool" where
  "or_pre cs cur = ((\<forall>c\<in>set cs. well_formed c) \<and> is_heap itr_value cs \<and> cur < kInvalidDocId \<and>
     (\<forall>c\<in>set cs. cur \<le> itr_value c))"

definition or_post :: "Iterator list \<Rightarrow> DocId \<Rightarrow> Iterator list \<Rightarrow> bool" where
  "or_post cs cur r = ((\<forall>c\<in>set r. well_formed c) \<and> is_heap itr_value r \<and>
     united r = united cs - {cur})"

definition diff_post :: "Iterator \<Rightarrow> Iterator \<Rightarrow> (Iterator \<times> Iterator) \<times> bool \<Rightarrow> bool" where
  "diff_post l r res = (case res of ((l', r'), b) \<Rightarrow>
     well_formed l' \<and> well_formed r' \<and> (valid l' \<longrightarrow> itr_value l' \<notin> set (seq r')) \<and>
     filter (\<lambda>x. x \<notin> set (seq r')) (seq l') = filter (\<lambda>x. x \<notin> set (seq r)) (seq l) \<and>
     b = valid l')"

lemma valid_iff: "well_formed c \<Longrightarrow> valid c \<longleftrightarrow> seq c \<noteq> []"
  and value_hd: "well_formed c \<Longrightarrow> valid c \<Longrightarrow> itr_value c = hd (seq c)"
  using valid_value[of c] by simp_all

lemma seq_ascending: "well_formed c \<Longrightarrow> ascending (seq c)"
  and seq_no_sentinel: "well_formed c \<Longrightarrow> kInvalidDocId \<notin> set (seq c)"
  using seq_props[of c] by simp_all

lemma value_in_seq: "well_formed c \<Longrightarrow> valid c \<Longrightarrow> itr_value c \<in> set (seq c)"
  using valid_iff[of c] value_hd[of c] hd_in_set[of "seq c"] by simp

lemma valid_value_less: "well_formed c \<Longrightarrow> valid c \<Longrightarrow> itr_value c < kInvalidDocId"
  using value_in_seq[of c] seq_no_sentinel[of c] by (auto simp: less_sentinel_iff)

lemma value_le_seq: "well_formed c \<Longrightarrow> x \<in> set (seq c) \<Longrightarrow> itr_value c \<le> x"
proof -
  assume wf: "well_formed c" and x: "x \<in> set (seq c)"
  then have "valid c" using valid_iff[of c] by auto
  then show ?thesis using value_hd[OF wf] ascending_hd_le[OF seq_ascending[OF wf] x] by simp
qed

lemma seq_eq_value_tl: "well_formed c \<Longrightarrow> valid c \<Longrightarrow> seq c = itr_value c # tl (seq c)"
  using valid_iff[of c] value_hd[of c] by (cases "seq c") simp_all

lemma seq_next_Cons:
  assumes "well_formed c" "valid c" "seq c1 = tl (seq c)"
  shows "seq c = itr_value c # seq c1"
proof (cases "seq c")
  case Nil
  then show ?thesis using valid_iff[OF assms(1)] assms(2) by simp
next
  case (Cons x xs)
  then show ?thesis using value_hd[OF assms(1,2)] assms(3) by simp
qed

lemma value_after_skip:
  assumes "well_formed c" "well_formed c1" "seq c1 = dropWhile (\<lambda>x. x < t) (seq c)"
  shows "t \<le> itr_value c1" "itr_value c \<le> itr_value c1"
proof -
  show "t \<le> itr_value c1"
  proof (cases "valid c1")
    case False
    then show ?thesis by (simp add: itr_value_invalid)
  next
    case True
    then have ne: "dropWhile (\<lambda>x. x < t) (seq c) \<noteq> []" using valid_iff[OF assms(2)] assms(3) by simp
    have "\<not> hd (dropWhile (\<lambda>x. x < t) (seq c)) < t" using ne by (rule hd_dropWhile)
    then show ?thesis using value_hd[OF assms(2) True] assms(3) by simp
  qed
  show "itr_value c \<le> itr_value c1"
  proof (cases "valid c1")
    case False
    then show ?thesis by (simp add: itr_value_invalid)
  next
    case True
    have "itr_value c1 \<in> set (seq c1)" using assms(2) True by (rule value_in_seq)
    then have "itr_value c1 \<in> set (seq c)" unfolding assms(3) by (rule set_dropWhileD)
    then show ?thesis using assms(1) by (intro value_le_seq)
  qed
qed

lemma value_after_next:
  assumes "well_formed c" "valid c" "well_formed c1" "seq c1 = tl (seq c)"
  shows "itr_value c < itr_value c1"
proof (cases "valid c1")
  case False
  then show ?thesis using valid_value_less[OF assms(1,2)] by (simp add: itr_value_invalid)
next
  case True
  have s: "seq c = itr_value c # seq c1" using assms(1,2,4) by (rule seq_next_Cons)
  have "itr_value c1 \<in> set (seq c1)" using assms(3) True by (rule value_in_seq)
  moreover have "ascending (itr_value c # seq c1)" using seq_ascending[OF assms(1)] s by simp
  ultimately show ?thesis by auto
qed

lemma common_nth: "common cs = {x. \<forall>i < length cs. x \<in> set (seq (cs ! i))}"
proof -
  have "(\<forall>c\<in>set cs. x \<in> set (seq c)) \<longleftrightarrow> (\<forall>i < length cs. x \<in> set (seq (cs ! i)))" for x
    by (rule all_set_conv_all_nth)
  then show ?thesis unfolding common_def by blast
qed

lemma common_Cons: "common (c # cs) = set (seq c) \<inter> common cs"
  by (auto simp: common_def)

lemma united_Cons: "united (c # cs) = set (seq c) \<union> united cs"
  by (auto simp: united_def)

lemma common_mset: "mset cs = mset cs' \<Longrightarrow> common cs = common cs'"
  unfolding common_def by (metis set_mset_mset)

lemma united_mset: "mset cs = mset cs' \<Longrightarrow> united cs = united cs'"
  unfolding united_def by (metis set_mset_mset)

lemma set_seq_And: "cs \<noteq> [] \<Longrightarrow> set (seq (AndIterator cs h)) = common cs"
  by (simp add: set_inter_all common_def)

lemma set_seq_Or: "set (seq (OrIterator cs h)) = united cs"
  by (simp add: united_def)

lemma seq_And_Cons:
  "seq (AndIterator (c # rest) h) = filter (\<lambda>x. x \<in> common rest) (seq c)"
  by (simp add: inter_all_def common_def)

lemma seq_And_Nil [simp]: "seq (AndIterator [] h) = []"
  by (simp add: inter_all_def)

declare seq.simps(3,4) [simp del]

lemma set_tl_ascending: "ascending xs \<Longrightarrow> xs \<noteq> [] \<Longrightarrow> set (tl xs) = set xs - {hd xs}"
  by (cases xs) auto

section \<open>Correctness of the cursor operations\<close>

text \<open>
  On a well-formed cursor \<open>next\<close> drops the first of the remaining values, and
  \<open>skipTo\<close> those below the target; both leave a well-formed cursor and return its
  validity. The five statements of \<open>ops_correct\<close> are proved together, by induction
  over the calls of the operations.
\<close>

definition step_ok :: "DocId list \<Rightarrow> Iterator \<times> bool \<Rightarrow> bool" where
  "step_ok s res = (case res of (c', b) \<Rightarrow> well_formed c' \<and> seq c' = s \<and> b = valid c')"

lemma step_okD:
  assumes "step_ok s res"
  shows "well_formed (fst res)" "seq (fst res) = s" "snd res = valid (fst res)"
  using assms by (auto simp: step_ok_def split: prod.splits)

lemma and_pre_start:
  assumes "well_formed (AndIterator (c0 # rest) h)" "valid c0" "well_formed c1"
    "itr_value c0 \<le> itr_value c1"
  shows "and_pre (c1 # rest) 1"
proof -
  have "itr_value c \<le> itr_value c1" if "c \<in> set rest" for c
    using assms(1,2,4) that by auto
  then show ?thesis using assms(1,3) by (auto simp: and_pre_def)
qed

lemma and_finish_invalid:
  assumes "well_formed (AndIterator (c0 # rest) h)" "well_formed c1" "\<not> valid c1"
  shows "step_ok (filter (\<lambda>x. x \<in> common rest) (seq c1)) (AndIterator (c1 # rest) h, False)"
proof -
  have "seq c1 = []" using assms(2,3) valid_iff by simp
  then show ?thesis using assms by (simp add: step_ok_def seq_And_Cons)
qed

lemma and_finish_valid:
  assumes "well_formed c1" "valid c1" "and_post (c1 # rest) 1 (r, b)"
  shows "step_ok (filter (\<lambda>x. x \<in> common rest) (seq c1)) (AndIterator r h, b)"
proof -
  have len: "length r = Suc (length rest)" and wfr: "\<forall>c\<in>set r. well_formed c"
    and com: "common r = common (c1 # rest)"
    and al: "valid (r ! 0) \<longrightarrow> (\<forall>c\<in>set r. itr_value (r ! 0) = itr_value c)"
    and b: "b = valid (r ! 0)"
    using assms(2,3) by (simp_all add: and_post_def)
  have ne: "r \<noteq> []" using len by auto
  have wf: "well_formed (AndIterator r h)" using ne wfr al by simp
  have "seq (AndIterator r h) = filter (\<lambda>x. x \<in> common rest) (seq c1)"
  proof (rule ascending_unique)
    show "ascending (seq (AndIterator r h))" using wf by (rule seq_ascending)
    show "ascending (filter (\<lambda>x. x \<in> common rest) (seq c1))"
      using seq_ascending[OF assms(1)] by (rule ascending_filter)
    show "set (seq (AndIterator r h)) = set (filter (\<lambda>x. x \<in> common rest) (seq c1))"
      unfolding set_seq_And[OF ne] com common_Cons by auto
  qed
  then show ?thesis using wf b ne by (simp add: step_ok_def)
qed

lemma ops_correct:
  shows "well_formed c \<longrightarrow> valid c \<longrightarrow> step_ok (tl (seq c)) (itr_next c)"
    and "well_formed c' \<longrightarrow> step_ok (dropWhile (\<lambda>x. x < t) (seq c')) (skipTo c' t)"
    and "and_pre cs pos \<longrightarrow> and_post cs pos (and_nextAgreement cs pos)"
    and "or_pre cs' cur \<longrightarrow> or_post cs' cur (or_next_loop cs' cur)"
    and "well_formed l \<longrightarrow> well_formed r \<longrightarrow> diff_post l r (diff_nextAgreement l r)"
proof (induction c and c' t and cs pos and cs' cur and l r
    rule: itr_next_skipTo_and_nextAgreement_or_next_loop_diff_nextAgreement.induct)
  case 1
  then show ?case by simp
next
  case (2 sortedDocIds nextPos)
  then show ?case by (auto simp: step_ok_def drop_Suc tl_drop)
next
  case (3 children h)
  show ?case
  proof (intro impI)
    assume wf: "well_formed (AndIterator children h)" and v: "valid (AndIterator children h)"
    then obtain c0 rest where ch: "children = c0 # rest" by (cases children) auto
    have v0: "valid c0" and wf0: "well_formed c0" using wf v ch by simp_all
    obtain c1 ok where n: "itr_next c0 = (c1, ok)" by (cases "itr_next c0")
    have "step_ok (tl (seq c0)) (itr_next c0)" using 3(1) v wf0 v0 ch by simp
    then have c1: "well_formed c1" "seq c1 = tl (seq c0)" using n by (simp_all add: step_ok_def)
    have gt: "itr_value c0 < itr_value c1" using wf0 v0 c1 by (rule value_after_next)
    have s0: "seq c0 = itr_value c0 # seq c1" using wf0 v0 c1(2) by (rule seq_next_Cons)
    have "itr_value c0 \<in> common rest"
      unfolding common_def
    proof (intro INT_I)
      fix c assume c: "c \<in> set rest"
      then have val: "itr_value c = itr_value c0" and wfc: "well_formed c" using wf v0 ch by auto
      then have "itr_value c < kInvalidDocId" using valid_value_less[OF wf0 v0] by simp
      then have "valid c" by (rule valid_if_value_less)
      then show "itr_value c0 \<in> set (seq c)" using value_in_seq[OF wfc] val by simp
    qed
    then have tl_eq: "tl (seq (AndIterator children h)) = filter (\<lambda>x. x \<in> common rest) (seq c1)"
      unfolding ch seq_And_Cons by (simp add: s0)
    have upd: "children[0 := fst (itr_next (children ! 0))] = c1 # rest" using n by (simp add: ch)
    show "step_ok (tl (seq (AndIterator children h))) (itr_next (AndIterator children h))"
    proof (cases "valid c1")
      case False
      then have "itr_next (AndIterator children h) = (AndIterator (c1 # rest) h, False)"
        using v upd by (simp add: Let_def)
      then show ?thesis
        unfolding tl_eq using and_finish_invalid[OF wf[unfolded ch] c1(1) False] by simp
    next
      case True
      obtain r b where a: "and_nextAgreement (c1 # rest) 1 = (r, b)"
        by (cases "and_nextAgreement (c1 # rest) 1")
      have "and_pre (c1 # rest) 1"
        using wf[unfolded ch] v0 c1(1) order.strict_implies_order[OF gt] by (rule and_pre_start)
      moreover have "and_pre (c1 # rest) 1 \<longrightarrow> and_post (c1 # rest) 1 (and_nextAgreement (c1 # rest) 1)"
        using 3(2)[OF _ upd[symmetric]] v True by (simp add: upd)
      ultimately have "and_post (c1 # rest) 1 (r, b)" using a by simp
      then have "step_ok (filter (\<lambda>x. x \<in> common rest) (seq c1)) (AndIterator r h, b)"
        using c1(1) True by (intro and_finish_valid)
      moreover have "itr_next (AndIterator children h) = (AndIterator r h, b)"
        using v upd True a by (simp add: Let_def)
      ultimately show ?thesis unfolding tl_eq by simp
    qed
  qed
next
  case (4 children h)
  show ?case
  proof (intro impI)
    assume wf: "well_formed (OrIterator children h)" and v: "valid (OrIterator children h)"
    then have wfc: "\<forall>c\<in>set children. well_formed c" and hp: "is_heap itr_value children"
      and ne: "children \<noteq> []" and v0: "valid (children ! 0)" by simp_all
    define cur where "cur = itr_value (OrIterator children h)"
    have cur0: "cur = itr_value (children ! 0)" using ne by (simp add: cur_def)
    have "cur < kInvalidDocId" unfolding cur_def using wf v by (rule valid_value_less)
    moreover have "\<forall>c\<in>set children. cur \<le> itr_value c"
    proof
      fix c assume "c \<in> set children"
      then obtain i where "i < length children" "children ! i = c" by (auto simp: in_set_conv_nth)
      then show "cur \<le> itr_value c" using is_heap_root_min[OF hp, of i] cur0 by simp
    qed
    ultimately have "or_pre children cur" using wfc hp by (simp add: or_pre_def)
    moreover have "or_pre children cur \<longrightarrow> or_post children cur (or_next_loop children cur)"
      using 4[OF _ refl] v by (simp add: cur_def)
    ultimately have post: "or_post children cur (or_next_loop children cur)" by simp
    define r where "r = or_next_loop children cur"
    have res: "itr_next (OrIterator children h) = (OrIterator r h, valid (OrIterator r h))"
      using v by (simp add: Let_def r_def cur_def)
    have wfr: "well_formed (OrIterator r h)" using post by (simp add: or_post_def r_def)
    have hd: "hd (seq (OrIterator children h)) = cur" unfolding cur_def using value_hd[OF wf v] by simp
    have sne: "seq (OrIterator children h) \<noteq> []" using valid_iff[OF wf] v by simp
    have "seq (OrIterator r h) = tl (seq (OrIterator children h))"
    proof (rule ascending_unique)
      show "ascending (seq (OrIterator r h))" using wfr by (rule seq_ascending)
      show "ascending (tl (seq (OrIterator children h)))"
        using seq_ascending[OF wf] by (rule ascending_tl)
      have "set (tl (seq (OrIterator children h))) = set (seq (OrIterator children h)) - {cur}"
        using set_tl_ascending[OF seq_ascending[OF wf] sne] hd by simp
      then show "set (seq (OrIterator r h)) = set (tl (seq (OrIterator children h)))"
        using post unfolding set_seq_Or or_post_def r_def by simp
    qed
    then show "step_ok (tl (seq (OrIterator children h))) (itr_next (OrIterator children h))"
      unfolding res step_ok_def using wfr by simp
  qed
next
  case (5 lhs rhs)
  show ?case
  proof (intro impI)
    assume wf: "well_formed (DiffIterator lhs rhs)" and v: "valid (DiffIterator lhs rhs)"
    then have wl: "well_formed lhs" and wr: "well_formed rhs" and vl: "valid lhs"
      and al: "itr_value lhs \<notin> set (seq rhs)" by simp_all
    obtain l1 ok where n: "itr_next lhs = (l1, ok)" by (cases "itr_next lhs")
    have "step_ok (tl (seq lhs)) (itr_next lhs)" using 5(1) wl vl by simp
    then have l1: "well_formed l1" "seq l1 = tl (seq lhs)" "ok = valid l1"
      using n by (simp_all add: step_ok_def)
    have sl: "seq lhs = itr_value lhs # tl (seq lhs)" using wl vl by (rule seq_eq_value_tl)
    obtain xs where xs: "seq lhs = itr_value lhs # xs" using sl by blast
    have tl_eq: "tl (seq (DiffIterator lhs rhs)) = filter (\<lambda>x. x \<notin> set (seq rhs)) (seq l1)"
      unfolding l1(2) using al by (simp add: xs)
    show "step_ok (tl (seq (DiffIterator lhs rhs))) (itr_next (DiffIterator lhs rhs))"
    proof (cases ok)
      case False
      then have "itr_next (DiffIterator lhs rhs) = (DiffIterator l1 rhs, False)"
        using vl n by simp
      then show ?thesis
        unfolding tl_eq using False l1 wr by (simp add: step_ok_def)
    next
      case True
      obtain l2 r2 b where d: "diff_nextAgreement l1 rhs = ((l2, r2), b)"
        by (cases "diff_nextAgreement l1 rhs") auto
      have "diff_post l1 rhs (diff_nextAgreement l1 rhs)"
        using 5(2)[OF _ refl n[symmetric]] vl True l1(1) wr by simp
      then have post: "well_formed l2" "well_formed r2" "valid l2 \<longrightarrow> itr_value l2 \<notin> set (seq r2)"
        "filter (\<lambda>x. x \<notin> set (seq r2)) (seq l2) = filter (\<lambda>x. x \<notin> set (seq rhs)) (seq l1)"
        "b = valid l2"
        using d by (simp_all add: diff_post_def)
      have "itr_next (DiffIterator lhs rhs) = (DiffIterator l2 r2, b)"
        using vl n True d by simp
      then show ?thesis
        unfolding tl_eq using post by (simp add: step_ok_def)
    qed
  qed
next
  case (6 tag b)
  then show ?case by (auto simp: step_ok_def split: prod.splits)
next
  case (7 target)
  then show ?case by (simp add: step_ok_def)
next
  case (8 sortedDocIds nextPos target)
  show ?case
  proof (intro impI)
    assume wf: "well_formed (VectorIterator sortedDocIds nextPos)"
    define p where "p = lower_bound sortedDocIds nextPos (length sortedDocIds - nextPos) target"
    have b: "p \<le> length sortedDocIds"
      using lower_bound_bounds[of nextPos sortedDocIds "length sortedDocIds - nextPos" target] wf
      by (simp add: p_def)
    have "drop p sortedDocIds = dropWhile (\<lambda>x. x < target) (drop nextPos sortedDocIds)"
      unfolding p_def using wf by (intro lower_bound_dropWhile) (simp_all add: posting_list_def)
    then show "step_ok (dropWhile (\<lambda>x. x < target) (seq (VectorIterator sortedDocIds nextPos)))
        (skipTo (VectorIterator sortedDocIds nextPos) target)"
      using wf b by (simp add: step_ok_def Let_def p_def)
  qed
next
  case (9 children h target)
  show ?case
  proof (intro impI)
    assume wf: "well_formed (AndIterator children h)"
    show "step_ok (dropWhile (\<lambda>x. x < target) (seq (AndIterator children h)))
        (skipTo (AndIterator children h) target)"
    proof (cases "valid (AndIterator children h)")
      case False
      then have "skipTo (AndIterator children h) target = (AndIterator children h, False)" by auto
      moreover have "seq (AndIterator children h) = []" using False valid_iff[OF wf] by blast
      ultimately show ?thesis using wf False by (simp add: step_ok_def)
    next
      case v: True
      then obtain c0 rest where ch: "children = c0 # rest" by (cases children) auto
      have v0: "valid c0" and wf0: "well_formed c0" using wf v ch by simp_all
      obtain c1 ok where sk: "skipTo c0 target = (c1, ok)" by (cases "skipTo c0 target")
      have "step_ok (dropWhile (\<lambda>x. x < target) (seq c0)) (skipTo c0 target)"
        using 9(1) v wf0 ch by simp
      then have c1: "well_formed c1" "seq c1 = dropWhile (\<lambda>x. x < target) (seq c0)" "ok = valid c1"
        using sk by (simp_all add: step_ok_def)
      have ge: "itr_value c0 \<le> itr_value c1" using value_after_skip(2)[OF wf0 c1(1,2)] .
      have dw: "dropWhile (\<lambda>x. x < target) (seq (AndIterator children h)) =
          filter (\<lambda>x. x \<in> common rest) (seq c1)"
      proof (rule ascending_unique)
        show "ascending (dropWhile (\<lambda>x. x < target) (seq (AndIterator children h)))"
          using seq_ascending[OF wf] by (rule ascending_dropWhile)
        show "ascending (filter (\<lambda>x. x \<in> common rest) (seq c1))"
          using seq_ascending[OF c1(1)] by (rule ascending_filter)
        show "set (dropWhile (\<lambda>x. x < target) (seq (AndIterator children h))) =
            set (filter (\<lambda>x. x \<in> common rest) (seq c1))"
          unfolding c1(2)
          using set_dropWhile_ascending[OF seq_ascending[OF wf], of target]
            set_dropWhile_ascending[OF seq_ascending[OF wf0], of target]
          by (auto simp: ch seq_And_Cons)
      qed
      have upd: "children[0 := c1] = c1 # rest" by (simp add: ch)
      show ?thesis
      proof (cases ok)
        case False
        then have "skipTo (AndIterator children h) target = (AndIterator (c1 # rest) h, False)"
          using v sk upd by (simp add: ch)
        then show ?thesis
          unfolding dw using and_finish_invalid[OF wf[unfolded ch] c1(1)] False c1(3) by simp
      next
        case True
        obtain r b where a: "and_nextAgreement (c1 # rest) 1 = (r, b)"
          by (cases "and_nextAgreement (c1 # rest) 1")
        have "and_pre (c1 # rest) 1"
          using wf[unfolded ch] v0 c1(1) ge by (rule and_pre_start)
        moreover have "and_pre (c1 # rest) 1 \<longrightarrow> and_post (c1 # rest) 1 (and_nextAgreement (c1 # rest) 1)"
          using 9(2)[OF _ refl _ refl, of c1 ok] v True sk by (simp add: ch)
        ultimately have "and_post (c1 # rest) 1 (r, b)" using a by simp
        then have "step_ok (filter (\<lambda>x. x \<in> common rest) (seq c1)) (AndIterator r h, b)"
          using c1 True by (intro and_finish_valid) simp_all
        moreover have "skipTo (AndIterator children h) target = (AndIterator r h, b)"
          using v sk True a by (simp add: ch)
        ultimately show ?thesis unfolding dw by simp
      qed
    qed
  qed
next
  case (10 children h target)
  show ?case
  proof (intro impI)
    assume wf: "well_formed (OrIterator children h)"
    then have wfc: "\<forall>c\<in>set children. well_formed c" by simp
    define f where "f = (\<lambda>c. fst (skipTo c target))"
    define cs1 where "cs1 = map f children"
    define cs3 where "cs3 = filter valid cs1"
    define cs4 where "cs4 = make_heap minHeapCmp cs3"
    have ih: "well_formed (f c) \<and> seq (f c) = dropWhile (\<lambda>x. x < target) (seq c)"
      if "c \<in> set children" for c
      using 10[OF that] wfc that step_okD(1,2)[of "dropWhile (\<lambda>x. x < target) (seq c)" "skipTo c target"]
      by (simp add: f_def)
    obtain cs2 n where oc: "or_compact cs1 0 0 = (cs2, n)" by (cases "or_compact cs1 0 0")
    have "take n cs2 = cs3" using or_compact_filter[of cs1] oc by (simp add: cs3_def)
    then have res: "skipTo (OrIterator children h) target = (OrIterator cs4 h, valid (OrIterator cs4 h))"
      using oc by (simp add: Let_def cs4_def cs1_def[unfolded f_def, symmetric])
    have set4: "set cs4 = set cs3" unfolding cs4_def by (metis mset_make_heap set_mset_mset)
    have wf4: "well_formed (OrIterator cs4 h)"
    proof -
      have "\<forall>c\<in>set cs4. well_formed c" unfolding set4 cs3_def cs1_def using ih by auto
      moreover have "is_heap itr_value cs4"
        unfolding cs4_def minHeapCmp_key by (rule make_heap_is_heap)
      ultimately show ?thesis by simp
    qed
    have un: "united cs4 = {x \<in> united children. target \<le> x}"
    proof -
      have "united cs4 = united cs3" unfolding united_def set4 ..
      also have "\<dots> = united cs1"
      proof -
        have "set (seq c) = {}" if "c \<in> set cs1" "\<not> valid c" for c
        proof -
          have "well_formed c" using that(1) ih unfolding cs1_def by auto
          then show ?thesis using that(2) valid_iff by simp
        qed
        then show ?thesis unfolding united_def cs3_def by fastforce
      qed
      also have "\<dots> = (\<Union>c\<in>set children. set (dropWhile (\<lambda>x. x < target) (seq c)))"
        unfolding united_def cs1_def using ih by simp
      also have "\<dots> = (\<Union>c\<in>set children. {x \<in> set (seq c). target \<le> x})"
        using wfc by (simp add: set_dropWhile_ascending seq_ascending)
      also have "\<dots> = {x \<in> united children. target \<le> x}" unfolding united_def by auto
      finally show ?thesis .
    qed
    have "seq (OrIterator cs4 h) = dropWhile (\<lambda>x. x < target) (seq (OrIterator children h))"
    proof (rule ascending_unique)
      show "ascending (seq (OrIterator cs4 h))" using wf4 by (rule seq_ascending)
      show "ascending (dropWhile (\<lambda>x. x < target) (seq (OrIterator children h)))"
        using seq_ascending[OF wf] by (rule ascending_dropWhile)
      show "set (seq (OrIterator cs4 h)) = set (dropWhile (\<lambda>x. x < target) (seq (OrIterator children h)))"
        unfolding set_dropWhile_ascending[OF seq_ascending[OF wf]] set_seq_Or un ..
    qed
    then show "step_ok (dropWhile (\<lambda>x. x < target) (seq (OrIterator children h)))
        (skipTo (OrIterator children h) target)"
      unfolding res step_ok_def using wf4 by simp
  qed
next
  case (11 lhs rhs target)
  show ?case
  proof (intro impI)
    assume wf: "well_formed (DiffIterator lhs rhs)"
    then have wl: "well_formed lhs" and wr: "well_formed rhs" by simp_all
    obtain l1 ok where sk: "skipTo lhs target = (l1, ok)" by (cases "skipTo lhs target")
    have "step_ok (dropWhile (\<lambda>x. x < target) (seq lhs)) (skipTo lhs target)" using 11(1) wl by simp
    then have l1: "well_formed l1" "seq l1 = dropWhile (\<lambda>x. x < target) (seq lhs)" "ok = valid l1"
      using sk by (simp_all add: step_ok_def)
    have dw: "dropWhile (\<lambda>x. x < target) (seq (DiffIterator lhs rhs)) =
        filter (\<lambda>x. x \<notin> set (seq rhs)) (seq l1)"
    proof (rule ascending_unique)
      show "ascending (dropWhile (\<lambda>x. x < target) (seq (DiffIterator lhs rhs)))"
        using seq_ascending[OF wf] by (rule ascending_dropWhile)
      show "ascending (filter (\<lambda>x. x \<notin> set (seq rhs)) (seq l1))"
        using seq_ascending[OF l1(1)] by (rule ascending_filter)
      show "set (dropWhile (\<lambda>x. x < target) (seq (DiffIterator lhs rhs))) =
          set (filter (\<lambda>x. x \<notin> set (seq rhs)) (seq l1))"
        unfolding l1(2)
        using set_dropWhile_ascending[OF seq_ascending[OF wf], of target]
          set_dropWhile_ascending[OF seq_ascending[OF wl], of target] by auto
    qed
    show "step_ok (dropWhile (\<lambda>x. x < target) (seq (DiffIterator lhs rhs)))
        (skipTo (DiffIterator lhs rhs) target)"
    proof (cases ok)
      case False
      then have "skipTo (DiffIterator lhs rhs) target = (DiffIterator l1 rhs, False)"
        using sk by simp
      then show ?thesis
        unfolding dw using False l1 wr by (simp add: step_ok_def)
    next
      case True
      obtain l2 r2 b where d: "diff_nextAgreement l1 rhs = ((l2, r2), b)"
        by (cases "diff_nextAgreement l1 rhs") auto
      have "diff_post l1 rhs (diff_nextAgreement l1 rhs)"
        using 11(2)[OF sk[symmetric] refl] True l1(1) wr by simp
      then have post: "well_formed l2" "well_formed r2" "valid l2 \<longrightarrow> itr_value l2 \<notin> set (seq r2)"
        "filter (\<lambda>x. x \<notin> set (seq r2)) (seq l2) = filter (\<lambda>x. x \<notin> set (seq rhs)) (seq l1)"
        "b = valid l2"
        using d by (simp_all add: diff_post_def)
      have "skipTo (DiffIterator lhs rhs) target = (DiffIterator l2 r2, b)"
        using sk True d by simp
      then show ?thesis
        unfolding dw using post by (simp add: step_ok_def)
    qed
  qed
next
  case (12 tag b target)
  then show ?case by (auto simp: step_ok_def split: prod.splits)
next
  case (13 children pos)
  show ?case
  proof (intro impI)
    assume pre: "and_pre children pos"
    then have pos1: "1 \<le> pos" and pos_le: "pos \<le> length children"
      and wf: "\<forall>c\<in>set children. well_formed c"
      and mx: "\<forall>c\<in>set children. itr_value c \<le> itr_value (children ! 0)"
      and ag: "\<forall>j. 1 \<le> j \<and> j < pos \<longrightarrow> itr_value (children ! j) = itr_value (children ! 0)"
      by (simp_all add: and_pre_def)
    show "and_post children pos (and_nextAgreement children pos)"
    proof (cases "pos < length children \<and> valid (children ! 0)")
      case False
      then have eq: "and_nextAgreement children pos = (children, pos = length children)"
        by (subst and_nextAgreement.simps) auto
      have "\<forall>c\<in>set children. itr_value (children ! 0) = itr_value c" if "valid (children ! 0)"
      proof
        fix c assume "c \<in> set children"
        then obtain j where j: "j < length children" "children ! j = c" by (auto simp: in_set_conv_nth)
        have "pos = length children" using that False pos_le by simp
        then show "itr_value (children ! 0) = itr_value c"
          using ag j by (cases "j = 0") auto
      qed
      then show ?thesis unfolding eq and_post_def using wf False pos_le by auto
    next
      case True
      then have pos_lt: "pos < length children" and v0: "valid (children ! 0)" by simp_all
      have ne: "children \<noteq> []" using pos_lt by auto
      have wf0: "well_formed (children ! 0)" using wf ne by simp
      define cand where "cand = itr_value (children ! 0)"
      have pos0: "pos \<noteq> 0" using pos1 by simp
      show ?thesis
      proof (cases "itr_value (children ! pos) < cand")
        case False
        then have eq: "and_nextAgreement children pos = and_nextAgreement children (pos + 1)"
          using True by (subst and_nextAgreement.simps) (simp add: cand_def)
        have "itr_value (children ! pos) = cand"
          using False mx pos_lt unfolding cand_def by (metis nth_mem order_le_imp_less_or_eq)
        then have "\<forall>j. 1 \<le> j \<and> j < pos + 1 \<longrightarrow> itr_value (children ! j) = itr_value (children ! 0)"
          using ag by (auto simp: cand_def less_Suc_eq)
        then have "and_pre children (pos + 1)"
          using pos_lt wf mx by (simp add: and_pre_def)
        moreover have "and_pre children (pos + 1) \<longrightarrow> and_post children (pos + 1) (and_nextAgreement children (pos + 1))"
          using 13(4)[OF True refl] False by (simp add: cand_def)
        ultimately have "and_post children (pos + 1) (and_nextAgreement children (pos + 1))" by simp
        then show ?thesis unfolding eq and_post_def using v0 by (auto split: prod.splits)
      next
        case lt: True
        define c1 where "c1 = fst (skipTo (children ! pos) cand)"
        define cs where "cs = children[pos := c1]"
        have wfp: "well_formed (children ! pos)" using wf pos_lt by simp
        have "step_ok (dropWhile (\<lambda>x. x < cand) (seq (children ! pos))) (skipTo (children ! pos) cand)"
          using 13(1)[OF True refl] lt wfp by (simp add: cand_def)
        then have c1: "well_formed c1" "seq c1 = dropWhile (\<lambda>x. x < cand) (seq (children ! pos))"
          unfolding c1_def by (rule step_okD)+
        have ge: "cand \<le> itr_value c1" using value_after_skip(1)[OF wfp c1] .
        have len: "length cs = length children" by (simp add: cs_def)
        have cs_pos: "cs ! pos = c1" using pos_lt by (simp add: cs_def)
        have cs_0: "cs ! 0 = children ! 0" using pos0 by (simp add: cs_def)
        have cs_j: "\<And>j. j \<noteq> pos \<Longrightarrow> cs ! j = children ! j" by (simp add: cs_def)
        have wf_cs: "\<forall>c\<in>set cs. well_formed c"
          using wf c1(1) unfolding cs_def by (metis insert_iff set_update_subset_insert subsetD)
        have com: "common cs = common children"
        proof -
          have in0: "cand \<le> x" if "x \<in> set (seq (children ! 0))" for x
            unfolding cand_def using wf0 that by (rule value_le_seq)
          have setc1: "set (seq c1) = {x \<in> set (seq (children ! pos)). cand \<le> x}"
            unfolding c1(2) using seq_ascending[OF wfp] by (rule set_dropWhile_ascending)
          show ?thesis
          proof (intro set_eqI iffI)
            fix x assume x: "x \<in> common cs"
            show "x \<in> common children"
              unfolding common_nth
            proof (intro CollectI allI impI)
              fix i assume i: "i < length children"
              have "x \<in> set (seq (cs ! i))" using x i len unfolding common_nth by simp
              then show "x \<in> set (seq (children ! i))"
                using cs_j[of i] cs_pos setc1 by (cases "i = pos") auto
            qed
          next
            fix x assume x: "x \<in> common children"
            then have x0: "x \<in> set (seq (children ! 0))" using ne unfolding common_nth by simp
            show "x \<in> common cs"
              unfolding common_nth
            proof (intro CollectI allI impI)
              fix i assume i: "i < length cs"
              have "x \<in> set (seq (children ! i))" using x i len unfolding common_nth by simp
              then show "x \<in> set (seq (cs ! i))"
                using cs_j[of i] cs_pos setc1 in0[OF x0] by (cases "i = pos") auto
            qed
          qed
        qed
        have mx_cs: "c = c1 \<or> itr_value c \<le> cand" if "c \<in> set cs" for c
        proof -
          from that obtain j where j: "j < length cs" "cs ! j = c" by (auto simp: in_set_conv_nth)
          show ?thesis
          proof (cases "j = pos")
            case True
            then show ?thesis using j cs_pos by simp
          next
            case False
            then have "c = children ! j" using j cs_j by simp
            then have "itr_value c \<le> cand" using mx j len by (simp add: cand_def)
            then show ?thesis by simp
          qed
        qed
        show ?thesis
        proof (cases "cand < itr_value c1")
          case sw: True
          define cs' where "cs' = swap_at cs pos 0"
          have eq: "and_nextAgreement children pos = and_nextAgreement cs' 1"
            using True lt sw cs_pos
            by (subst and_nextAgreement.simps) (simp add: cand_def Let_def cs_def c1_def cs'_def)
          have ms: "mset cs' = mset cs" unfolding cs'_def using pos_lt len by (intro mset_swap_at) auto
          then have set': "set cs' = set cs" by (metis set_mset_mset)
          have len': "length cs' = length children" by (simp add: cs'_def len)
          have "0 < length cs" using ne len by simp
          then have cs'_0: "cs' ! 0 = c1" using cs_pos by (simp add: cs'_def swap_at_def)
          have "\<forall>c\<in>set cs'. itr_value c \<le> itr_value (cs' ! 0)"
            unfolding set' cs'_0
          proof
            fix c assume "c \<in> set cs"
            then have "c = c1 \<or> itr_value c \<le> cand" by (rule mx_cs)
            then show "itr_value c \<le> itr_value c1" using sw by auto
          qed
          then have "and_pre cs' 1"
            using wf_cs pos_lt len' by (simp add: and_pre_def set' )
          moreover have "and_pre cs' 1 \<longrightarrow> and_post cs' 1 (and_nextAgreement cs' 1)"
            using 13(2)[OF True refl _ refl] lt sw cs_pos by (simp add: cand_def cs_def c1_def cs'_def)
          ultimately have post: "and_post cs' 1 (and_nextAgreement cs' 1)" by simp
          have "common cs' = common children" using common_mset[OF ms] com by simp
          moreover have "1 < length cs'" using pos1 pos_lt len' by simp
          ultimately show ?thesis
            using post unfolding eq and_post_def by (auto simp: len' split: prod.splits)
        next
          case nsw: False
          then have c1v: "itr_value c1 = cand" using ge by simp
          have eq: "and_nextAgreement children pos = and_nextAgreement cs (pos + 1)"
            using True lt nsw cs_pos
            by (subst and_nextAgreement.simps) (simp add: cand_def Let_def cs_def c1_def)
          have "\<forall>c\<in>set cs. itr_value c \<le> itr_value (cs ! 0)"
          proof
            fix c assume "c \<in> set cs"
            then have "c = c1 \<or> itr_value c \<le> cand" by (rule mx_cs)
            then show "itr_value c \<le> itr_value (cs ! 0)" using c1v cs_0 by (auto simp: cand_def)
          qed
          moreover have "\<forall>j. 1 \<le> j \<and> j < pos + 1 \<longrightarrow> itr_value (cs ! j) = itr_value (cs ! 0)"
          proof (intro allI impI)
            fix j assume j: "1 \<le> j \<and> j < pos + 1"
            show "itr_value (cs ! j) = itr_value (cs ! 0)"
            proof (cases "j = pos")
              case True
              then show ?thesis using cs_pos c1v cs_0 by (simp add: cand_def)
            next
              case False
              then show ?thesis using j ag cs_j[of j] cs_0 by simp
            qed
          qed
          ultimately have "and_pre cs (pos + 1)"
            using wf_cs pos_lt len by (simp add: and_pre_def)
          moreover have "and_pre cs (pos + 1) \<longrightarrow> and_post cs (pos + 1) (and_nextAgreement cs (pos + 1))"
            using 13(3)[OF True refl _ refl] lt nsw cs_pos by (simp add: cand_def cs_def c1_def)
          ultimately have post: "and_post cs (pos + 1) (and_nextAgreement cs (pos + 1))" by simp
          then show ?thesis
            unfolding eq and_post_def using com len cs_0 v0 by (auto split: prod.splits)
        qed
      qed
    qed
  qed
next
  case (14 children current)
  show ?case
  proof (intro impI)
    assume pre: "or_pre children current"
    then have wf: "\<forall>c\<in>set children. well_formed c" and hp: "is_heap itr_value children"
      and cur: "current < kInvalidDocId" and ge: "\<forall>c\<in>set children. current \<le> itr_value c"
      by (simp_all add: or_pre_def)
    show "or_post children current (or_next_loop children current)"
    proof (cases "children \<noteq> [] \<and> itr_value (children ! 0) = current")
      case False
      then have eq: "or_next_loop children current = children"
        by (subst or_next_loop.simps) auto
      have "current \<notin> united children"
      proof
        assume "current \<in> united children"
        then obtain c where c: "c \<in> set children" "current \<in> set (seq c)" by (auto simp: united_def)
        then have ne: "children \<noteq> []" by auto
        have "itr_value c \<le> current" using wf c by (intro value_le_seq) auto
        then have "itr_value c = current" using ge c(1) by auto
        moreover obtain i where "i < length children" "children ! i = c"
          using c(1) by (auto simp: in_set_conv_nth)
        then have "itr_value (children ! 0) \<le> itr_value c"
          using is_heap_root_min[OF hp, of i] by simp
        moreover have "current \<le> itr_value (children ! 0)" using ge ne by simp
        ultimately show False using False ne by auto
      qed
      then show ?thesis unfolding eq or_post_def using wf hp by simp
    next
      case True
      then obtain c0 rest where ch: "children = c0 # rest" by (cases children) auto
      have v0: "itr_value c0 = current" using True ch by simp
      then have "itr_value c0 < kInvalidDocId" using cur by simp
      then have val0: "valid c0" by (rule valid_if_value_less)
      have wf0: "well_formed c0" using wf ch by simp
      define c1 where "c1 = fst (itr_next c0)"
      have "step_ok (tl (seq c0)) (itr_next c0)" using 14(1)[OF True] wf0 val0 ch by simp
      then have c1: "well_formed c1" "seq c1 = tl (seq c0)"
        unfolding c1_def by (rule step_okD)+
      define cs where "cs = c1 # rest"
      have cs_eq: "children[0 := fst (itr_next (children ! 0))] = cs"
        by (simp add: ch cs_def c1_def)
      have s0: "seq c0 = current # seq c1"
        using seq_next_Cons[OF wf0 val0 c1(2)] v0 by simp
      have gt: "current < itr_value c1"
        using value_after_next[OF wf0 val0 c1] v0 by simp
      have wf_cs: "\<forall>c\<in>set cs. well_formed c" using wf c1(1) by (simp add: cs_def ch)
      have ge_cs: "\<forall>c\<in>set cs. current \<le> itr_value c" using ge gt by (auto simp: cs_def ch)
      have un_cs: "united cs - {current} = united children - {current}"
        by (auto simp: cs_def ch united_Cons s0)
      have nodes: "\<forall>i. i \<noteq> 0 \<longrightarrow> heap_node itr_value cs i"
      proof (intro allI impI)
        fix i :: nat assume "i \<noteq> 0"
        moreover have "heap_node itr_value children i" using hp by (simp add: is_heap_def)
        ultimately have "heap_node itr_value (children[0 := c1]) i" by (rule heap_node_update_root[rotated])
        then show "heap_node itr_value cs i" by (simp add: ch cs_def)
      qed
      show ?thesis
      proof (cases "valid c1")
        case v1: True
        define r1 where "r1 = adjustDownMinHeap minHeapCmp cs 0"
        have eq: "or_next_loop children current = or_next_loop r1 current"
          using True v1 by (subst or_next_loop.simps) (simp add: cs_eq Let_def r1_def, simp add: cs_def)
        have ms: "mset r1 = mset cs" unfolding r1_def by (rule mset_adjustDownMinHeap)
        then have set_r1: "set r1 = set cs" by (metis set_mset_mset)
        have "is_heap itr_value r1"
          unfolding r1_def minHeapCmp_key using nodes by (rule adjustDown_root)
        then have "or_pre r1 current"
          using wf_cs ge_cs cur by (simp add: or_pre_def set_r1)
        moreover have "or_pre r1 current \<longrightarrow> or_post r1 current (or_next_loop r1 current)"
          using 14(2)[OF True cs_eq[symmetric]] v1 by (simp add: cs_eq r1_def) (simp add: cs_def)
        ultimately have "or_post r1 current (or_next_loop r1 current)" by simp
        moreover have "united r1 = united cs" using ms by (rule united_mset)
        ultimately show ?thesis unfolding eq or_post_def using un_cs by simp
      next
        case nv1: False
        obtain r1 where ph: "pop_heap minHeapCmp cs = r1 @ [cs ! 0]"
          and ms: "mset r1 + {#cs ! 0#} = mset cs" and hp1: "is_heap itr_value r1"
          using pop_heap_spec[of cs itr_value] nodes unfolding minHeapCmp_key by (auto simp: cs_def)
        have bl: "butlast (pop_heap minHeapCmp cs) = r1" unfolding ph by simp
        have eq: "or_next_loop children current = or_next_loop r1 current"
          using True nv1 by (subst or_next_loop.simps) (simp add: cs_eq Let_def bl, simp add: cs_def)
        have "set_mset (mset r1 + {#cs ! 0#}) = set_mset (mset cs)" using ms by simp
        then have set_r1: "set cs = insert c1 (set r1)" by (auto simp: cs_def)
        have "seq c1 = []" using nv1 valid_iff[OF c1(1)] by simp
        then have un1: "united r1 = united cs" unfolding united_def set_r1 by simp
        have "or_pre r1 current"
          using wf_cs ge_cs cur hp1 by (simp add: or_pre_def set_r1)
        moreover have "or_pre r1 current \<longrightarrow> or_post r1 current (or_next_loop r1 current)"
          using 14(3)[OF True cs_eq[symmetric]] nv1 by (simp add: cs_eq bl) (simp add: cs_def)
        ultimately have "or_post r1 current (or_next_loop r1 current)" by simp
        then show ?thesis unfolding eq or_post_def using un_cs un1 by simp
      qed
    qed
  qed
next
  case (15 lhs rhs)
  show ?case
  proof (intro impI)
    assume wl: "well_formed lhs" and wr: "well_formed rhs"
    show "diff_post lhs rhs (diff_nextAgreement lhs rhs)"
    proof (cases "valid lhs")
      case False
      then have "diff_nextAgreement lhs rhs = ((lhs, rhs), False)"
        by (subst diff_nextAgreement.simps) simp
      then show ?thesis using wl wr False by (simp add: diff_post_def)
    next
      case True
      define v where "v = itr_value lhs"
      obtain r1 ok where sk: "skipTo rhs v = (r1, ok)" by (cases "skipTo rhs v")
      have "step_ok (dropWhile (\<lambda>x. x < v) (seq rhs)) (skipTo rhs v)"
        using 15(1)[OF True] wr by (simp add: v_def)
      then have r1: "well_formed r1" "seq r1 = dropWhile (\<lambda>x. x < v) (seq rhs)" "ok = valid r1"
        using sk by (simp_all add: step_ok_def)
      have sl: "seq lhs = v # tl (seq lhs)" unfolding v_def using wl True by (rule seq_eq_value_tl)
      have set_r1: "set (seq r1) = {x \<in> set (seq rhs). v \<le> x}"
        unfolding r1(2) using seq_ascending[OF wr] by (rule set_dropWhile_ascending)
      have flt: "filter (\<lambda>x. x \<notin> set (seq r1)) (seq lhs) = filter (\<lambda>x. x \<notin> set (seq rhs)) (seq lhs)"
      proof (rule filter_cong[OF refl])
        fix x assume "x \<in> set (seq lhs)"
        then have "v \<le> x" unfolding v_def using wl by (intro value_le_seq)
        then show "(x \<notin> set (seq r1)) = (x \<notin> set (seq rhs))" using set_r1 by simp
      qed
      have ge: "v \<le> itr_value r1" using value_after_skip(1)[OF wr r1(1,2)] .
      show ?thesis
      proof (cases "\<not> ok \<or> v < itr_value r1")
        case stop: True
        then have eq: "diff_nextAgreement lhs rhs = ((lhs, r1), True)"
          using True sk by (subst diff_nextAgreement.simps) (auto simp: v_def)
        have "v \<notin> set (seq r1)"
        proof
          assume "v \<in> set (seq r1)"
          then have "itr_value r1 \<le> v" using r1(1) by (intro value_le_seq)
          moreover have "valid r1" using \<open>v \<in> set (seq r1)\<close> valid_iff[OF r1(1)] by auto
          ultimately show False using stop r1(3) by auto
        qed
        then show ?thesis
          unfolding eq diff_post_def using wl r1(1) True flt by (simp add: v_def)
      next
        case go: False
        then have ok: "ok" and rv: "itr_value r1 = v" using ge by auto
        define l1 where "l1 = fst (itr_next lhs)"
        have eq: "diff_nextAgreement lhs rhs = diff_nextAgreement l1 r1"
          using True sk go by (subst diff_nextAgreement.simps) (auto simp: v_def l1_def)
        have go': "\<not> (\<not> ok \<or> itr_value lhs < itr_value r1)" using go by (simp add: v_def)
        have "step_ok (tl (seq lhs)) (itr_next lhs)"
          using 15(2)[OF True refl sk[unfolded v_def, symmetric] go'] wl True by simp
        then have l1: "well_formed l1" "seq l1 = tl (seq lhs)"
          unfolding l1_def by (rule step_okD)+
        have post: "diff_post l1 r1 (diff_nextAgreement l1 r1)"
          using 15(3)[OF True refl sk[unfolded v_def, symmetric] go'] l1(1) r1(1) by (simp add: l1_def)
        have "v \<in> set (seq r1)"
          using value_in_seq[OF r1(1)] ok r1(3) rv by simp
        moreover obtain xs where xs: "seq lhs = v # xs" using sl by blast
        ultimately have "filter (\<lambda>x. x \<notin> set (seq r1)) (seq l1) = filter (\<lambda>x. x \<notin> set (seq r1)) (seq lhs)"
          unfolding l1(2) by (simp add: xs)
        then show ?thesis
          using post flt unfolding eq diff_post_def by (auto split: prod.splits)
      qed
    qed
  qed
qed

section \<open>Cursors that client code can reach\<close>

text \<open>
  The claims about the operators speak of cursors a client can actually hold: leaves over
  posting lists (strictly ascending, without the sentinel), the operators built over such
  cursors by their constructors, tag decoration, and whatever \<open>next\<close> and \<open>skipTo\<close>
  leave behind. \<open>built\<close> collects exactly these. \<open>next\<close> is only called on a live
  cursor, as \<open>iterateWith\<close> and every operator of the program do.
\<close>

inductive built :: "Iterator \<Rightarrow> bool" where
  built_empty: "built getEmptyIterator"
| built_leaf: "posting_list ds \<Longrightarrow> built (getVectorIterator ds)"
| built_and: "\<forall>c\<in>set children. built c \<Longrightarrow> AndIterator_new children = Inr a \<Longrightarrow> built a"
| built_or: "\<forall>c\<in>set children. built c \<Longrightarrow> OrIterator_new children = Inr a \<Longrightarrow> built a"
| built_diff: "built lhs \<Longrightarrow> built rhs \<Longrightarrow> built (DiffIterator_new lhs rhs)"
| built_tag: "built b \<Longrightarrow> built (IteratorWithTag tag b)"
| built_next: "built c \<Longrightarrow> valid c \<Longrightarrow> built (fst (itr_next c))"
| built_skipTo: "built c \<Longrightarrow> built (fst (skipTo c target))"

lemma next_correct:
  assumes "well_formed c" "valid c"
  shows "well_formed (fst (itr_next c))" "seq (fst (itr_next c)) = tl (seq c)"
    "snd (itr_next c) = valid (fst (itr_next c))"
  using ops_correct(1)[of c] assms step_okD[of "tl (seq c)" "itr_next c"] by simp_all

lemma skipTo_correct:
  assumes "well_formed c"
  shows "well_formed (fst (skipTo c t))" "seq (fst (skipTo c t)) = dropWhile (\<lambda>x. x < t) (seq c)"
    "snd (skipTo c t) = valid (fst (skipTo c t))"
  using ops_correct(2)[of c t] assms step_okD[of "dropWhile (\<lambda>x. x < t) (seq c)" "skipTo c t"] by simp_all

lemma iterateWith_seq: "well_formed c \<Longrightarrow> iterateWith c = seq c"
proof (induction c rule: iterateWith.induct)
  case (1 c)
  show ?case
  proof (cases "valid c")
    case False
    then show ?thesis using valid_iff[OF 1(2)] by (subst iterateWith.simps) simp
  next
    case True
    have "iterateWith (fst (itr_next c)) = seq (fst (itr_next c))"
      using 1(1)[OF True] next_correct(1)[OF 1(2) True] by simp
    then have "iterateWith c = itr_value c # seq (fst (itr_next c))"
      using True by (subst iterateWith.simps) simp
    then show ?thesis using seq_next_Cons[OF 1(2) True next_correct(2)[OF 1(2) True]] by simp
  qed
qed

lemma AndIterator_new_correct:
  assumes "children \<noteq> []" "\<forall>c\<in>set children. well_formed c"
  shows "\<exists>a. AndIterator_new children = Inr a \<and> well_formed a \<and> set (seq a) = common children"
proof -
  define m where "m = max_element children"
  define cs where "cs = swap_at children 0 m"
  obtain r b where a: "and_nextAgreement cs 1 = (r, b)" by (cases "and_nextAgreement cs 1")
  have m: "m < length children" "\<And>c. c \<in> set children \<Longrightarrow> itr_value c \<le> itr_value (children ! m)"
    unfolding m_def using max_element_spec[OF assms(1)] by simp_all
  have ms: "mset cs = mset children" unfolding cs_def using m(1) assms(1) by (intro mset_swap_at) auto
  then have set_cs: "set cs = set children" by (metis set_mset_mset)
  have len: "length cs = length children" by (simp add: cs_def)
  have cs0: "cs ! 0 = children ! m"
    using m(1) assms(1) by (cases "m = 0") (auto simp: cs_def swap_at_def)
  have "and_pre cs 1"
    using assms m(2) len by (auto simp: and_pre_def set_cs cs0 Suc_le_eq)
  then have post: "and_post cs 1 (r, b)" using ops_correct(3)[of cs 1] a by simp
  then have r: "length r = length cs" "\<forall>c\<in>set r. well_formed c" "common r = common cs"
    "valid (r ! 0) \<longrightarrow> (\<forall>c\<in>set r. itr_value (r ! 0) = itr_value c)"
    unfolding and_post_def by auto
  have ne: "r \<noteq> []" using r(1) len assms(1) by auto
  have "AndIterator_new children = Inr (AndIterator r (list_ex hasTag children))"
    using assms(1) a by (simp add: AndIterator_new_def Let_def m_def cs_def)
  moreover have "well_formed (AndIterator r (list_ex hasTag children))" using ne r by simp
  moreover have "set (seq (AndIterator r (list_ex hasTag children))) = common children"
    using set_seq_And[OF ne] r(3) common_mset[OF ms] by simp
  ultimately show ?thesis by blast
qed

lemma OrIterator_new_correct:
  assumes "children \<noteq> []" "\<forall>c\<in>set children. well_formed c"
  shows "\<exists>a. OrIterator_new children = Inr a \<and> well_formed a \<and> set (seq a) = united children
     \<and> (\<exists>cs h. a = OrIterator cs h)"
proof -
  define cs where "cs = make_heap minHeapCmp children"
  have ms: "mset cs = mset children" unfolding cs_def by (rule mset_make_heap)
  then have set_cs: "set cs = set children" by (metis set_mset_mset)
  have "is_heap itr_value cs" unfolding cs_def minHeapCmp_key by (rule make_heap_is_heap)
  then have "well_formed (OrIterator cs (list_ex hasTag children))" using assms(2) set_cs by simp
  moreover have "OrIterator_new children = Inr (OrIterator cs (list_ex hasTag children))"
    using assms(1) by (simp add: OrIterator_new_def cs_def)
  moreover have "set (seq (OrIterator cs (list_ex hasTag children))) = united children"
    using set_seq_Or united_mset[OF ms] by simp
  ultimately show ?thesis by blast
qed

lemma DiffIterator_new_correct:
  assumes "well_formed lhs" "well_formed rhs"
  shows "well_formed (DiffIterator_new lhs rhs)"
    "seq (DiffIterator_new lhs rhs) = filter (\<lambda>x. x \<notin> set (seq rhs)) (seq lhs)"
proof -
  obtain l r b where d: "diff_nextAgreement lhs rhs = ((l, r), b)"
    by (cases "diff_nextAgreement lhs rhs") auto
  have "diff_post lhs rhs ((l, r), b)" using ops_correct(5)[of lhs rhs] assms d by simp
  then show "well_formed (DiffIterator_new lhs rhs)"
    "seq (DiffIterator_new lhs rhs) = filter (\<lambda>x. x \<notin> set (seq rhs)) (seq lhs)"
    using d by (simp_all add: DiffIterator_new_def diff_post_def)
qed

lemma AndIterator_new_nonempty: "AndIterator_new children = Inr a \<Longrightarrow> children \<noteq> []"
  by (auto simp: AndIterator_new_def Let_def split: if_splits)

lemma OrIterator_new_nonempty: "OrIterator_new children = Inr a \<Longrightarrow> children \<noteq> []"
  by (auto simp: OrIterator_new_def Let_def split: if_splits)

lemma built_well_formed: "built c \<Longrightarrow> well_formed c"
proof (induction rule: built.induct)
  case built_empty
  then show ?case by (simp add: getEmptyIterator_def)
next
  case (built_leaf ds)
  then show ?case by (simp add: getVectorIterator_def)
next
  case (built_and children a)
  then show ?case
    using AndIterator_new_correct[of children] AndIterator_new_nonempty[of children a] by auto
next
  case (built_or children a)
  then show ?case
    using OrIterator_new_correct[of children] OrIterator_new_nonempty[of children a] by auto
next
  case (built_diff lhs rhs)
  then show ?case by (simp add: DiffIterator_new_correct)
next
  case (built_tag b tag)
  then show ?case by simp
next
  case (built_next c)
  then show ?case by (simp add: next_correct)
next
  case (built_skipTo c target)
  then show ?case by (simp add: skipTo_correct)
qed


lemma built_iterateWith: "built c \<Longrightarrow> iterateWith c = seq c"
  by (simp add: built_well_formed iterateWith_seq)

lemma or_next_shape:
  assumes "well_formed (OrIterator cs h)"
  shows "\<exists>cs'. fst (itr_next (OrIterator cs h)) = OrIterator cs' h \<and> well_formed (OrIterator cs' h)"
proof (cases "valid (OrIterator cs h)")
  case False
  then show ?thesis using assms by auto
next
  case True
  have "well_formed (fst (itr_next (OrIterator cs h)))" using assms True by (rule next_correct)
  moreover have "\<exists>cs'. fst (itr_next (OrIterator cs h)) = OrIterator cs' h"
    using True by (simp add: Let_def)
  ultimately show ?thesis by auto
qed

lemma or_next_iter:
  assumes "well_formed (OrIterator cs h)"
  shows "\<exists>cs'. ((\<lambda>c. fst (itr_next c)) ^^ n) (OrIterator cs h) = OrIterator cs' h \<and>
     well_formed (OrIterator cs' h)"
proof (induction n)
  case 0
  then show ?case using assms by simp
next
  case (Suc n)
  then obtain cs' where "((\<lambda>c. fst (itr_next c)) ^^ n) (OrIterator cs h) = OrIterator cs' h"
    "well_formed (OrIterator cs' h)" by blast
  then show ?case using or_next_shape[of cs' h] by auto
qed

lemma next_value_increases:
  assumes "well_formed c" "valid c"
  shows "\<not> valid (fst (itr_next c)) \<or> itr_value c < itr_value (fst (itr_next c))"
  using value_after_next[OF assms next_correct(1,2)[OF assms]] by simp

section \<open>The tag flag of the operators\<close>

text \<open>
  \<^verbatim>\<open>childrenHaveTags_\<close> is a \<^verbatim>\<open>const\<close> member, set once by the constructor from the
  children it is given. \<open>flags_ok\<close> says what the stored flag has to do with the children
  a cursor holds now: in an AND cursor, which never loses a child, the flag is set exactly
  when one of the children has a tag; in an OR cursor, whose exhausted children leave the
  heap, a child with a tag implies the flag. \<open>keeps c c'\<close> says that \<open>c'\<close> answers
  \<^verbatim>\<open>hasTag\<close> as \<open>c\<close> does and satisfies \<open>flags_ok\<close> if \<open>c\<close> does; \<open>keeps_all\<close> and
  \<open>keeps_some\<close> say the same of a vector of children that is rearranged, or rearranged
  and shortened.
\<close>

fun flags_ok :: "Iterator \<Rightarrow> bool" where
  "flags_ok EmptyIterator = True"
| "flags_ok (VectorIterator sortedDocIds nextPos) = True"
| "flags_ok (AndIterator children childrenHaveTags) =
     ((\<forall>c\<in>set children. flags_ok c) \<and> (childrenHaveTags \<longleftrightarrow> (\<exists>c\<in>set children. hasTag c)))"
| "flags_ok (OrIterator children childrenHaveTags) =
     ((\<forall>c\<in>set children. flags_ok c) \<and> ((\<exists>c\<in>set children. hasTag c) \<longrightarrow> childrenHaveTags))"
| "flags_ok (DiffIterator lhs rhs) = (flags_ok lhs \<and> flags_ok rhs)"
| "flags_ok (IteratorWithTag t b) = flags_ok b"

definition keeps :: "Iterator \<Rightarrow> Iterator \<Rightarrow> bool" where
  "keeps c c' = (hasTag c' = hasTag c \<and> (flags_ok c \<longrightarrow> flags_ok c'))"

definition keeps_some :: "Iterator list \<Rightarrow> Iterator list \<Rightarrow> bool" where
  "keeps_some cs r = (mset (map hasTag r) \<subseteq># mset (map hasTag cs) \<and>
     ((\<forall>c\<in>set cs. flags_ok c) \<longrightarrow> (\<forall>c\<in>set r. flags_ok c)))"

definition keeps_all :: "Iterator list \<Rightarrow> Iterator list \<Rightarrow> bool" where
  "keeps_all cs r = (mset (map hasTag r) = mset (map hasTag cs) \<and>
     ((\<forall>c\<in>set cs. flags_ok c) \<longrightarrow> (\<forall>c\<in>set r. flags_ok c)))"

lemma keeps_refl [simp]: "keeps c c"
  by (simp add: keeps_def)

lemma keeps_trans: "keeps a b \<Longrightarrow> keeps b c \<Longrightarrow> keeps a c"
  by (simp add: keeps_def)

lemma keeps_all_refl [simp]: "keeps_all cs cs"
  by (simp add: keeps_all_def)

lemma keeps_some_refl [simp]: "keeps_some cs cs"
  by (simp add: keeps_some_def)

lemma keeps_all_trans: "keeps_all a b \<Longrightarrow> keeps_all b c \<Longrightarrow> keeps_all a c"
  by (simp add: keeps_all_def)

lemma keeps_all_some: "keeps_all a b \<Longrightarrow> keeps_some a b"
  by (simp add: keeps_all_def keeps_some_def)

lemma keeps_some_trans: "keeps_some a b \<Longrightarrow> keeps_some b c \<Longrightarrow> keeps_some a c"
  unfolding keeps_some_def by (meson subset_mset.order_trans)

lemma keeps_all_mset: "mset r = mset cs \<Longrightarrow> keeps_all cs r"
  unfolding keeps_all_def by (metis mset_map set_mset_mset)

lemma keeps_some_sub: "mset r \<subseteq># mset cs \<Longrightarrow> keeps_some cs r"
  unfolding keeps_some_def
  by (metis image_mset_subseteq_mono mset_map set_mset_mono set_mset_mset subsetD)

lemma keeps_all_update: "keeps (cs ! i) c' \<Longrightarrow> keeps_all cs (cs[i := c'])"
proof (cases "i < length cs")
  case False
  then have "cs[i := c'] = cs" by (metis list_update_beyond not_le_imp_less)
  then show ?thesis by simp
next
  case True
  assume k: "keeps (cs ! i) c'"
  have "map hasTag (cs[i := c']) = map hasTag cs"
    using True k by (simp add: map_update keeps_def list_update_same_conv)
  moreover have "\<forall>c\<in>set (cs[i := c']). flags_ok c" if "\<forall>c\<in>set cs. flags_ok c"
  proof
    fix c assume "c \<in> set (cs[i := c'])"
    then have "c = c' \<or> c \<in> set cs" using set_update_subset_insert[of cs i c'] by auto
    then show "flags_ok c" using that k True by (auto simp: keeps_def)
  qed
  ultimately show ?thesis by (simp add: keeps_all_def)
qed

lemma keeps_all_map: "\<forall>c\<in>set cs. keeps c (g c) \<Longrightarrow> keeps_all cs (map g cs)"
  unfolding keeps_all_def keeps_def by (auto simp: comp_def cong: map_cong)

lemma keeps_And: "keeps_all cs r \<Longrightarrow> keeps (AndIterator cs h) (AndIterator r h)"
proof -
  assume k: "keeps_all cs r"
  then have "set (map hasTag r) = set (map hasTag cs)"
    unfolding keeps_all_def by (metis set_mset_mset)
  then have "(\<exists>c\<in>set r. hasTag c) = (\<exists>c\<in>set cs. hasTag c)" by (auto simp: image_iff)
  then show ?thesis using k by (auto simp: keeps_def keeps_all_def)
qed

lemma keeps_Or: "keeps_some cs r \<Longrightarrow> keeps (OrIterator cs h) (OrIterator r h)"
proof -
  assume k: "keeps_some cs r"
  then have "set (map hasTag r) \<subseteq> set (map hasTag cs)"
    unfolding keeps_some_def by (metis set_mset_mono set_mset_mset)
  then have "(\<exists>c\<in>set r. hasTag c) \<longrightarrow> (\<exists>c\<in>set cs. hasTag c)" by (auto simp: image_iff) 
  then show ?thesis using k by (auto simp: keeps_def keeps_some_def)
qed

lemma keeps_Diff: "keeps l l' \<Longrightarrow> keeps r r' \<Longrightarrow> keeps (DiffIterator l r) (DiffIterator l' r')"
  by (simp add: keeps_def)

lemma keeps_Tag: "keeps b b' \<Longrightarrow> keeps (IteratorWithTag t b) (IteratorWithTag t b')"
  by (simp add: keeps_def)

lemma mset_butlast_sub: "mset (butlast xs) \<subseteq># mset xs"
  by (metis append_butlast_last_id butlast.simps(1) mset_subset_eq_add_left mset_append subset_mset.order_refl)


text \<open>
  No operation changes what \<^verbatim>\<open>hasTag\<close> answers, and every operation keeps \<open>flags_ok\<close>.
\<close>

lemma flags_kept:
  "keeps c (fst (itr_next c))"
  "keeps c' (fst (skipTo c' t))"
  "keeps_all cs (fst (and_nextAgreement cs pos))"
  "keeps_some cs' (or_next_loop cs' cur)"
  "keeps l (fst (fst (diff_nextAgreement l r))) \<and> keeps r (snd (fst (diff_nextAgreement l r)))"
proof (induction c and c' t and cs pos and cs' cur and l r
    rule: itr_next_skipTo_and_nextAgreement_or_next_loop_diff_nextAgreement.induct)
  case 1
  show ?case by simp
next
  case (2 sortedDocIds nextPos)
  show ?case by (simp add: keeps_def)
next
  case (3 children h)
  show ?case
  proof (cases "valid (AndIterator children h)")
    case False
    then show ?thesis by simp
  next
    case True
    define c1 where "c1 = children[0 := fst (itr_next (children ! 0))]"
    have k1: "keeps_all children c1"
      unfolding c1_def using 3(1) True by (intro keeps_all_update) simp
    show ?thesis
    proof (cases "valid (c1 ! 0)")
      case False
      then have "fst (itr_next (AndIterator children h)) = AndIterator c1 h"
        using True by (simp add: Let_def c1_def)
      then show ?thesis using k1 by (simp add: keeps_And)
    next
      case v: True
      have "keeps_all c1 (fst (and_nextAgreement c1 1))"
        using 3(2)[of c1] True v by (simp add: c1_def)
      then have "keeps_all children (fst (and_nextAgreement c1 1))"
        using k1 keeps_all_trans by blast
      moreover have "fst (itr_next (AndIterator children h))
          = AndIterator (fst (and_nextAgreement c1 1)) h"
        using True v by (simp add: Let_def c1_def split: prod.splits)
      ultimately show ?thesis by (simp add: keeps_And)
    qed
  qed
next
  case (4 children h)
  show ?case
  proof (cases "valid (OrIterator children h)")
    case False
    then show ?thesis by simp
  next
    case True
    have "keeps_some children (or_next_loop children (itr_value (OrIterator children h)))"
      using 4[OF _ refl] True by simp
    moreover have "fst (itr_next (OrIterator children h))
        = OrIterator (or_next_loop children (itr_value (OrIterator children h))) h"
      using True by (simp add: Let_def)
    ultimately show ?thesis by (simp add: keeps_Or)
  qed
next
  case (5 lhs rhs)
  show ?case
  proof (cases "valid (DiffIterator lhs rhs)")
    case False
    then show ?thesis by simp
  next
    case True
    obtain l1 ok where n: "itr_next lhs = (l1, ok)" by (cases "itr_next lhs")
    have k1: "keeps lhs l1" using 5(1) True n by simp
    show ?thesis
    proof (cases ok)
      case False
      then have "fst (itr_next (DiffIterator lhs rhs)) = DiffIterator l1 rhs"
        using True n by simp
      then show ?thesis using k1 by (simp add: keeps_Diff)
    next
      case ok: True
      obtain l2 r2 b where d: "diff_nextAgreement l1 rhs = ((l2, r2), b)"
        by (cases "diff_nextAgreement l1 rhs") auto
      have "keeps l1 l2 \<and> keeps rhs r2"
        using 5(2)[OF _ n[symmetric]] True ok d by simp
      then have "keeps lhs l2" "keeps rhs r2" using k1 keeps_trans by blast+
      moreover have "fst (itr_next (DiffIterator lhs rhs)) = DiffIterator l2 r2"
        using True n ok d by simp
      ultimately show ?thesis by (simp add: keeps_Diff)
    qed
  qed
next
  case (6 tg b)
  then show ?case by (cases "itr_next b") (simp add: keeps_Tag)
next
  case (7 target)
  show ?case by simp
next
  case (8 sortedDocIds nextPos target)
  show ?case by (simp add: keeps_def Let_def)
next
  case (9 children h target)
  show ?case
  proof (cases "valid (AndIterator children h)")
    case False
    then show ?thesis by simp
  next
    case True
    obtain c0 ok where s: "skipTo (children ! 0) target = (c0, ok)"
      by (cases "skipTo (children ! 0) target")
    define c1 where "c1 = children[0 := c0]"
    have k1: "keeps_all children c1"
      unfolding c1_def using 9(1) True s by (intro keeps_all_update) simp
    show ?thesis
    proof (cases ok)
      case False
      then have "fst (skipTo (AndIterator children h) target) = AndIterator c1 h"
        using True s by (simp add: Let_def c1_def)
      then show ?thesis using k1 by (simp add: keeps_And)
    next
      case ok: True
      have "keeps_all c1 (fst (and_nextAgreement c1 1))"
        using 9(2)[OF _ s[symmetric] refl] True ok by (simp add: c1_def)
      then have "keeps_all children (fst (and_nextAgreement c1 1))"
        using k1 keeps_all_trans by blast
      moreover have "fst (skipTo (AndIterator children h) target)
          = AndIterator (fst (and_nextAgreement c1 1)) h"
        using True s ok by (simp add: Let_def c1_def split: prod.splits)
      ultimately show ?thesis by (simp add: keeps_And)
    qed
  qed
next
  case (10 children h target)
  define cs1 where "cs1 = map (\<lambda>c. fst (skipTo c target)) children"
  obtain cs2 n where oc: "or_compact cs1 0 0 = (cs2, n)" by (cases "or_compact cs1 0 0")
  have t: "take n cs2 = filter valid cs1" using or_compact_filter[of cs1] oc by simp
  have res: "fst (skipTo (OrIterator children h) target)
      = OrIterator (make_heap minHeapCmp (filter valid cs1)) h"
    using oc t by (simp add: Let_def cs1_def[symmetric])
  have "keeps_all children cs1"
    unfolding cs1_def using 10 by (intro keeps_all_map) simp
  moreover have "keeps_some cs1 (filter valid cs1)"
    by (rule keeps_some_sub) simp
  moreover have "keeps_all (filter valid cs1) (make_heap minHeapCmp (filter valid cs1))"
    by (rule keeps_all_mset) (rule mset_make_heap)
  ultimately have "keeps_some children (make_heap minHeapCmp (filter valid cs1))"
    using keeps_all_some keeps_some_trans by blast
  then show ?case unfolding res by (rule keeps_Or)
next
  case (11 lhs rhs target)
  obtain l1 ok where n: "skipTo lhs target = (l1, ok)" by (cases "skipTo lhs target")
  have k1: "keeps lhs l1" using 11(1) n by simp
  show ?case
  proof (cases ok)
    case False
    then have "fst (skipTo (DiffIterator lhs rhs) target) = DiffIterator l1 rhs"
      using n by simp
    then show ?thesis using k1 by (simp add: keeps_Diff)
  next
    case ok: True
    obtain l2 r2 b where d: "diff_nextAgreement l1 rhs = ((l2, r2), b)"
      by (cases "diff_nextAgreement l1 rhs") auto
    have "keeps l1 l2 \<and> keeps rhs r2"
      using 11(2)[OF n[symmetric]] ok d by simp
    then have "keeps lhs l2" "keeps rhs r2" using k1 keeps_trans by blast+
    moreover have "fst (skipTo (DiffIterator lhs rhs) target) = DiffIterator l2 r2"
      using n ok d by simp
    ultimately show ?thesis by (simp add: keeps_Diff)
  qed
next
  case (12 tg b target)
  then show ?case by (cases "skipTo b target") (simp add: keeps_Tag)
next
  case (13 children pos)
  show ?case
  proof (cases "pos < length children \<and> valid (children ! 0)")
    case False
    then show ?thesis by (subst and_nextAgreement.simps) auto
  next
    case True
    define cand where "cand = itr_value (children ! 0)"
    show ?thesis
    proof (cases "itr_value (children ! pos) < cand")
      case False
      then have "and_nextAgreement children pos = and_nextAgreement children (pos + 1)"
        using True by (subst and_nextAgreement.simps) (simp add: cand_def)
      then show ?thesis using 13(4)[OF True refl] False by (simp add: cand_def)
    next
      case lt: True
      define c1 where "c1 = children[pos := fst (skipTo (children ! pos) cand)]"
      have k1: "keeps_all children c1"
        unfolding c1_def using 13(1)[OF True refl] lt by (intro keeps_all_update) (simp add: cand_def)
      show ?thesis
      proof (cases "itr_value (c1 ! pos) > cand")
        case gt: True
        have "and_nextAgreement children pos = and_nextAgreement (swap_at c1 pos 0) 1"
          using True lt gt by (subst and_nextAgreement.simps) (simp add: cand_def c1_def Let_def)
        moreover have "keeps_all (swap_at c1 pos 0) (fst (and_nextAgreement (swap_at c1 pos 0) 1))"
          using 13(2)[OF True refl _ refl] lt gt by (simp add: cand_def c1_def)
        moreover have "keeps_all c1 (swap_at c1 pos 0)"
          using True by (intro keeps_all_mset mset_swap_at) (auto simp: c1_def)
        ultimately show ?thesis using k1 keeps_all_trans by metis
      next
        case ngt: False
        have "and_nextAgreement children pos = and_nextAgreement c1 (pos + 1)"
          using True lt ngt by (subst and_nextAgreement.simps) (simp add: cand_def c1_def Let_def)
        moreover have "keeps_all c1 (fst (and_nextAgreement c1 (pos + 1)))"
          using 13(3)[OF True refl _ refl] lt ngt by (simp add: cand_def c1_def)
        ultimately show ?thesis using k1 keeps_all_trans by metis
      qed
    qed
  qed
next
  case (14 children current)
  show ?case
  proof (cases "children \<noteq> [] \<and> itr_value (children ! 0) = current")
    case False
    then show ?thesis by (subst or_next_loop.simps) auto
  next
    case True
    define c1 where "c1 = children[0 := fst (itr_next (children ! 0))]"
    have k1: "keeps_all children c1"
      unfolding c1_def using 14(1)[OF True] by (intro keeps_all_update) simp
    show ?thesis
    proof (cases "valid (c1 ! 0)")
      case v: True
      have "or_next_loop children current = or_next_loop (adjustDownMinHeap minHeapCmp c1 0) current"
        using True v by (subst or_next_loop.simps) (simp add: c1_def Let_def)
      moreover have "keeps_some (adjustDownMinHeap minHeapCmp c1 0)
          (or_next_loop (adjustDownMinHeap minHeapCmp c1 0) current)"
        using 14(2)[OF True refl] v by (simp add: c1_def)
      moreover have "keeps_all c1 (adjustDownMinHeap minHeapCmp c1 0)"
        by (rule keeps_all_mset) (rule mset_adjustDownMinHeap)
      ultimately show ?thesis using k1 keeps_all_trans keeps_all_some keeps_some_trans by metis
    next
      case nv: False
      have "or_next_loop children current = or_next_loop (butlast (pop_heap minHeapCmp c1)) current"
        using True nv by (subst or_next_loop.simps) (simp add: c1_def Let_def)
      moreover have "keeps_some (butlast (pop_heap minHeapCmp c1))
          (or_next_loop (butlast (pop_heap minHeapCmp c1)) current)"
        using 14(3)[OF True refl] nv by (simp add: c1_def)
      moreover have "keeps_some c1 (butlast (pop_heap minHeapCmp c1))"
        using mset_butlast_sub[of "pop_heap minHeapCmp c1"]
        by (intro keeps_some_sub) (simp add: mset_pop_heap)
      ultimately show ?thesis using k1 keeps_all_some keeps_some_trans by metis
    qed
  qed
next
  case (15 lhs rhs)
  show ?case
  proof (cases "valid lhs")
    case False
    then show ?thesis by (subst (1 2) diff_nextAgreement.simps) simp
  next
    case True
    obtain r1 ok where s: "skipTo rhs (itr_value lhs) = (r1, ok)"
      by (cases "skipTo rhs (itr_value lhs)")
    have k1: "keeps rhs r1" using 15(1)[OF True] s by simp
    show ?thesis
    proof (cases "\<not> ok \<or> itr_value r1 > itr_value lhs")
      case stop: True
      have "diff_nextAgreement lhs rhs = ((lhs, r1), True)"
        using True s stop by (subst diff_nextAgreement.simps) auto
      then show ?thesis using k1 by simp
    next
      case go: False
      have "diff_nextAgreement lhs rhs = diff_nextAgreement (fst (itr_next lhs)) r1"
        using True s go by (subst diff_nextAgreement.simps) auto
      moreover have "keeps lhs (fst (itr_next lhs))"
        using 15(2)[OF True s[symmetric] refl] go by simp
      moreover have "keeps (fst (itr_next lhs)) (fst (fst (diff_nextAgreement (fst (itr_next lhs)) r1)))
          \<and> keeps r1 (snd (fst (diff_nextAgreement (fst (itr_next lhs)) r1)))"
        using 15(3)[OF True s[symmetric] refl] go by simp
      ultimately show ?thesis using k1 keeps_trans by metis
    qed
  qed
qed

lemma keeps_hasTag_next [simp]: "hasTag (fst (itr_next c)) = hasTag c"
  using flags_kept(1)[of c] by (simp add: keeps_def)

lemma keeps_hasTag_skipTo [simp]: "hasTag (fst (skipTo c t)) = hasTag c"
  using flags_kept(2)[of c t] by (simp add: keeps_def)

lemma flags_ok_next: "flags_ok c \<Longrightarrow> flags_ok (fst (itr_next c))"
  using flags_kept(1)[of c] by (simp add: keeps_def)

lemma flags_ok_skipTo: "flags_ok c \<Longrightarrow> flags_ok (fst (skipTo c t))"
  using flags_kept(2)[of c t] by (simp add: keeps_def)

lemma AndIterator_new_shape:
  assumes "AndIterator_new children = Inr a"
  shows "\<exists>cs. a = AndIterator cs (\<exists>c\<in>set children. hasTag c) \<and> keeps_all children cs"
proof -
  define cs where "cs = swap_at children 0 (max_element children)"
  have ne: "children \<noteq> []" using assms by (auto simp: AndIterator_new_def Let_def split: if_splits)
  have a: "a = AndIterator (fst (and_nextAgreement cs 1)) (\<exists>c\<in>set children. hasTag c)"
    using assms ne by (simp add: AndIterator_new_def Let_def cs_def list_ex_iff split: prod.splits)
  have "max_element children < length children" using max_element_spec[OF ne] by simp
  then have "keeps_all children cs"
    unfolding cs_def using ne by (intro keeps_all_mset mset_swap_at) auto
  then have "keeps_all children (fst (and_nextAgreement cs 1))"
    using flags_kept(3)[of cs 1] keeps_all_trans by blast
  then show ?thesis using a by blast
qed

lemma OrIterator_new_shape:
  assumes "OrIterator_new children = Inr a"
  shows "\<exists>cs. a = OrIterator cs (\<exists>c\<in>set children. hasTag c) \<and> keeps_all children cs"
proof -
  have ne: "children \<noteq> []" using assms by (auto simp: OrIterator_new_def Let_def split: if_splits)
  have "a = OrIterator (make_heap minHeapCmp children) (\<exists>c\<in>set children. hasTag c)"
    using assms ne by (simp add: OrIterator_new_def Let_def list_ex_iff)
  moreover have "keeps_all children (make_heap minHeapCmp children)"
    by (rule keeps_all_mset) (rule mset_make_heap)
  ultimately show ?thesis by blast
qed

lemma AndIterator_new_flags:
  assumes "AndIterator_new children = Inr a"
  shows "hasTag a = (\<exists>c\<in>set children. hasTag c)"
    and "\<forall>c\<in>set children. flags_ok c \<Longrightarrow> flags_ok a"
proof -
  obtain cs where a: "a = AndIterator cs (\<exists>c\<in>set children. hasTag c)" and k: "keeps_all children cs"
    using AndIterator_new_shape[OF assms] by blast
  show "hasTag a = (\<exists>c\<in>set children. hasTag c)" using a by simp
  assume "\<forall>c\<in>set children. flags_ok c"
  then have "flags_ok (AndIterator children (\<exists>c\<in>set children. hasTag c))" by simp
  then show "flags_ok a"
    using keeps_And[OF k, of "\<exists>c\<in>set children. hasTag c"] a
    by (simp only: keeps_def)
qed

lemma OrIterator_new_flags:
  assumes "OrIterator_new children = Inr a"
  shows "hasTag a = (\<exists>c\<in>set children. hasTag c)"
    and "\<forall>c\<in>set children. flags_ok c \<Longrightarrow> flags_ok a"
proof -
  obtain cs where a: "a = OrIterator cs (\<exists>c\<in>set children. hasTag c)" and k: "keeps_all children cs"
    using OrIterator_new_shape[OF assms] by blast
  show "hasTag a = (\<exists>c\<in>set children. hasTag c)" using a by simp
  assume "\<forall>c\<in>set children. flags_ok c"
  then have "flags_ok (OrIterator children (\<exists>c\<in>set children. hasTag c))" by simp
  then show "flags_ok a"
    using keeps_Or[OF keeps_all_some[OF k], of "\<exists>c\<in>set children. hasTag c"] a
    by (simp only: keeps_def)
qed

lemma DiffIterator_new_flags:
  "hasTag (DiffIterator_new lhs rhs) = hasTag lhs"
  "flags_ok lhs \<Longrightarrow> flags_ok rhs \<Longrightarrow> flags_ok (DiffIterator_new lhs rhs)"
  using flags_kept(5)[of lhs rhs]
  by (auto simp: DiffIterator_new_def keeps_def split: prod.splits)

lemma built_flags_ok: "built c \<Longrightarrow> flags_ok c"
proof (induction rule: built.induct)
  case built_empty
  then show ?case by (simp add: getEmptyIterator_def)
next
  case (built_leaf ds)
  then show ?case by (simp add: getVectorIterator_def)
next
  case (built_and children a)
  then show ?case using AndIterator_new_flags(2)[of children a] by simp
next
  case (built_or children a)
  then show ?case using OrIterator_new_flags(2)[of children a] by simp
next
  case (built_diff lhs rhs)
  then show ?case by (simp add: DiffIterator_new_flags)
next
  case (built_tag b tg)
  then show ?case by simp
next
  case (built_next c)
  then show ?case by (simp add: flags_ok_next)
next
  case (built_skipTo c target)
  then show ?case by (simp add: flags_ok_skipTo)
qed

text \<open>
  \<open>moved a c\<close>: the cursor \<open>a\<close> is in state \<open>c\<close> after some calls of \<^verbatim>\<open>next\<close> and
  \<^verbatim>\<open>skipTo\<close>, in any order and at any position.
\<close>

inductive moved :: "Iterator \<Rightarrow> Iterator \<Rightarrow> bool" for a where
  moved_refl: "moved a a"
| moved_next: "moved a c \<Longrightarrow> moved a (fst (itr_next c))"
| moved_skipTo: "moved a c \<Longrightarrow> moved a (fst (skipTo c target))"

lemma moved_hasTag: "moved a c \<Longrightarrow> hasTag c = hasTag a"
  by (induction rule: moved.induct) simp_all

lemma next_And_shape: "\<exists>cs'. fst (itr_next (AndIterator cs h)) = AndIterator cs' h"
  by (simp add: Let_def split: prod.splits)

lemma skipTo_And_shape: "\<exists>cs'. fst (skipTo (AndIterator cs h) t) = AndIterator cs' h"
  by (simp add: Let_def split: prod.splits)

lemma next_Or_shape: "\<exists>cs'. fst (itr_next (OrIterator cs h)) = OrIterator cs' h"
  by (simp add: Let_def split: prod.splits)

lemma skipTo_Or_shape: "\<exists>cs'. fst (skipTo (OrIterator cs h) t) = OrIterator cs' h"
  by (simp add: Let_def split: prod.splits)

lemma moved_And: "moved a c \<Longrightarrow> a = AndIterator cs h \<Longrightarrow> \<exists>cs'. c = AndIterator cs' h"
proof (induction rule: moved.induct)
  case moved_refl
  then show ?case by simp
next
  case (moved_next c)
  then show ?case using next_And_shape by metis
next
  case (moved_skipTo c target)
  then show ?case using skipTo_And_shape by metis
qed

lemma moved_Or: "moved a c \<Longrightarrow> a = OrIterator cs h \<Longrightarrow> \<exists>cs'. c = OrIterator cs' h"
proof (induction rule: moved.induct)
  case moved_refl
  then show ?case by simp
next
  case (moved_next c)
  then show ?case using next_Or_shape by metis
next
  case (moved_skipTo c target)
  then show ?case using skipTo_Or_shape by metis
qed

lemma next_Tag_shape: "fst (itr_next (IteratorWithTag t b)) = IteratorWithTag t (fst (itr_next b))"
  by (cases "itr_next b") simp

lemma skipTo_Tag_shape: "fst (skipTo (IteratorWithTag t b) x) = IteratorWithTag t (fst (skipTo b x))"
  by (cases "skipTo b x") simp

lemma moved_Tag: "moved a c \<Longrightarrow> a = IteratorWithTag t b \<Longrightarrow> \<exists>b'. c = IteratorWithTag t b' \<and> moved b b'"
proof (induction rule: moved.induct)
  case moved_refl
  then show ?case by (auto intro: moved.moved_refl)
next
  case (moved_next c)
  then obtain b' where "c = IteratorWithTag t b'" "moved b b'" by blast
  then show ?case using next_Tag_shape[of t b'] moved.moved_next[of b b'] by auto
next
  case (moved_skipTo c target)
  then obtain b' where "c = IteratorWithTag t b'" "moved b b'" by blast
  then show ?case using skipTo_Tag_shape[of t b' target] moved.moved_skipTo[of b b'] by auto
qed

lemma constructed_moved:
  assumes "AndIterator_new children = Inr a \<or> OrIterator_new children = Inr a" "moved a c"
  shows "(\<exists>cs h. c = AndIterator cs h \<or> c = OrIterator cs h)
     \<and> hasTag c = (\<exists>x\<in>set children. hasTag x)"
proof -
  have h: "hasTag a = (\<exists>x\<in>set children. hasTag x)"
    using assms(1) AndIterator_new_flags(1) OrIterator_new_flags(1) by blast
  have "\<exists>cs h. a = AndIterator cs h \<or> a = OrIterator cs h"
    using assms(1) AndIterator_new_shape OrIterator_new_shape by blast
  then have "\<exists>cs h. c = AndIterator cs h \<or> c = OrIterator cs h"
    using moved_And[OF assms(2)] moved_Or[OF assms(2)] by blast
  then show ?thesis using h moved_hasTag[OF assms(2)] by simp
qed

section \<open>Tags of well-formed cursors\<close>

text \<open>
  On a live well-formed cursor \<^verbatim>\<open>getTags\<close> ends normally in either build: the checks
  of \<^verbatim>\<open>AndIterator::getTags\<close>, \<^verbatim>\<open>OrIterator::getTags\<close> and \<^verbatim>\<open>DiffIterator::getTags\<close>
  hold, and \<^verbatim>\<open>OrIterator::getTags\<close> finds its heap non-empty.
\<close>

lemma wf_valid_iff_value: "well_formed c \<Longrightarrow> valid c \<longleftrightarrow> itr_value c \<noteq> kInvalidDocId"
  using valid_value_less[of c] itr_value_invalid[of c] by auto

lemma getTags_total_aux:
  "well_formed c \<longrightarrow> valid c \<longrightarrow> (\<exists>ts. getTags nd c = Inr ts)"
  "(\<forall>c\<in>set cs. well_formed c \<and> valid c) \<longrightarrow> (\<exists>ts. and_getTags nd' cs tags = Inr ts)"
  "(\<forall>c\<in>set cs'. well_formed c) \<longrightarrow> cur \<noteq> kInvalidDocId \<longrightarrow>
     (\<exists>ts. or_getTags nd'' cs' pos cur tags' = Inr ts)"
proof (induction nd c and nd' cs tags and nd'' cs' pos cur tags' rule: getTags_and_getTags_or_getTags.induct)
  case (3 ndebug children childrenHaveTags)
  show ?case
  proof (intro impI)
    assume wf: "well_formed (AndIterator children childrenHaveTags)"
      and v: "valid (AndIterator children childrenHaveTags)"
    have "\<forall>c\<in>set children. well_formed c \<and> valid c"
    proof
      fix c assume c: "c \<in> set children"
      then have w: "well_formed c" using wf by simp
      have "itr_value (children ! 0) = itr_value c" using wf v c by simp
      moreover have "well_formed (children ! 0)" using wf by simp
      ultimately show "well_formed c \<and> valid c"
        using v w wf_valid_iff_value[of c] wf_valid_iff_value[of "children ! 0"] by simp
    qed
    then show "\<exists>ts. getTags ndebug (AndIterator children childrenHaveTags) = Inr ts"
      using 3 v by simp
  qed
next
  case (4 ndebug children childrenHaveTags)
  show ?case
  proof (intro impI)
    assume wf: "well_formed (OrIterator children childrenHaveTags)"
      and v: "valid (OrIterator children childrenHaveTags)"
    then obtain c rest where cs: "children = c # rest" by (cases children) auto
    have "well_formed c" "valid c" using wf v cs by auto
    then have "itr_value c \<noteq> kInvalidDocId" using wf_valid_iff_value by simp
    then show "\<exists>ts. getTags ndebug (OrIterator children childrenHaveTags) = Inr ts"
      using 4 wf cs v by (auto simp del: or_getTags.simps)
  qed
next
  case (9 ndebug children heapPos currentValue tags)
  show ?case
  proof (intro impI)
    assume wf: "\<forall>c\<in>set children. well_formed c" and cur: "currentValue \<noteq> kInvalidDocId"
    show "\<exists>ts. or_getTags ndebug children heapPos currentValue tags = Inr ts"
    proof (cases "length children \<le> heapPos \<or> currentValue \<noteq> itr_value (children ! heapPos)")
      case True
      then show ?thesis by auto
    next
      case False
      then have w: "well_formed (children ! heapPos)" and "valid (children ! heapPos)"
        using wf cur wf_valid_iff_value[of "children ! heapPos"] by auto
      then obtain childTags where ct: "getTags ndebug (children ! heapPos) = Inr childTags"
        using 9(1)[OF False] by auto
      obtain tags1 where t1: "or_getTags ndebug children (heapPos * 2 + 1) currentValue (tags @ childTags) = Inr tags1"
        using 9(2)[OF False ct] wf cur by auto
      obtain tags2 where t2: "or_getTags ndebug children (heapPos * 2 + 2) currentValue tags1 = Inr tags2"
        using 9(3)[OF False ct t1] wf cur by auto
      show ?thesis using False ct t1 t2 by (subst or_getTags.simps) auto
    qed
  qed
qed (auto split: sum.splits)

lemma getTags_total: "well_formed c \<Longrightarrow> valid c \<Longrightarrow> \<exists>ts. getTags nd c = Inr ts"
  using getTags_total_aux(1) by blast

lemma getTags_untagged: "\<not> hasTag c \<Longrightarrow> valid c \<Longrightarrow> getTags nd c = Inr []"
  by (induction c) auto

lemma and_getTags_concat:
  "\<forall>i<length cs. getTags nd (cs ! i) = Inr (tss ! i) \<Longrightarrow> length tss = length cs \<Longrightarrow>
     and_getTags nd cs acc = Inr (acc @ concat tss)"
proof (induction cs arbitrary: acc tss)
  case Nil
  then show ?case by simp
next
  case (Cons c cs)
  then obtain ts rest where tss: "tss = ts # rest" by (cases tss) auto
  have c: "getTags nd c = Inr ts" using Cons.prems(1) tss by auto
  have "\<forall>i<length cs. getTags nd (cs ! i) = Inr (rest ! i)"
    using Cons.prems(1) tss by auto
  then have "and_getTags nd cs (acc @ ts) = Inr ((acc @ ts) @ concat rest)"
    using Cons.IH[of rest] Cons.prems(2) tss by simp
  then show ?case using c tss by simp
qed

lemma tagged_getTags:
  assumes "well_formed base" "valid base"
  shows "\<exists>ts. getTags nd base = Inr ts \<and> getTags nd (IteratorWithTag t base) = Inr (ts @ [t])"
proof -
  obtain ts where ts: "getTags nd base = Inr ts" using getTags_total[OF assms] by blast
  show ?thesis
  proof (cases "hasTag base")
    case True
    then show ?thesis using ts by simp
  next
    case False
    then show ?thesis using getTags_untagged[OF False assms(2)] by simp
  qed
qed

text \<open>
  \<open>tags_of nd c\<close> names the list that \<^verbatim>\<open>getTags\<close> returns on \<open>c\<close>; the lemmas below
  use it only together with the fact that \<^verbatim>\<open>getTags\<close> does return there.
\<close>

definition tags_of :: "bool \<Rightarrow> Iterator \<Rightarrow> string list" where
  "tags_of nd c = (case getTags nd c of Inl e \<Rightarrow> [] | Inr ts \<Rightarrow> ts)"

lemma and_children_tags:
  assumes "well_formed (AndIterator cs h)" "valid (AndIterator cs h)" "flags_ok (AndIterator cs h)"
  shows "(\<forall>c\<in>set cs. getTags nd c = Inr (tags_of nd c))
     \<and> getTags nd (AndIterator cs h) = Inr (concat (map (tags_of nd) cs))"
proof -
  have all: "\<forall>c\<in>set cs. well_formed c \<and> valid c"
  proof
    fix c assume c: "c \<in> set cs"
    then have w: "well_formed c" using assms(1) by simp
    have "itr_value (cs ! 0) = itr_value c" using assms(1,2) c by simp
    moreover have "well_formed (cs ! 0)" using assms(1) by simp
    ultimately show "well_formed c \<and> valid c"
      using assms(2) w wf_valid_iff_value[of c] wf_valid_iff_value[of "cs ! 0"] by simp
  qed
  have t: "\<forall>c\<in>set cs. getTags nd c = Inr (tags_of nd c)"
  proof
    fix c assume "c \<in> set cs"
    then obtain ts where "getTags nd c = Inr ts" using all getTags_total by blast
    then show "getTags nd c = Inr (tags_of nd c)" by (simp add: tags_of_def)
  qed
  have ag: "and_getTags nd cs [] = Inr ([] @ concat (map (tags_of nd) cs))"
    using t by (intro and_getTags_concat) simp_all
  show ?thesis
  proof (cases h)
    case True
    then show ?thesis using t ag assms(2) by simp
  next
    case False
    then have "\<forall>c\<in>set cs. \<not> hasTag c" using assms(3) by simp
    then have "\<forall>c\<in>set cs. getTags nd c = Inr []" using all getTags_untagged by blast
    then have "\<forall>c\<in>set cs. tags_of nd c = []" by (simp add: tags_of_def)
    then have "concat (map (tags_of nd) cs) = []" by simp
    then show ?thesis using t False assms(2) by simp
  qed
qed

text \<open>
  \<open>or_fired\<close> lists the heap positions that the private overload of
  \<^verbatim>\<open>OrIterator::getTags\<close> visits from \<open>heapPos\<close>, in the order of its visit. In a heap
  these are the positions of all the children that stand on the value of the root, each
  once.
\<close>

function or_fired :: "Iterator list \<Rightarrow> nat \<Rightarrow> DocId \<Rightarrow> nat list" where
  "or_fired children heapPos currentValue =
     (if heapPos \<ge> length children \<or> currentValue \<noteq> itr_value (children ! heapPos) then []
      else heapPos # or_fired children (heapPos * 2 + 1) currentValue
             @ or_fired children (heapPos * 2 + 2) currentValue)"
  by pat_completeness auto
termination
  by (relation "measure (\<lambda>(children, heapPos, currentValue). length children - heapPos)") auto

declare or_fired.simps [simp del]

lemma or_getTags_fired:
  assumes "\<forall>i\<in>set (or_fired cs pos cur). getTags nd (cs ! i) = Inr (tags_of nd (cs ! i))"
  shows "or_getTags nd cs pos cur acc
     = Inr (acc @ concat (map (\<lambda>i. tags_of nd (cs ! i)) (or_fired cs pos cur)))"
  using assms
proof (induction cs pos cur arbitrary: acc rule: or_fired.induct)
  case (1 children heapPos currentValue)
  show ?case
  proof (cases "heapPos \<ge> length children \<or> currentValue \<noteq> itr_value (children ! heapPos)")
    case True
    then show ?thesis
      by (subst or_getTags.simps, subst or_fired.simps) (auto simp del: or_getTags.simps)
  next
    case False
    have unf': "or_fired children heapPos currentValue
        = heapPos # or_fired children (heapPos * 2 + 1) currentValue
             @ or_fired children (heapPos * 2 + 2) currentValue"
      by (subst or_fired.simps) (simp only: False if_False)
    have unf: "or_getTags nd children heapPos currentValue acc =
        (case getTags nd (children ! heapPos) of Inl e \<Rightarrow> Inl e
         | Inr childTags \<Rightarrow>
             (case or_getTags nd children (heapPos * 2 + 1) currentValue (acc @ childTags) of
                Inl e \<Rightarrow> Inl e
              | Inr tags' \<Rightarrow> or_getTags nd children (heapPos * 2 + 2) currentValue tags'))"
      by (subst or_getTags.simps) (simp only: False if_False)
    have ct: "getTags nd (children ! heapPos) = Inr (tags_of nd (children ! heapPos))"
      using "1.prems" unfolding unf' by simp
    have t1: "or_getTags nd children (heapPos * 2 + 1) currentValue (acc @ tags_of nd (children ! heapPos))
        = Inr ((acc @ tags_of nd (children ! heapPos)) @
            concat (map (\<lambda>i. tags_of nd (children ! i)) (or_fired children (heapPos * 2 + 1) currentValue)))"
      using "1.prems" unfolding unf' by (intro "1.IH"(1)[OF False]) simp
    have t2: "or_getTags nd children (heapPos * 2 + 2) currentValue tgs
        = Inr (tgs @
            concat (map (\<lambda>i. tags_of nd (children ! i)) (or_fired children (heapPos * 2 + 2) currentValue)))"
      for tgs
      using "1.prems" unfolding unf' by (intro "1.IH"(2)[OF False]) simp
    show ?thesis
      by (simp only: unf ct sum.case t1 t2 unf' list.map concat.simps append_assoc map_append
          concat_append)
  qed
qed

lemma heap_below_trans: "heap_below b c \<Longrightarrow> heap_below a b \<Longrightarrow> heap_below a c"
proof (induction rule: heap_below.induct)
  case heap_below_refl
  then show ?case by simp
next
  case (heap_below_left h)
  then show ?case using heap_below.heap_below_left[of a h] by simp
next
  case (heap_below_right h)
  then show ?case using heap_below.heap_below_right[of a h] by simp
qed

lemma or_fired_sub:
  "i \<in> set (or_fired cs pos cur) \<Longrightarrow> heap_below pos i \<and> i < length cs \<and> itr_value (cs ! i) = cur"
proof (induction cs pos cur rule: or_fired.induct)
  case (1 children heapPos currentValue)
  show ?case
  proof (cases "heapPos \<ge> length children \<or> currentValue \<noteq> itr_value (children ! heapPos)")
    case True
    then show ?thesis using "1.prems" by (simp add: or_fired.simps[of children heapPos])
  next
    case False
    have unf: "or_fired children heapPos currentValue
        = heapPos # or_fired children (heapPos * 2 + 1) currentValue
             @ or_fired children (heapPos * 2 + 2) currentValue"
      using False by (subst or_fired.simps) simp
    then consider "i = heapPos" | "i \<in> set (or_fired children (heapPos * 2 + 1) currentValue)"
      | "i \<in> set (or_fired children (heapPos * 2 + 2) currentValue)"
      using "1.prems" by auto
    then show ?thesis
    proof cases
      case 1
      then show ?thesis using False by (auto intro: heap_below_refl)
    next
      case 2
      have "heap_below heapPos (heapPos * 2 + 1)"
        using heap_below_left[OF heap_below_refl, of heapPos] by (simp add: mult.commute)
      then show ?thesis using "1.IH"(1)[OF False 2] heap_below_trans by blast
    next
      case 3
      have "heap_below heapPos (heapPos * 2 + 2)"
        using heap_below_right[OF heap_below_refl, of heapPos] by (simp add: mult.commute)
      then show ?thesis using "1.IH"(2)[OF False 3] heap_below_trans by blast
    qed
  qed
qed


lemma heap_below_disjoint: "heap_below (2 * p + 1) i \<Longrightarrow> heap_below (2 * p + 2) i \<Longrightarrow> False"
proof (induction i rule: less_induct)
  case (less i)
  show ?case
  proof (cases "i = 2 * p + 1 \<or> i = 2 * p + 2")
    case True
    then show ?thesis
    proof
      assume "i = 2 * p + 1"
      then show False using heap_below_le[OF less.prems(2)] by simp
    next
      assume i: "i = 2 * p + 2"
      then have "heap_below (2 * p + 1) ((i - 1) div 2)"
        using heap_below_parent[OF less.prems(1)] by simp
      then show False using heap_below_le i by fastforce
    qed
  next
    case False
    then have a: "heap_below (2 * p + 1) ((i - 1) div 2)" "heap_below (2 * p + 2) ((i - 1) div 2)"
      using heap_below_parent[OF less.prems(1)] heap_below_parent[OF less.prems(2)] by simp_all
    have "0 < i" using heap_below_le[OF less.prems(1)] by simp
    then have "(i - 1) div 2 < i" by simp
    then show ?thesis using less.IH a by blast
  qed
qed

lemma or_fired_distinct: "distinct (or_fired cs pos cur)"
proof (induction cs pos cur rule: or_fired.induct)
  case (1 children heapPos currentValue)
  show ?case
  proof (cases "heapPos \<ge> length children \<or> currentValue \<noteq> itr_value (children ! heapPos)")
    case True
    then show ?thesis by (simp add: or_fired.simps[of children heapPos])
  next
    case False
    have unf: "or_fired children heapPos currentValue
        = heapPos # or_fired children (heapPos * 2 + 1) currentValue
             @ or_fired children (heapPos * 2 + 2) currentValue"
      using False by (subst or_fired.simps) simp
    have a: "heapPos \<notin> set (or_fired children (heapPos * 2 + 1) currentValue)"
      using or_fired_sub[of heapPos children "heapPos * 2 + 1" currentValue] heap_below_le by fastforce
    have b: "heapPos \<notin> set (or_fired children (heapPos * 2 + 2) currentValue)"
      using or_fired_sub[of heapPos children "heapPos * 2 + 2" currentValue] heap_below_le by fastforce
    have c: "set (or_fired children (heapPos * 2 + 1) currentValue)
        \<inter> set (or_fired children (heapPos * 2 + 2) currentValue) = {}"
    proof (rule ccontr)
      assume "\<not> ?thesis"
      then obtain i where "i \<in> set (or_fired children (heapPos * 2 + 1) currentValue)"
        "i \<in> set (or_fired children (heapPos * 2 + 2) currentValue)" by blast
      then have "heap_below (2 * heapPos + 1) i" "heap_below (2 * heapPos + 2) i"
        using or_fired_sub by (simp_all add: mult.commute)
      then show False using heap_below_disjoint by blast
    qed
    show ?thesis unfolding unf using a b c "1.IH"(1)[OF False] "1.IH"(2)[OF False] by simp
  qed
qed

lemma or_fired_children:
  "j \<in> set (or_fired cs pos cur) \<Longrightarrow>
     set (or_fired cs (j * 2 + 1) cur) \<union> set (or_fired cs (j * 2 + 2) cur) \<subseteq> set (or_fired cs pos cur)"
proof (induction cs pos cur rule: or_fired.induct)
  case (1 children heapPos currentValue)
  show ?case
  proof (cases "heapPos \<ge> length children \<or> currentValue \<noteq> itr_value (children ! heapPos)")
    case True
    then show ?thesis using "1.prems" by (simp add: or_fired.simps[of children heapPos])
  next
    case False
    have unf: "or_fired children heapPos currentValue
        = heapPos # or_fired children (heapPos * 2 + 1) currentValue
             @ or_fired children (heapPos * 2 + 2) currentValue"
      using False by (subst or_fired.simps) simp
    then consider "j = heapPos" | "j \<in> set (or_fired children (heapPos * 2 + 1) currentValue)"
      | "j \<in> set (or_fired children (heapPos * 2 + 2) currentValue)"
      using "1.prems" by auto
    then show ?thesis
    proof cases
      case 1
      then show ?thesis unfolding unf by auto
    next
      case 2
      then show ?thesis using "1.IH"(1)[OF False 2] unfolding unf by auto
    next
      case 3
      then show ?thesis using "1.IH"(2)[OF False 3] unfolding unf by auto
    qed
  qed
qed

lemma or_fired_complete:
  assumes "is_heap itr_value cs" "cs \<noteq> []"
  shows "i < length cs \<Longrightarrow> itr_value (cs ! i) = itr_value (cs ! 0) \<Longrightarrow>
           i \<in> set (or_fired cs 0 (itr_value (cs ! 0)))"
proof (induction i rule: less_induct)
  case (less i)
  show ?case
  proof (cases "i = 0")
    case True
    then show ?thesis using assms(2) by (subst or_fired.simps) simp
  next
    case False
    define j where "j = (i - 1) div 2"
    have ji: "j < i" "i = j * 2 + 1 \<or> i = j * 2 + 2" using False by (auto simp: j_def)
    have jl: "j < length cs" using ji less.prems by simp
    have "itr_value (cs ! j) \<le> itr_value (cs ! i)"
      using assms(1) ji(2) less.prems(1) by (auto simp: is_heap_def heap_node_def mult.commute)
    moreover have "itr_value (cs ! 0) \<le> itr_value (cs ! j)"
      using is_heap_root_min[OF assms(1), of j] jl by simp
    ultimately have "itr_value (cs ! j) = itr_value (cs ! 0)" using less.prems(2) by simp
    then have jf: "j \<in> set (or_fired cs 0 (itr_value (cs ! 0)))"
      using less.IH[OF ji(1) jl] by simp
    have "i \<in> set (or_fired cs i (itr_value (cs ! 0)))"
      using less.prems by (subst or_fired.simps) simp
    then show ?thesis using or_fired_children[OF jf] ji(2) by auto
  qed
qed

lemma or_children_tags:
  assumes "well_formed (OrIterator cs h)" "valid (OrIterator cs h)" "flags_ok (OrIterator cs h)"
  shows "(\<forall>i\<in>set (or_fired cs 0 (itr_value (OrIterator cs h))).
            getTags nd (cs ! i) = Inr (tags_of nd (cs ! i)))
     \<and> getTags nd (OrIterator cs h)
         = Inr (concat (map (\<lambda>i. tags_of nd (cs ! i)) (or_fired cs 0 (itr_value (OrIterator cs h)))))
     \<and> distinct (or_fired cs 0 (itr_value (OrIterator cs h)))
     \<and> set (or_fired cs 0 (itr_value (OrIterator cs h)))
         = {i. i < length cs \<and> itr_value (cs ! i) = itr_value (OrIterator cs h)}"
proof -
  have ne: "cs \<noteq> []" and v0: "valid (cs ! 0)" using assms(2) by auto
  define v where "v = itr_value (cs ! 0)"
  have val: "itr_value (OrIterator cs h) = v" using ne by (simp add: v_def)
  have hd: "itr_value (hd cs) = v" using ne by (simp add: v_def hd_conv_nth)
  have "well_formed (cs ! 0)" using assms(1) ne by simp
  then have vs: "v \<noteq> kInvalidDocId" using v0 wf_valid_iff_value[of "cs ! 0"] by (simp add: v_def)
  have hp: "is_heap itr_value cs" using assms(1) by simp
  have fired: "set (or_fired cs 0 v) = {i. i < length cs \<and> itr_value (cs ! i) = v}"
    using or_fired_sub[of _ cs 0 v] or_fired_complete[OF hp ne] unfolding v_def by auto
  have live: "well_formed (cs ! i) \<and> valid (cs ! i)" if "i \<in> set (or_fired cs 0 v)" for i
  proof -
    have i: "i < length cs" "itr_value (cs ! i) = v" using that fired by auto
    then have "well_formed (cs ! i)" using assms(1) by simp
    then show ?thesis using i(2) vs wf_valid_iff_value[of "cs ! i"] by simp
  qed
  have t: "\<forall>i\<in>set (or_fired cs 0 v). getTags nd (cs ! i) = Inr (tags_of nd (cs ! i))"
  proof
    fix i assume "i \<in> set (or_fired cs 0 v)"
    then obtain ts where "getTags nd (cs ! i) = Inr ts" using live getTags_total by blast
    then show "getTags nd (cs ! i) = Inr (tags_of nd (cs ! i))" by (simp add: tags_of_def)
  qed
  have og: "or_getTags nd cs 0 v [] = Inr ([] @ concat (map (\<lambda>i. tags_of nd (cs ! i)) (or_fired cs 0 v)))"
    using t by (rule or_getTags_fired)
  have g: "getTags nd (OrIterator cs h) = Inr (concat (map (\<lambda>i. tags_of nd (cs ! i)) (or_fired cs 0 v)))"
  proof (cases h)
    case True
    then show ?thesis using og ne hd assms(2) by (cases cs) (auto simp del: or_getTags.simps)
  next
    case False
    have "tags_of nd (cs ! i) = []" if "i \<in> set (or_fired cs 0 v)" for i
    proof -
      have "i < length cs" using that fired by auto
      then have "\<not> hasTag (cs ! i)" using assms(3) False by auto
      then have "getTags nd (cs ! i) = Inr []" using live[OF that] getTags_untagged by blast
      then show ?thesis by (simp add: tags_of_def)
    qed
    then have "concat (map (\<lambda>i. tags_of nd (cs ! i)) (or_fired cs 0 v)) = []" by simp
    then show ?thesis using False assms(2) by simp
  qed
  show ?thesis unfolding val using t g fired or_fired_distinct by blast
qed

section \<open>Tag decoration and the query parser\<close>

text \<open>
  \<^verbatim>\<open>makeIterator<Itr>(tag, args...)\<close> of \<^verbatim>\<open>iterator.h\<close>: with an empty tag it constructs
  \<^verbatim>\<open>Itr\<close> itself, otherwise \<^verbatim>\<open>IteratorWithTag<Itr>\<close>, whose constructor runs the
  constructor of \<^verbatim>\<open>Itr\<close> on the same arguments and stores the tag. \<open>Itr\<close> is the
  constructor of the base class, which may end in a failed \<^verbatim>\<open>CHECK\<close>.
\<close>

definition makeIterator :: "string \<Rightarrow> ('a \<Rightarrow> failure + Iterator) \<Rightarrow> 'a \<Rightarrow> failure + Iterator" where
  "makeIterator tag Itr args =
     (if tag = [] then Itr args
      else case Itr args of Inl e \<Rightarrow> Inl e | Inr base \<Rightarrow> Inr (IteratorWithTag tag base))"

text \<open>
  The constructor of \<^verbatim>\<open>DiffIterator\<close> as \<^verbatim>\<open>makeIterator\<close> receives it: the two
  arguments as a pair, and a result that never fails.
\<close>

definition DiffIterator_of :: "Iterator \<times> Iterator \<Rightarrow> failure + Iterator" where
  "DiffIterator_of args = Inr (DiffIterator_new (fst args) (snd args))"

subsection \<open>Tokens\<close>

text \<open>
  \<^verbatim>\<open>split\<close> of \<^verbatim>\<open>query_parser.cc\<close>. A \<^verbatim>\<open>string_view\<close> into the query is the pair of
  its offset in the query and its characters, so that
  \<^verbatim>\<open>std::distance(qsv.begin(), token.begin())\<close> is the first component. \<^verbatim>\<open>isspace\<close> is
  the one of the C locale: the space and the characters 9 to 13, and no byte above 127. \<open>token_end\<close> is the
  loop that advances \<^verbatim>\<open>e\<close> in \<^verbatim>\<open>getToken\<close>; \<^verbatim>\<open>getToken\<close> is only called on
  a non-empty view, which \<^verbatim>\<open>skipSpaces\<close> has checked.
\<close>

definition kTagPrefix :: string where
  "kTagPrefix = ''tag:''"

definition isspace :: "char \<Rightarrow> bool" where
  "isspace c = (c = CHR '' '' \<or> ((9 :: nat) \<le> of_char c \<and> of_char c \<le> (13 :: nat)))"

definition isParenthesis :: "char \<Rightarrow> bool" where
  "isParenthesis c = (c = CHR ''('' \<or> c = CHR '')'')"

type_synonym string_view = "nat \<times> string"

fun skipSpaces :: "string_view \<Rightarrow> string_view" where
  "skipSpaces (pos, []) = (pos, [])"
| "skipSpaces (pos, c # q) = (if isspace c then skipSpaces (Suc pos, q) else (pos, c # q))"

fun token_end :: "string \<Rightarrow> nat" where
  "token_end [] = 0"
| "token_end (c # q) = (if \<not> isspace c \<and> \<not> isParenthesis c then Suc (token_end q) else 0)"

definition getToken :: "string_view \<Rightarrow> string_view \<times> string_view" where
  "getToken q =
     (let e = (if isParenthesis (hd (snd q)) then 1 else token_end (snd q))
      in ((fst q, take e (snd q)), (fst q + e, drop e (snd q))))"

function split_loop :: "string_view \<Rightarrow> string_view list" where
  "split_loop q =
     (let q = skipSpaces q in
      if snd q = [] then []
      else let (token, q) = getToken q in token # split_loop q)"
  by pat_completeness auto

lemma skipSpaces_length: "length (snd (skipSpaces q)) \<le> length (snd q)"
  by (induction q rule: skipSpaces.induct) auto

lemma skipSpaces_hd: "snd (skipSpaces q) \<noteq> [] \<Longrightarrow> \<not> isspace (hd (snd (skipSpaces q)))"
  by (induction q rule: skipSpaces.induct) auto

lemma getToken_shorter:
  assumes "snd q \<noteq> []" "\<not> isspace (hd (snd q))"
  shows "length (snd (snd (getToken q))) < length (snd q)"
proof (cases "snd q")
  case Nil
  then show ?thesis using assms by simp
next
  case (Cons c cs)
  then show ?thesis using assms by (auto simp: getToken_def Let_def)
qed

termination split_loop
proof (relation "measure (\<lambda>q. length (snd q))", goal_cases)
  case 1
  then show ?case by simp
next
  case (2 q q' p token rest)
  have "length (snd (snd (getToken (skipSpaces q)))) < length (snd (skipSpaces q))"
    using 2 by (intro getToken_shorter skipSpaces_hd) auto
  moreover have "rest = snd (getToken (skipSpaces q))"
    using 2 by (metis snd_conv)
  ultimately show ?case using skipSpaces_length[of q] by simp
qed

declare split_loop.simps [simp del]

definition split :: "string \<Rightarrow> string_view list" where
  "split q = split_loop (0, q)"

subsection \<open>Operator frames\<close>

text \<open>
  \<^verbatim>\<open>PartialState\<close> and its member \<^verbatim>\<open>close\<close>. \<open>endPos\<close> is the offset of the token
  that closes the frame. The test \<^verbatim>\<open>itrs.empty()\<close> comes before the switch on the
  operator, so a frame of any kind without children ends in the same failure.
\<close>

datatype OpType = AND | OR | DIFF | ROOT

record PartialState =
  startPos :: nat
  op :: OpType
  itrs :: "Iterator list"
  tag :: string

definition close :: "PartialState \<Rightarrow> nat \<Rightarrow> failure + Iterator" where
  "close st endPos =
     (if itrs st = [] then Inl (Exception NoSubExpression endPos)
      else case op st of
        DIFF \<Rightarrow>
          if length (itrs st) \<noteq> 2 then Inl (Exception (DiffArity (length (itrs st))) endPos)
          else makeIterator (tag st) DiffIterator_of (itrs st ! 0, itrs st ! 1)
      | AND \<Rightarrow>
          if length (itrs st) = 1 \<and> tag st = [] then Inr (hd (itrs st))
          else makeIterator (tag st) AndIterator_new (itrs st)
      | OR \<Rightarrow>
          if length (itrs st) = 1 \<and> tag st = [] then Inr (hd (itrs st))
          else makeIterator (tag st) OrIterator_new (itrs st)
      | ROOT \<Rightarrow>
          if length (itrs st) \<noteq> 1 then Inl (Exception MultipleQueries endPos)
          else if tag st \<noteq> [] then Inl (Exception TopLevelHasTag endPos)
          else Inr (itrs st ! 0))"

subsection \<open>The token loop\<close>

text \<open>
  \<^verbatim>\<open>QueryParser::getIterator\<close>. The \<^verbatim>\<open>for\<close> loop over the token index is the
  recursion \<open>token_loop\<close> over the tokens still to read; a left parenthesis reads two
  tokens, as \<^verbatim>\<open>++tokenIdx\<close> does, and the frame it opens starts at the parenthesis
  (\<^verbatim>\<open>tokens[nextTokenIdx - 1]\<close>). The stack is a list with its top first. The stack
  always holds the ROOT frame; the branches for an empty stack are there only to make
  the function total. The factory \<^verbatim>\<open>IteratorFactory::getIteratorForTerm\<close> is supplied by
  the caller and is a parameter.
\<close>

definition kStrToOpMap :: "string \<Rightarrow> OpType option" where
  "kStrToOpMap token =
     (if token = ''and'' then Some AND
      else if token = ''or'' then Some OR
      else if token = ''diff'' then Some DIFF
      else None)"

definition starts_with :: "string \<Rightarrow> string \<Rightarrow> bool" where
  "starts_with token prefix = (take (length prefix) token = prefix)"

fun token_loop :: "(string \<Rightarrow> Iterator) \<Rightarrow> PartialState list \<Rightarrow> string_view list
    \<Rightarrow> failure + PartialState list" where
  "token_loop getIteratorForTerm stack [] = Inr stack"
| "token_loop getIteratorForTerm stack ((currentPos, token) # tokens) =
     (if token = ''('' then
        (case tokens of
           [] \<Rightarrow> Inl (Exception ExpectingOperator currentPos)
         | (_, opToken) # tokens' \<Rightarrow>
             (case kStrToOpMap opToken of
                None \<Rightarrow> Inl (Exception (UnrecognizableOperator opToken) currentPos)
              | Some opType \<Rightarrow>
                  token_loop getIteratorForTerm
                    (\<lparr>startPos = currentPos, op = opType, itrs = [], tag = []\<rparr> # stack) tokens'))
      else if token = '')'' then
        (case stack of
           [] \<Rightarrow> Inl (Exception UnmatchedRightParenthesis currentPos)
         | topOp # below \<Rightarrow>
             if op topOp = ROOT then Inl (Exception UnmatchedRightParenthesis currentPos)
             else (case close topOp currentPos of
                     Inl e \<Rightarrow> Inl e
                   | Inr itr \<Rightarrow>
                       (case below of
                          [] \<Rightarrow> Inl UndefinedBehavior
                        | parent # below' \<Rightarrow>
                            token_loop getIteratorForTerm
                              (parent\<lparr>itrs := itrs parent @ [itr]\<rparr> # below') tokens)))
      else if starts_with token kTagPrefix then
        (case stack of
           [] \<Rightarrow> Inl UndefinedBehavior
         | topOp # below \<Rightarrow>
             if tag topOp \<noteq> [] then Inl (Exception MultipleTags currentPos)
             else if op topOp = ROOT then Inl (Exception TopLevelCannotHaveTag currentPos)
             else token_loop getIteratorForTerm
                    (topOp\<lparr>tag := drop (length kTagPrefix) token\<rparr> # below) tokens)
      else
        (case stack of
           [] \<Rightarrow> Inl UndefinedBehavior
         | topOp # below \<Rightarrow>
             token_loop getIteratorForTerm
               (topOp\<lparr>itrs := itrs topOp @ [getIteratorForTerm token]\<rparr> # below) tokens))"

definition getIterator :: "(string \<Rightarrow> Iterator) \<Rightarrow> string \<Rightarrow> failure + Iterator" where
  "getIterator getIteratorForTerm q =
     (case token_loop getIteratorForTerm [\<lparr>startPos = 0, op = ROOT, itrs = [], tag = []\<rparr>] (split q) of
        Inl e \<Rightarrow> Inl e
      | Inr stack \<Rightarrow>
          (case stack of
             [] \<Rightarrow> Inl UndefinedBehavior
           | topOp # below \<Rightarrow>
               if length stack > 1 then Inl (Exception UnmatchedLeftParenthesis (startPos topOp))
               else close topOp (length q)))"

subsection \<open>What the tokenizer does with spaces, parentheses and words\<close>

lemma paren_not_space: "isParenthesis c \<Longrightarrow> \<not> isspace c"
  by (auto simp: isParenthesis_def isspace_def)

lemma split_loop_Nil: "split_loop (p, []) = []"
  by (simp add: split_loop.simps)

lemma split_loop_space: "isspace c \<Longrightarrow> split_loop (p, c # s) = split_loop (Suc p, s)"
  by (simp add: split_loop.simps[of "(p, c # s)"] split_loop.simps[of "(Suc p, s)"])

lemma split_loop_paren:
  assumes "isParenthesis c"
  shows "split_loop (p, c # s) = (p, [c]) # split_loop (Suc p, s)"
  using assms paren_not_space[OF assms]
  by (simp add: split_loop.simps[of "(p, c # s)"] getToken_def)

definition is_word :: "string \<Rightarrow> bool" where
  "is_word w = (w \<noteq> [] \<and> (\<forall>c\<in>set w. \<not> isspace c \<and> \<not> isParenthesis c))"

definition delimited :: "string \<Rightarrow> bool" where
  "delimited s = (case s of [] \<Rightarrow> True | c # _ \<Rightarrow> isspace c \<or> isParenthesis c)"

lemma token_end_word:
  "\<forall>c\<in>set w. \<not> isspace c \<and> \<not> isParenthesis c \<Longrightarrow> delimited s \<Longrightarrow> token_end (w @ s) = length w"
  by (induction w) (auto simp: delimited_def split: list.splits)

lemma split_loop_word:
  assumes "is_word w" "delimited s"
  shows "split_loop (p, w @ s) = (p, w) # split_loop (p + length w, s)"
proof -
  obtain c w' where w: "w = c # w'" using assms(1) by (cases w) (auto simp: is_word_def)
  have c: "\<not> isspace c" "\<not> isParenthesis c" using assms(1) w by (auto simp: is_word_def)
  have e: "token_end (w @ s) = length w"
    using assms by (intro token_end_word) (auto simp: is_word_def)
  have sk: "skipSpaces (p, w @ s) = (p, w @ s)" using c w by simp
  show ?thesis
    using c e by (subst split_loop.simps) (simp add: sk getToken_def w)
qed

lemma split_whitespace: "\<forall>c\<in>set q. isspace c \<Longrightarrow> split_loop (p, q) = []"
  by (induction q arbitrary: p) (simp_all add: split_loop_Nil split_loop_space)

subsection \<open>The grammar and the parser\<close>

text \<open>
  The grammar as the specification and the comment in \<^verbatim>\<open>query_parser.h\<close> give it,
  over tokens: an expression is a term, or a parenthesised operator keyword, an optional
  tag, and one or more expressions, exactly two for \<^verbatim>\<open>diff\<close>. A term is a token that
  is no parenthesis and does not begin with the tag prefix. \<open>pushes f toks cs\<close> says
  that reading \<open>toks\<close> appends the cursors \<open>cs\<close> to the children of the top frame and
  changes nothing else, whatever the stack and the tokens that follow.
\<close>

definition is_term :: "string \<Rightarrow> bool" where
  "is_term token = (token \<noteq> ''('' \<and> token \<noteq> '')'' \<and> \<not> starts_with token kTagPrefix)"

inductive spec_expr :: "string_view list \<Rightarrow> bool" where
  spec_term: "is_term t \<Longrightarrow> spec_expr [(p, t)]"
| spec_sExpr:
    "opName \<in> {''and'', ''or'', ''diff''} \<Longrightarrow>
     tagOpt = [] \<or> (\<exists>p name. tagOpt = [(p, kTagPrefix @ name)]) \<Longrightarrow>
     es \<noteq> [] \<Longrightarrow> \<forall>e\<in>set es. spec_expr e \<Longrightarrow>
     (opName = ''diff'' \<longrightarrow> length es = 2) \<Longrightarrow>
     spec_expr ((p1, ''('') # (p2, opName) # tagOpt @ concat es @ [(p3, '')'')])"

definition pushes :: "(string \<Rightarrow> Iterator) \<Rightarrow> string_view list \<Rightarrow> Iterator list \<Rightarrow> bool" where
  "pushes f toks cs =
     (\<forall>topOp below rest. token_loop f (topOp # below) (toks @ rest)
        = token_loop f (topOp\<lparr>itrs := itrs topOp @ cs\<rparr> # below) rest)"

lemma pushesD:
  "pushes f toks cs \<Longrightarrow> token_loop f (topOp # below) (toks @ rest)
        = token_loop f (topOp\<lparr>itrs := itrs topOp @ cs\<rparr> # below) rest"
  by (simp add: pushes_def)

lemma pushes_Nil: "pushes f [] []"
  by (simp add: pushes_def)

lemma pushes_append: "pushes f a cs \<Longrightarrow> pushes f b ds \<Longrightarrow> pushes f (a @ b) (cs @ ds)"
  by (simp add: pushes_def)

lemma pushes_concat:
  assumes "\<forall>e\<in>set es. \<exists>c. pushes f e [c]"
  shows "\<exists>cs. length cs = length es \<and> pushes f (concat es) cs"
  using assms
proof (induction es)
  case Nil
  then show ?case using pushes_Nil by simp
next
  case (Cons e es)
  then obtain c cs where "pushes f e [c]" "length cs = length es" "pushes f (concat es) cs"
    by auto
  then have "pushes f (concat (e # es)) ([c] @ cs)" "length ([c] @ cs) = length (e # es)"
    using pushes_append[of f e "[c]" "concat es" cs] by simp_all
  then show ?case by blast
qed


lemma token_loop_open:
  "kStrToOpMap opName = Some opType \<Longrightarrow>
   token_loop f stack ((p1, ''('') # (p2, opName) # rest)
     = token_loop f (\<lparr>startPos = p1, op = opType, itrs = [], tag = []\<rparr> # stack) rest"
  by simp

lemma tag_token: "starts_with (kTagPrefix @ name) kTagPrefix"
  "kTagPrefix @ name \<noteq> ''(''" "kTagPrefix @ name \<noteq> '')''"
  "drop (length kTagPrefix) (kTagPrefix @ name) = name"
  by (simp_all add: starts_with_def kTagPrefix_def)

lemma token_loop_tag:
  "op topOp \<noteq> ROOT \<Longrightarrow> tag topOp = [] \<Longrightarrow>
   token_loop f (topOp # below) ((p, kTagPrefix @ name) # rest)
     = token_loop f (topOp\<lparr>tag := name\<rparr> # below) rest"
  using tag_token[of name] by simp

lemma token_loop_close:
  "op topOp \<noteq> ROOT \<Longrightarrow> close topOp p = Inr c \<Longrightarrow>
   token_loop f (topOp # parent # below) ((p, '')'') # rest)
     = token_loop f (parent\<lparr>itrs := itrs parent @ [c]\<rparr> # below) rest"
  by simp

lemma token_loop_close_fail:
  "op topOp \<noteq> ROOT \<Longrightarrow> close topOp p = Inl e \<Longrightarrow>
   token_loop f (topOp # below) ((p, '')'') # rest) = Inl e"
  by simp

lemma token_loop_term:
  "is_term t \<Longrightarrow>
   token_loop f (topOp # below) ((p, t) # rest)
     = token_loop f (topOp\<lparr>itrs := itrs topOp @ [f t]\<rparr> # below) rest"
  by (simp add: is_term_def)

declare token_loop.simps(2) [simp del]

lemma pushes_term: "is_term t \<Longrightarrow> pushes f [(p, t)] [f t]"
  by (simp add: pushes_def token_loop_term)

lemma AndIterator_new_ok: "cs \<noteq> [] \<Longrightarrow> \<exists>a. AndIterator_new cs = Inr a"
  by (simp add: AndIterator_new_def Let_def split: prod.splits)

lemma OrIterator_new_ok: "cs \<noteq> [] \<Longrightarrow> \<exists>a. OrIterator_new cs = Inr a"
  by (simp add: OrIterator_new_def Let_def)

lemma makeIterator_ok: "Itr args = Inr base \<Longrightarrow> \<exists>c. makeIterator t Itr args = Inr c"
  by (simp add: makeIterator_def)

lemma close_ok:
  assumes "op st \<noteq> ROOT" "itrs st \<noteq> []" "op st = DIFF \<longrightarrow> length (itrs st) = 2"
  shows "\<exists>c. close st p = Inr c"
proof (cases "op st")
  case AND
  then show ?thesis
    using assms AndIterator_new_ok[OF assms(2)] makeIterator_ok[of AndIterator_new "itrs st"]
    by (auto simp: close_def)
next
  case OR
  then show ?thesis
    using assms OrIterator_new_ok[OF assms(2)] makeIterator_ok[of OrIterator_new "itrs st"]
    by (auto simp: close_def)
next
  case DIFF
  then show ?thesis
    using assms makeIterator_ok[of DiffIterator_of "(itrs st ! 0, itrs st ! 1)"]
    by (auto simp: close_def DiffIterator_of_def)
next
  case ROOT
  then show ?thesis using assms by simp
qed

lemma kStrToOpMap_ops:
  "opName \<in> {''and'', ''or'', ''diff''} \<Longrightarrow>
     \<exists>opType. kStrToOpMap opName = Some opType \<and> opType \<noteq> ROOT \<and>
       (opType = DIFF \<longleftrightarrow> opName = ''diff'')"
  by (auto simp: kStrToOpMap_def)

lemma frame_body:
  assumes "tagOpt = [] \<or> (\<exists>p name. tagOpt = [(p, kTagPrefix @ name)])"
    and "pushes f body cs" and "opType \<noteq> ROOT"
  shows "\<exists>t. \<forall>stack rest. token_loop f (\<lparr>startPos = p1, op = opType, itrs = [], tag = []\<rparr> # stack)
            (tagOpt @ body @ rest)
          = token_loop f (\<lparr>startPos = p1, op = opType, itrs = cs, tag = t\<rparr> # stack) rest"
  using assms(1)
proof
  assume "tagOpt = []"
  then show ?thesis using pushesD[OF assms(2)] by (intro exI[of _ "[]"]) simp
next
  assume "\<exists>p name. tagOpt = [(p, kTagPrefix @ name)]"
  then obtain p name where "tagOpt = [(p, kTagPrefix @ name)]" by blast
  then show ?thesis
    using pushesD[OF assms(2)] assms(3) by (intro exI[of _ name]) (simp add: token_loop_tag)
qed

lemma spec_expr_pushes: "spec_expr e \<Longrightarrow> \<exists>c. pushes f e [c]"
proof (induction rule: spec_expr.induct)
  case (spec_term t p)
  then show ?case using pushes_term by blast
next
  case (spec_sExpr opName tagOpt es p1 p2 p3)
  obtain opType where ot: "kStrToOpMap opName = Some opType" "opType \<noteq> ROOT"
    "opType = DIFF \<longleftrightarrow> opName = ''diff''"
    using kStrToOpMap_ops[of opName] spec_sExpr by blast
  obtain cs where cs: "length cs = length es" "pushes f (concat es) cs"
    using pushes_concat[of es f] spec_sExpr by blast
  obtain t where body: "\<And>stack rest.
      token_loop f (\<lparr>startPos = p1, op = opType, itrs = [], tag = []\<rparr> # stack)
            (tagOpt @ concat es @ rest)
          = token_loop f (\<lparr>startPos = p1, op = opType, itrs = cs, tag = t\<rparr> # stack) rest"
    using frame_body[OF _ cs(2) ot(2), of tagOpt p1] spec_sExpr by blast
  let ?fr = "\<lparr>startPos = p1, op = opType, itrs = cs, tag = t\<rparr>"
  have "itrs ?fr \<noteq> []" using cs(1) spec_sExpr by auto
  moreover have "op ?fr = DIFF \<longrightarrow> length (itrs ?fr) = 2"
    using ot(3) cs(1) spec_sExpr by simp
  moreover have "op ?fr \<noteq> ROOT" using ot(2) by simp
  ultimately obtain c where c: "close ?fr p3 = Inr c"
    using close_ok[of ?fr p3] by blast
  have "pushes f ((p1, ''('') # (p2, opName) # tagOpt @ concat es @ [(p3, '')'')]) [c]"
    unfolding pushes_def
  proof (intro allI)
    fix topOp below rest
    have "token_loop f (topOp # below)
        (((p1, ''('') # (p2, opName) # tagOpt @ concat es @ [(p3, '')'')]) @ rest)
      = token_loop f (\<lparr>startPos = p1, op = opType, itrs = [], tag = []\<rparr> # topOp # below)
          (tagOpt @ concat es @ ((p3, '')'') # rest))"
      using token_loop_open[OF ot(1)] by simp
    also have "\<dots> = token_loop f (?fr # topOp # below) ((p3, '')'') # rest)"
      by (rule body)
    also have "\<dots> = token_loop f (topOp\<lparr>itrs := itrs topOp @ [c]\<rparr> # below) rest"
      using token_loop_close[of ?fr p3 c] ot(2) c by simp
    finally show "token_loop f (topOp # below)
        (((p1, ''('') # (p2, opName) # tagOpt @ concat es @ [(p3, '')'')]) @ rest)
      = token_loop f (topOp\<lparr>itrs := itrs topOp @ [c]\<rparr> # below) rest" .
  qed
  then show ?case by blast
qed

lemma grammatical_parses:
  assumes "spec_expr (split q)"
  shows "\<exists>c. getIterator f q = Inr c"
proof -
  obtain c where "pushes f (split q) [c]" using spec_expr_pushes[OF assms] by blast
  from pushesD[OF this, of "\<lparr>startPos = 0, op = ROOT, itrs = [], tag = []\<rparr>" "[]" "[]"]
  show ?thesis by (simp add: getIterator_def close_def)
qed

text \<open>
  \<^verbatim>\<open>SimpleIteratorFactory\<close> of \<^verbatim>\<open>query_parser_test.cc\<close>: a leaf over the posting list
  of a known term, the empty cursor for any other.
\<close>

definition SimpleIteratorFactory :: "(string \<times> DocId list) list \<Rightarrow> string \<Rightarrow> Iterator" where
  "SimpleIteratorFactory invertedIndex term =
     (case map_of invertedIndex term of
        None \<Rightarrow> getEmptyIterator
      | Some pl \<Rightarrow> getVectorIterator pl)"

lemma token_loop_append:
  "token_loop f stack toks = Inr st \<Longrightarrow> token_loop f stack (toks @ later) = token_loop f st later"
proof (induction f stack toks rule: token_loop.induct)
  case (1 f stack)
  then show ?case by simp
next
  case (2 f stack currentPos token tokens)
  show ?case
  proof (cases "token = ''(''")
    case True
    then show ?thesis using 2
      by (auto simp: token_loop.simps(2) split: list.splits option.splits)
  next
    case False
    then show ?thesis using 2
      by (auto simp: token_loop.simps(2) split: list.splits option.splits sum.splits if_splits)
  qed
qed

text \<open>
  A query with an unclosed parenthesis: expressions, then a frame that is opened and
  holds expressions but is not closed, possibly with further such frames opened inside
  it. The position is that of the innermost open parenthesis.
\<close>

definition tag_opt :: "string_view list \<Rightarrow> bool" where
  "tag_opt tagOpt = (tagOpt = [] \<or> (\<exists>p name. tagOpt = [(p, kTagPrefix @ name)]))"

inductive unclosed :: "string_view list \<Rightarrow> nat \<Rightarrow> bool" where
  unclosed_first:
    "\<forall>e\<in>set pre. spec_expr e \<Longrightarrow> opName \<in> {''and'', ''or'', ''diff''} \<Longrightarrow> tag_opt tagOpt \<Longrightarrow>
     \<forall>e\<in>set es. spec_expr e \<Longrightarrow>
     unclosed (concat pre @ (p1, ''('') # (p2, opName) # tagOpt @ concat es) p1"
| unclosed_nested:
    "unclosed toks p \<Longrightarrow> opName \<in> {''and'', ''or'', ''diff''} \<Longrightarrow> tag_opt tagOpt \<Longrightarrow>
     \<forall>e\<in>set es. spec_expr e \<Longrightarrow>
     unclosed (toks @ (p1, ''('') # (p2, opName) # tagOpt @ concat es) p1"

lemma exprs_push:
  assumes "\<forall>e\<in>set es. spec_expr e"
  shows "\<exists>cs. length cs = length es \<and> pushes f (concat es) cs"
  using assms spec_expr_pushes[of _ f] by (intro pushes_concat) blast

lemma open_frame_run:
  assumes "opName \<in> {''and'', ''or'', ''diff''}" "tag_opt tagOpt" "\<forall>e\<in>set es. spec_expr e"
  shows "\<exists>opType cs t. kStrToOpMap opName = Some opType \<and> opType \<noteq> ROOT \<and> length cs = length es \<and>
     (\<forall>stack rest. token_loop f stack ((p1, ''('') # (p2, opName) # tagOpt @ concat es @ rest)
        = token_loop f (\<lparr>startPos = p1, op = opType, itrs = cs, tag = t\<rparr> # stack) rest)"
proof -
  obtain opType where ot: "kStrToOpMap opName = Some opType" "opType \<noteq> ROOT"
    using kStrToOpMap_ops[OF assms(1)] by blast
  obtain cs where cs: "length cs = length es" "pushes f (concat es) cs"
    using exprs_push[OF assms(3)] by blast
  obtain t where body: "\<And>stack rest.
      token_loop f (\<lparr>startPos = p1, op = opType, itrs = [], tag = []\<rparr> # stack)
            (tagOpt @ concat es @ rest)
          = token_loop f (\<lparr>startPos = p1, op = opType, itrs = cs, tag = t\<rparr> # stack) rest"
    using frame_body[OF _ cs(2) ot(2), of tagOpt p1] assms(2) unfolding tag_opt_def by blast
  show ?thesis
    using ot cs(1) body token_loop_open[OF ot(1)] by auto
qed

lemma unclosed_run:
  assumes "unclosed toks p"
  shows "\<exists>fr stack'. token_loop f (topOp # below) toks = Inr (fr # stack') \<and> stack' \<noteq> [] \<and>
           startPos fr = p"
  using assms
proof (induction arbitrary: topOp below rule: unclosed.induct)
  case (unclosed_first pre opName tagOpt es p1 p2)
  obtain ps where ps: "pushes f (concat pre) ps" using exprs_push[OF unclosed_first(1)] by blast
  obtain opType cs t where fr: "\<And>stack rest.
      token_loop f stack ((p1, ''('') # (p2, opName) # tagOpt @ concat es @ rest)
        = token_loop f (\<lparr>startPos = p1, op = opType, itrs = cs, tag = t\<rparr> # stack) rest"
    using open_frame_run[OF unclosed_first(2,3,4), of f p1 p2] by blast
  have "token_loop f (topOp # below) (concat pre @ (p1, ''('') # (p2, opName) # tagOpt @ concat es)
      = token_loop f (topOp\<lparr>itrs := itrs topOp @ ps\<rparr> # below)
          ((p1, ''('') # (p2, opName) # tagOpt @ concat es @ [])"
    using pushesD[OF ps] by simp
  also have "\<dots> = Inr (\<lparr>startPos = p1, op = opType, itrs = cs, tag = t\<rparr> #
       topOp\<lparr>itrs := itrs topOp @ ps\<rparr> # below)"
    by (subst fr) simp
  finally show ?case by simp
next
  case (unclosed_nested toks p opName tagOpt es p1 p2)
  obtain fr0 stack0 where run: "token_loop f (topOp # below) toks = Inr (fr0 # stack0)"
    using unclosed_nested.IH by blast
  obtain opType cs t where fr: "\<And>stack rest.
      token_loop f stack ((p1, ''('') # (p2, opName) # tagOpt @ concat es @ rest)
        = token_loop f (\<lparr>startPos = p1, op = opType, itrs = cs, tag = t\<rparr> # stack) rest"
    using open_frame_run[OF unclosed_nested(2,3,4), of f p1 p2] by blast
  have "token_loop f (topOp # below) (toks @ (p1, ''('') # (p2, opName) # tagOpt @ concat es)
      = token_loop f (fr0 # stack0) ((p1, ''('') # (p2, opName) # tagOpt @ concat es @ [])"
    using token_loop_append[OF run] by simp
  also have "\<dots> = Inr (\<lparr>startPos = p1, op = opType, itrs = cs, tag = t\<rparr> # fr0 # stack0)"
    by (subst fr) simp
  finally show ?case by simp
qed

lemma unclosed_fails:
  assumes "unclosed (split q) p"
  shows "getIterator f q = Inl (Exception UnmatchedLeftParenthesis p)"
proof -
  obtain fr stack' where "token_loop f [\<lparr>startPos = 0, op = ROOT, itrs = [], tag = []\<rparr>] (split q)
      = Inr (fr # stack')" "stack' \<noteq> []" "startPos fr = p"
    using unclosed_run[OF assms] by blast
  then show ?thesis by (simp add: getIterator_def)
qed

lemma whitespace_fails:
  assumes "\<forall>c\<in>set q. isspace c"
  shows "getIterator f q = Inl (Exception NoSubExpression (length q))"
  using split_whitespace[OF assms, of 0] by (simp add: getIterator_def split_def close_def)

lemma diff_arity_fails:
  assumes "tag_opt tagOpt" "\<forall>e\<in>set es. spec_expr e" "length es \<noteq> 2"
  shows "token_loop f (topOp # below)
           ((p1, ''('') # (p2, ''diff'') # tagOpt @ concat es @ (p3, '')'') # rest)
         = Inl (Exception (if es = [] then NoSubExpression else DiffArity (length es)) p3)"
proof -
  obtain opType cs t where fr: "kStrToOpMap ''diff'' = Some opType" "length cs = length es"
    "\<And>stack rest.
      token_loop f stack ((p1, ''('') # (p2, ''diff'') # tagOpt @ concat es @ rest)
        = token_loop f (\<lparr>startPos = p1, op = opType, itrs = cs, tag = t\<rparr> # stack) rest"
    using open_frame_run[OF _ assms(1,2), of "''diff''" f p1 p2] by auto
  have ot: "opType = DIFF" using fr(1) by (simp add: kStrToOpMap_def)
  have "close \<lparr>startPos = p1, op = DIFF, itrs = cs, tag = t\<rparr> p3
      = Inl (Exception (if es = [] then NoSubExpression else DiffArity (length es)) p3)"
    using fr(2) assms(3) by (auto simp: close_def)
  then show ?thesis
    using token_loop_close_fail[of "\<lparr>startPos = p1, op = DIFF, itrs = cs, tag = t\<rparr>" p3 _ f]
    by (simp add: fr(3) ot)
qed

text \<open>
  \<open>nest ops t\<close> wraps the term \<open>t\<close> in one single-child frame for each operator
  keyword of \<open>ops\<close>, outermost first, as the tests on nested operators do.
\<close>

fun nest :: "string list \<Rightarrow> string \<Rightarrow> string" where
  "nest [] t = t"
| "nest (opName # ops) t = ''('' @ opName @ '' '' @ nest ops t @ '')''"

lemma close_collapse:
  "op st = AND \<or> op st = OR \<Longrightarrow> itrs st = [x] \<Longrightarrow> tag st = [] \<Longrightarrow> close st endPos = Inr x"
  by (auto simp: close_def)

lemma is_word_ops: "opName = ''and'' \<or> opName = ''or'' \<Longrightarrow> is_word opName"
  by (auto simp: is_word_def isspace_def isParenthesis_def)

lemma kStrToOpMap_and_or:
  "opName = ''and'' \<or> opName = ''or'' \<Longrightarrow>
     \<exists>opType. kStrToOpMap opName = Some opType \<and> (opType = AND \<or> opType = OR)"
  by (auto simp: kStrToOpMap_def)

lemma delimited_simps [simp]:
  "delimited []" "delimited (CHR '' '' # s)" "delimited (CHR '')'' # s)" "delimited (CHR ''('' # s)"
  by (simp_all add: delimited_def isspace_def isParenthesis_def)

lemma nest_run:
  assumes "\<forall>opName\<in>set ops. opName = ''and'' \<or> opName = ''or''" "is_word t" "is_term t"
    "delimited s"
  shows "token_loop f (topOp # below) (split_loop (p, nest ops t @ s))
       = token_loop f (topOp\<lparr>itrs := itrs topOp @ [f t]\<rparr> # below)
           (split_loop (p + length (nest ops t), s))"
  using assms(1,4)
proof (induction ops arbitrary: p s topOp below)
  case Nil
  then show ?case
    using assms(2,3) by (simp add: split_loop_word token_loop_term)
next
  case (Cons opName ops)
  obtain opType where ot: "kStrToOpMap opName = Some opType" "opType = AND \<or> opType = OR"
    using kStrToOpMap_and_or[of opName] Cons.prems by auto
  have w: "is_word opName" using is_word_ops Cons.prems by simp
  let ?inner = "nest ops t"
  let ?q = "Suc (Suc (p + length opName))"
  let ?fr = "\<lparr>startPos = p, op = opType, itrs = [], tag = []\<rparr>"
  have sp: "split_loop (p, nest (opName # ops) t @ s)
      = (p, ''('') # (Suc p, opName) # split_loop (?q, ?inner @ CHR '')'' # s)"
  proof -
    have "split_loop (p, nest (opName # ops) t @ s)
        = (p, ''('') # split_loop (Suc p, opName @ (CHR '' '' # ?inner @ CHR '')'' # s))"
      by (simp add: split_loop_paren isParenthesis_def)
    also have "split_loop (Suc p, opName @ (CHR '' '' # ?inner @ CHR '')'' # s))
        = (Suc p, opName) # split_loop (Suc p + length opName, CHR '' '' # ?inner @ CHR '')'' # s)"
      using w by (intro split_loop_word) simp_all
    also have "split_loop (Suc p + length opName, CHR '' '' # ?inner @ CHR '')'' # s)
        = split_loop (?q, ?inner @ CHR '')'' # s)"
      by (simp add: split_loop_space isspace_def)
    finally show ?thesis .
  qed
  have inner: "token_loop f (?fr # topOp # below) (split_loop (?q, ?inner @ CHR '')'' # s))
      = token_loop f (?fr\<lparr>itrs := itrs ?fr @ [f t]\<rparr> # topOp # below)
          (split_loop (?q + length ?inner, CHR '')'' # s))"
    using Cons.prems by (intro Cons.IH) simp_all
  have cl: "close (?fr\<lparr>itrs := itrs ?fr @ [f t]\<rparr>) (?q + length ?inner) = Inr (f t)"
    using ot(2) by (intro close_collapse) auto
  have "token_loop f (topOp # below) (split_loop (p, nest (opName # ops) t @ s))
      = token_loop f (?fr # topOp # below) (split_loop (?q, ?inner @ CHR '')'' # s))"
    by (subst sp) (simp add: token_loop_open[OF ot(1)])
  also have "\<dots> = token_loop f (?fr\<lparr>itrs := itrs ?fr @ [f t]\<rparr> # topOp # below)
          ((?q + length ?inner, '')'') # split_loop (Suc (?q + length ?inner), s))"
    by (simp add: inner split_loop_paren isParenthesis_def)
  also have "\<dots> = token_loop f (topOp\<lparr>itrs := itrs topOp @ [f t]\<rparr> # below)
          (split_loop (Suc (?q + length ?inner), s))"
    using ot(2) by (subst token_loop_close[OF _ cl]) auto
  finally show ?case by (simp add: add.assoc)
qed

lemma nested_single_child:
  assumes "\<forall>opName\<in>set ops. opName = ''and'' \<or> opName = ''or''" "is_word t" "is_term t"
  shows "getIterator f (nest ops t) = Inr (f t)"
  using nest_run[OF assms, of "[]" f _ "[]" 0]
  by (simp add: getIterator_def split_def split_loop_Nil close_def)

lemma bare_tags_skipped:
  assumes "op topOp \<noteq> ROOT" "tag topOp = []" "\<forall>tk\<in>set bares. snd tk = kTagPrefix"
  shows "token_loop f (topOp # below) (bares @ rest) = token_loop f (topOp # below) rest"
  using assms(3)
proof (induction bares)
  case Nil
  then show ?case by simp
next
  case (Cons tk bares)
  obtain p where tk: "tk = (p, kTagPrefix @ [])" using Cons.prems by (cases tk) auto
  have "topOp\<lparr>tag := []\<rparr> = topOp" using assms(2) by simp
  then show ?case
    using Cons token_loop_tag[OF assms(1,2), of f below p "[]" "bares @ rest"] by (simp add: tk)
qed

lemma bare_tag_after_tag:
  assumes "tag topOp \<noteq> []"
  shows "token_loop f (topOp # below) ((p, kTagPrefix) # rest) = Inl (Exception MultipleTags p)"
  using assms tag_token[of "[]"] by (simp add: token_loop.simps(2))

lemma bare_tag_frame_collapses:
  assumes "opName = ''and'' \<or> opName = ''or''" "spec_expr e"
    "\<forall>tk\<in>set bares1. snd tk = kTagPrefix" "\<forall>tk\<in>set bares2. snd tk = kTagPrefix"
  shows "token_loop f (topOp # below)
           ((p1, ''('') # (p2, opName) # bares1 @ e @ bares2 @ (p3, '')'') # rest)
         = token_loop f (topOp # below) (e @ rest)"
proof -
  obtain opType where ot: "kStrToOpMap opName = Some opType" "opType = AND \<or> opType = OR"
    using kStrToOpMap_and_or[OF assms(1)] by blast
  obtain c where c: "pushes f e [c]" using spec_expr_pushes[OF assms(2)] by blast
  let ?fr = "\<lparr>startPos = p1, op = opType, itrs = [], tag = []\<rparr>"
  let ?fr' = "\<lparr>startPos = p1, op = opType, itrs = [c], tag = []\<rparr>"
  have nr: "op ?fr \<noteq> ROOT" "op ?fr' \<noteq> ROOT" using ot(2) by auto
  have cl: "close ?fr' p3 = Inr c" using ot(2) by (intro close_collapse) auto
  have "token_loop f (topOp # below)
           ((p1, ''('') # (p2, opName) # bares1 @ e @ bares2 @ (p3, '')'') # rest)
      = token_loop f (?fr # topOp # below) (bares1 @ e @ bares2 @ (p3, '')'') # rest)"
    by (simp add: token_loop_open[OF ot(1)])
  also have "\<dots> = token_loop f (?fr # topOp # below) (e @ bares2 @ (p3, '')'') # rest)"
    using bare_tags_skipped[OF nr(1) _ assms(3)] by simp
  also have "\<dots> = token_loop f (?fr' # topOp # below) (bares2 @ (p3, '')'') # rest)"
    using pushesD[OF c, of ?fr] by simp
  also have "\<dots> = token_loop f (?fr' # topOp # below) ((p3, '')'') # rest)"
    using bare_tags_skipped[OF nr(2) _ assms(4)] by simp
  also have "\<dots> = token_loop f (topOp\<lparr>itrs := itrs topOp @ [c]\<rparr> # below) rest"
    using token_loop_close[OF nr(2) cl] by simp
  also have "\<dots> = token_loop f (topOp # below) (e @ rest)"
    using pushesD[OF c] by simp
  finally show ?thesis .
qed

lemma leaf_iterateWith: "posting_list ds \<Longrightarrow> iterateWith (getVectorIterator ds) = ds"
  by (simp add: iterateWith_seq getVectorIterator_def)

section \<open>Claims\<close>

text \<open>
  C6 (as the specification states it, refuted). The claim says that constructing a leaf
  cursor from a list that is not strictly ascending, or that holds the sentinel, is
  rejected. The constructor has no check: from \<open>[2, 1]\<close> it builds a live cursor standing
  on 2, and from a list holding the sentinel a live cursor whose value is the sentinel.
\<close>

theorem C6_construction_unchecked_counterexample:
  "\<not> posting_list [2, 1]
   \<and> getVectorIterator [2, 1] = VectorIterator [2, 1] 0
   \<and> valid (getVectorIterator [2, 1])
   \<and> itr_value (getVectorIterator [2, 1]) = 2
   \<and> \<not> posting_list [kInvalidDocId]
   \<and> valid (getVectorIterator [kInvalidDocId])
   \<and> itr_value (getVectorIterator [kInvalidDocId]) = kInvalidDocId"
  by (simp add: posting_list_def getVectorIterator_def)

text \<open>
  C6 (amended). Constructing a leaf cursor never fails and validates nothing: for every
  list, ascending or not, the cursor holds the list as given at position 0; it is
  exhausted exactly when the list is empty, and otherwise stands on the first element.
\<close>

theorem C6_construction_total:
  "getVectorIterator ds = VectorIterator ds 0
   \<and> (valid (getVectorIterator ds) \<longleftrightarrow> ds \<noteq> [])
   \<and> \<not> valid (getVectorIterator [])
   \<and> itr_value (getVectorIterator []) = kInvalidDocId
   \<and> itr_value (getVectorIterator (d # ds')) = d"
  by (simp add: getVectorIterator_def)

text \<open>
  C1. An AND cursor constructed over one or more reachable children reports, through
  \<open>iterateWith\<close>, exactly the document IDs that every child reports, each once and in
  strictly ascending order. The constructor succeeds whenever there is at least one child.
\<close>

theorem C1_and_emits_intersection:
  assumes "children \<noteq> []" and "\<forall>c\<in>set children. built c"
  shows "\<exists>a. AndIterator_new children = Inr a \<and> sorted_wrt (<) (iterateWith a) \<and>
           distinct (iterateWith a) \<and>
           set (iterateWith a) = (\<Inter>c\<in>set children. set (iterateWith c))"
proof -
  have wf: "\<forall>c\<in>set children. well_formed c" using assms(2) built_well_formed by blast
  obtain a where a: "AndIterator_new children = Inr a" "well_formed a" "set (seq a) = common children"
    using AndIterator_new_correct[OF assms(1) wf] by blast
  have it: "iterateWith a = seq a" using a(2) by (rule iterateWith_seq)
  have asc: "sorted_wrt (<) (seq a)" using a(2) by (rule seq_ascending)
  then have "distinct (seq a)" by (simp add: strict_sorted_iff)
  moreover have "common children = (\<Inter>c\<in>set children. set (iterateWith c))"
    unfolding common_def using wf by (simp add: iterateWith_seq)
  ultimately show ?thesis using a asc it by auto
qed

theorem C1_and_emits_intersection_witness:
  "\<exists>a. AndIterator_new [getVectorIterator [0, 3, 8, 11, 20, 21], getVectorIterator [0, 4, 8, 21, 31],
            getVectorIterator [0, 8, 21, 22, 31, 41]] = Inr a \<and> iterateWith a = [0, 8, 21]"
proof -
  have p: "posting_list [0, 3, 8, 11, 20, 21]" "posting_list [0, 4, 8, 21, 31]"
    "posting_list [0, 8, 21, 22, 31, 41]"
    by (simp_all add: posting_list_def kInvalidDocId_def)
  obtain a where a: "AndIterator_new [getVectorIterator [0, 3, 8, 11, 20, 21],
      getVectorIterator [0, 4, 8, 21, 31], getVectorIterator [0, 8, 21, 22, 31, 41]] = Inr a"
    "sorted_wrt (<) (iterateWith a)"
    "set (iterateWith a) = (\<Inter>c\<in>set [getVectorIterator [0, 3, 8, 11, 20, 21],
      getVectorIterator [0, 4, 8, 21, 31], getVectorIterator [0, 8, 21, 22, 31, 41]]. set (iterateWith c))"
    using C1_and_emits_intersection[of "[getVectorIterator [0, 3, 8, 11, 20, 21],
      getVectorIterator [0, 4, 8, 21, 31], getVectorIterator [0, 8, 21, 22, 31, 41]]"] p
    by (auto simp: built_leaf)
  have "set (iterateWith a) = set [0, 8, 21]"
    unfolding a(3) by (simp add: leaf_iterateWith p)
  then have "iterateWith a = [0, 8, 21]"
    using a(2) by (intro ascending_unique) simp_all
  then show ?thesis using a(1) by simp
qed

text \<open>
  C2. An OR cursor constructed over one or more reachable children reports exactly the
  document IDs that at least one child reports, each once and in strictly ascending
  order; and after any number of calls to \<open>next\<close>, one more call on a live cursor leaves
  it either exhausted or on a document ID strictly greater than the one it stood on.
\<close>

theorem C2_or_emits_union:
  assumes "children \<noteq> []" and "\<forall>c\<in>set children. built c"
  shows "\<exists>a. OrIterator_new children = Inr a \<and> sorted_wrt (<) (iterateWith a) \<and>
           distinct (iterateWith a) \<and>
           set (iterateWith a) = (\<Union>c\<in>set children. set (iterateWith c)) \<and>
           (\<forall>n. let s = ((\<lambda>c. fst (itr_next c)) ^^ n) a; s' = fst (itr_next s)
                in valid s \<longrightarrow> \<not> valid s' \<or> itr_value s < itr_value s')"
proof -
  have wf: "\<forall>c\<in>set children. well_formed c" using assms(2) built_well_formed by blast
  obtain a cs h where a: "OrIterator_new children = Inr a" "well_formed a" "set (seq a) = united children"
    "a = OrIterator cs h"
    using OrIterator_new_correct[OF assms(1) wf] by blast
  have it: "iterateWith a = seq a" using a(2) by (rule iterateWith_seq)
  have asc: "sorted_wrt (<) (seq a)" using a(2) by (rule seq_ascending)
  then have dist: "distinct (seq a)" by (simp add: strict_sorted_iff)
  have un: "united children = (\<Union>c\<in>set children. set (iterateWith c))"
    unfolding united_def using wf by (simp add: iterateWith_seq)
  have mono: "let s = ((\<lambda>c. fst (itr_next c)) ^^ n) a; s' = fst (itr_next s)
                in valid s \<longrightarrow> \<not> valid s' \<or> itr_value s < itr_value s'" for n
  proof -
    obtain cs' where "((\<lambda>c. fst (itr_next c)) ^^ n) a = OrIterator cs' h" "well_formed (OrIterator cs' h)"
      using or_next_iter[of cs h n] a(2,4) by auto
    then show ?thesis unfolding Let_def using next_value_increases[of "OrIterator cs' h"] by metis
  qed
  show ?thesis using a(1) asc dist it un a(3) mono by auto
qed

theorem C2_or_emits_union_witness:
  "\<exists>a. OrIterator_new [getVectorIterator [0, 8, 20, 21], getVectorIterator [0, 4, 8, 21],
            getVectorIterator [0, 8, 22, 31, 41]] = Inr a \<and>
       iterateWith a = [0, 4, 8, 20, 21, 22, 31, 41]"
proof -
  have p: "posting_list [0, 8, 20, 21]" "posting_list [0, 4, 8, 21]"
    "posting_list [0, 8, 22, 31, 41]"
    by (simp_all add: posting_list_def kInvalidDocId_def)
  obtain a where a: "OrIterator_new [getVectorIterator [0, 8, 20, 21],
      getVectorIterator [0, 4, 8, 21], getVectorIterator [0, 8, 22, 31, 41]] = Inr a"
    "sorted_wrt (<) (iterateWith a)"
    "set (iterateWith a) = (\<Union>c\<in>set [getVectorIterator [0, 8, 20, 21],
      getVectorIterator [0, 4, 8, 21], getVectorIterator [0, 8, 22, 31, 41]]. set (iterateWith c))"
    using C2_or_emits_union[of "[getVectorIterator [0, 8, 20, 21],
      getVectorIterator [0, 4, 8, 21], getVectorIterator [0, 8, 22, 31, 41]]"] p
    by (auto simp: built_leaf)
  have "set (iterateWith a) = set [0, 4, 8, 20, 21, 22, 31, 41]"
    unfolding a(3) by (auto simp: leaf_iterateWith p)
  then have "iterateWith a = [0, 4, 8, 20, 21, 22, 31, 41]"
    using a(2) by (intro ascending_unique) simp_all
  then show ?thesis using a(1) by simp
qed

text \<open>
  C3. A DIFF cursor over reachable cursors \<open>lhs\<close> and \<open>rhs\<close> reports the document IDs
  of \<open>lhs\<close> that \<open>rhs\<close> does not report, in the order of \<open>lhs\<close>, which is strictly
  ascending.
\<close>

theorem C3_diff_emits_difference:
  assumes "built lhs" and "built rhs"
  shows "iterateWith (DiffIterator_new lhs rhs) =
           filter (\<lambda>x. x \<notin> set (iterateWith rhs)) (iterateWith lhs)
         \<and> sorted_wrt (<) (iterateWith (DiffIterator_new lhs rhs))"
proof -
  have wf: "well_formed lhs" "well_formed rhs" using assms by (simp_all add: built_well_formed)
  have d: "well_formed (DiffIterator_new lhs rhs)"
    "seq (DiffIterator_new lhs rhs) = filter (\<lambda>x. x \<notin> set (seq rhs)) (seq lhs)"
    using DiffIterator_new_correct[OF wf] by simp_all
  have "sorted_wrt (<) (seq (DiffIterator_new lhs rhs))" using d(1) by (rule seq_ascending)
  then show ?thesis
    using d by (simp add: iterateWith_seq wf)
qed

theorem C3_diff_emits_difference_witness:
  "iterateWith (DiffIterator_new (getVectorIterator [0, 3, 8, 19, 20, 21])
       (getVectorIterator [0, 4, 8, 9, 10, 21, 32])) = [3, 19, 20]"
proof -
  have p: "posting_list [0, 3, 8, 19, 20, 21]" "posting_list [0, 4, 8, 9, 10, 21, 32]"
    by (simp_all add: posting_list_def kInvalidDocId_def)
  show ?thesis
    using C3_diff_emits_difference[of "getVectorIterator [0, 3, 8, 19, 20, 21]"
        "getVectorIterator [0, 4, 8, 9, 10, 21, 32]"] p
    by (simp add: built_leaf leaf_iterateWith)
qed

text \<open>
  C4. \<open>skipTo\<close> on any reachable cursor, of whatever kind: a live cursor already at or
  past the target is left where it is; a live cursor before the target moves to the
  smallest of its remaining document IDs that is at least the target, or becomes
  exhausted when there is none; an exhausted cursor stays exhausted and the call returns
  false. The returned flag is the validity of the cursor after the call.
\<close>

theorem C4_skipTo_contract:
  assumes "built c"
  shows "let c' = fst (skipTo c t) in
     (valid c \<and> t \<le> itr_value c \<longrightarrow>
        valid c' \<and> itr_value c' = itr_value c \<and> iterateWith c' = iterateWith c) \<and>
     (valid c \<and> itr_value c < t \<longrightarrow>
        (\<not> valid c' \<and> (\<forall>x\<in>set (iterateWith c). x < t)) \<or>
        (valid c' \<and> itr_value c' \<in> set (iterateWith c) \<and> t \<le> itr_value c' \<and>
         (\<forall>x\<in>set (iterateWith c). t \<le> x \<longrightarrow> itr_value c' \<le> x))) \<and>
     (\<not> valid c \<longrightarrow> \<not> valid c' \<and> \<not> snd (skipTo c t)) \<and>
     snd (skipTo c t) = valid c'"
proof -
  define c' where "c' = fst (skipTo c t)"
  have wf: "well_formed c" using assms by (rule built_well_formed)
  have wf': "well_formed c'" and s': "seq c' = dropWhile (\<lambda>x. x < t) (seq c)"
    and ret: "snd (skipTo c t) = valid c'"
    unfolding c'_def using skipTo_correct[OF wf] by simp_all
  have it: "iterateWith c = seq c" "iterateWith c' = seq c'"
    using wf wf' by (simp_all add: iterateWith_seq)
  have asc: "sorted_wrt (<) (seq c)" using wf by (rule seq_ascending)
  have set': "set (seq c') = {x \<in> set (seq c). t \<le> x}"
    unfolding s' using asc by (rule set_dropWhile_ascending)
  have p1: "valid c' \<and> itr_value c' = itr_value c \<and> iterateWith c' = iterateWith c"
    if "valid c" "t \<le> itr_value c"
  proof -
    have "seq c \<noteq> []" "hd (seq c) = itr_value c"
      using that(1) valid_iff[OF wf] value_hd[OF wf] by simp_all
    then have "seq c' = seq c" unfolding s' using that(2) by (simp add: dropWhile_eq_self_iff)
    then show ?thesis
      using that(1) valid_iff[OF wf] valid_iff[OF wf'] value_hd[OF wf] value_hd[OF wf'] it by simp
  qed
  have p2: "(\<not> valid c' \<and> (\<forall>x\<in>set (iterateWith c). x < t)) \<or>
        (valid c' \<and> itr_value c' \<in> set (iterateWith c) \<and> t \<le> itr_value c' \<and>
         (\<forall>x\<in>set (iterateWith c). t \<le> x \<longrightarrow> itr_value c' \<le> x))"
  proof (cases "valid c'")
    case False
    then have "set (seq c') = {}" using valid_iff[OF wf'] by simp
    then show ?thesis using False set' it by (auto simp: not_le)
  next
    case True
    have "itr_value c' \<in> set (seq c')" using wf' True by (rule value_in_seq)
    moreover have "itr_value c' \<le> x" if "x \<in> set (seq c)" "t \<le> x" for x
      using that set' wf' by (intro value_le_seq) auto
    ultimately show ?thesis using True set' it by auto
  qed
  have p3: "\<not> valid c'" if "\<not> valid c"
    using that valid_iff[OF wf] valid_iff[OF wf'] s' by simp
  show ?thesis
    unfolding Let_def c'_def[symmetric] using p1 p2 p3 ret by auto
qed

theorem C4_skipTo_contract_witness:
  "valid (fst (skipTo (getVectorIterator [1, 2, 4, 7, 8, 10, 100]) 5))
   \<and> itr_value (fst (skipTo (getVectorIterator [1, 2, 4, 7, 8, 10, 100]) 5)) = 7
   \<and> snd (skipTo (getVectorIterator [1, 2, 4, 7, 8, 10, 100]) 5)"
proof -
  have p: "posting_list [1, 2, 4, 7, 8, 10, 100]"
    by (simp add: posting_list_def kInvalidDocId_def)
  have v: "valid (getVectorIterator [1, 2, 4, 7, 8, 10, 100])"
    "itr_value (getVectorIterator [1, 2, 4, 7, 8, 10, 100]) = 1"
    by (simp_all add: getVectorIterator_def)
  have n: "\<not> (5 :: DocId) \<le> 1" "(1 :: DocId) < 5"
    by (simp_all add: word_le_nat_alt word_less_nat_alt)
  show ?thesis
    using C4_skipTo_contract[of "getVectorIterator [1, 2, 4, 7, 8, 10, 100]" 5] p n
    by (auto simp: built_leaf leaf_iterateWith v Let_def)
qed

text \<open>
  C5 (as stated). The claim is that \<^verbatim>\<open>getTags\<close> on an exhausted cursor of any type
  returns the empty list, with no abort and no undefined behaviour. Three parsed queries
  show otherwise, in a build with \<^verbatim>\<open>NDEBUG\<close> (\<open>getTags True\<close>) and in one without
  (\<open>getTags False\<close>). The DIFF cursor of \<^verbatim>\<open>(diff b a)\<close>, with no posting list for
  \<^verbatim>\<open>b\<close>, is exhausted and its \<^verbatim>\<open>getTags\<close> stops at \<^verbatim>\<open>CHECK(valid())\<close> in both builds.
  The AND cursor of \<^verbatim>\<open>(and (or tag:x a) b)\<close> over an empty index is exhausted; its
  \<^verbatim>\<open>getTags\<close> returns the tag \<^verbatim>\<open>x\<close> with \<^verbatim>\<open>NDEBUG\<close> and stops at
  \<^verbatim>\<open>DCHECK(valid())\<close> without. The OR cursor of \<^verbatim>\<open>(or (and tag:x a) (and tag:y a))\<close>,
  whose heap holds the child tagged \<^verbatim>\<open>y\<close> before the one tagged \<^verbatim>\<open>x\<close>, has an empty
  heap after one \<^verbatim>\<open>next\<close>; its \<^verbatim>\<open>getTags\<close> then reads \<^verbatim>\<open>children_[0]\<close> with
  \<^verbatim>\<open>NDEBUG\<close> and stops at \<^verbatim>\<open>DCHECK(valid())\<close> without.
\<close>

theorem C5_invalid_getTags_counterexample:
  "getIterator (SimpleIteratorFactory [(''a'', [1])]) ''(diff b a)''
     = Inr (DiffIterator EmptyIterator (VectorIterator [1] 0))
   \<and> \<not> valid (DiffIterator EmptyIterator (VectorIterator [1] 0))
   \<and> getTags True (DiffIterator EmptyIterator (VectorIterator [1] 0)) = Inl CheckFailed
   \<and> getTags False (DiffIterator EmptyIterator (VectorIterator [1] 0)) = Inl CheckFailed
   \<and> getIterator (SimpleIteratorFactory []) ''(and (or tag:x a) b)''
     = Inr (AndIterator [IteratorWithTag ''x'' (OrIterator [EmptyIterator] False), EmptyIterator] True)
   \<and> \<not> valid (AndIterator [IteratorWithTag ''x'' (OrIterator [EmptyIterator] False), EmptyIterator] True)
   \<and> getTags True (AndIterator [IteratorWithTag ''x'' (OrIterator [EmptyIterator] False), EmptyIterator] True)
     = Inr [''x'']
   \<and> getTags False (AndIterator [IteratorWithTag ''x'' (OrIterator [EmptyIterator] False), EmptyIterator] True)
     = Inl CheckFailed
   \<and> getIterator (SimpleIteratorFactory [(''a'', [1])]) ''(or (and tag:x a) (and tag:y a))''
     = Inr (OrIterator [IteratorWithTag ''y'' (AndIterator [VectorIterator [1] 0] False),
                        IteratorWithTag ''x'' (AndIterator [VectorIterator [1] 0] False)] True)
   \<and> itr_next (OrIterator [IteratorWithTag ''y'' (AndIterator [VectorIterator [1] 0] False),
                        IteratorWithTag ''x'' (AndIterator [VectorIterator [1] 0] False)] True)
     = (OrIterator [] True, False)
   \<and> \<not> valid (OrIterator [] True)
   \<and> getTags True (OrIterator [] True) = Inl UndefinedBehavior
   \<and> getTags False (OrIterator [] True) = Inl CheckFailed"
  by code_simp

text \<open>
  C5 (amended). On an exhausted cursor of any type \<^verbatim>\<open>value\<close> returns the sentinel.
  \<^verbatim>\<open>getTags\<close> on an exhausted \<^verbatim>\<open>EmptyIterator\<close> or \<^verbatim>\<open>VectorIterator\<close> returns the
  empty list in either build. On an exhausted \<^verbatim>\<open>AndIterator\<close> or \<^verbatim>\<open>OrIterator\<close> it
  stops at \<^verbatim>\<open>DCHECK(valid())\<close> in a build without \<^verbatim>\<open>NDEBUG\<close>; in a build with
  \<^verbatim>\<open>NDEBUG\<close> it returns the empty list when \<^verbatim>\<open>hasTag\<close> is false, and \<^verbatim>\<open>hasTag\<close> of
  such a cursor, wherever \<^verbatim>\<open>next\<close> and \<^verbatim>\<open>skipTo\<close> have moved it, says whether one of
  the children it was constructed over has a tag. On an exhausted \<^verbatim>\<open>DiffIterator\<close>
  \<^verbatim>\<open>getTags\<close> stops at \<^verbatim>\<open>CHECK(valid())\<close> in either build. On an exhausted cursor
  decorated with a tag \<^verbatim>\<open>getTags\<close> never returns the empty list: when the operator
  beneath answers \<^verbatim>\<open>hasTag\<close> with false it returns the tag of the decoration alone,
  without calling the operator's \<^verbatim>\<open>getTags\<close>.
\<close>

theorem C5_invalid_cursor_reads:
  assumes "\<not> valid c"
  shows "itr_value c = kInvalidDocId
    \<and> (c = EmptyIterator \<or> (\<exists>ds n. c = VectorIterator ds n) \<longrightarrow> getTags nd c = Inr [])
    \<and> ((\<exists>cs h. c = AndIterator cs h \<or> c = OrIterator cs h) \<longrightarrow>
         (\<not> nd \<longrightarrow> getTags nd c = Inl CheckFailed)
         \<and> (nd \<and> \<not> hasTag c \<longrightarrow> getTags nd c = Inr []))
    \<and> (\<forall>children a.
          (AndIterator_new children = Inr a \<or> OrIterator_new children = Inr a) \<and> moved a c \<longrightarrow>
          (\<exists>cs h. c = AndIterator cs h \<or> c = OrIterator cs h)
          \<and> hasTag c = (\<exists>x\<in>set children. hasTag x))
    \<and> ((\<exists>l r. c = DiffIterator l r) \<longrightarrow> getTags nd c = Inl CheckFailed)
    \<and> (\<forall>t b. c = IteratorWithTag t b \<longrightarrow>
          getTags nd c \<noteq> Inr [] \<and> (\<not> hasTag b \<longrightarrow> getTags nd c = Inr [t]))"
proof -
  have a: "itr_value c = kInvalidDocId" using itr_value_invalid[OF assms] .
  have b: "c = EmptyIterator \<or> (\<exists>ds n. c = VectorIterator ds n) \<longrightarrow> getTags nd c = Inr []"
    by auto
  have d: "(\<exists>cs h. c = AndIterator cs h \<or> c = OrIterator cs h) \<longrightarrow>
         (\<not> nd \<longrightarrow> getTags nd c = Inl CheckFailed)
         \<and> (nd \<and> \<not> hasTag c \<longrightarrow> getTags nd c = Inr [])"
    using assms by auto
  have e: "\<forall>children a.
          (AndIterator_new children = Inr a \<or> OrIterator_new children = Inr a) \<and> moved a c \<longrightarrow>
          (\<exists>cs h. c = AndIterator cs h \<or> c = OrIterator cs h)
          \<and> hasTag c = (\<exists>x\<in>set children. hasTag x)"
    using constructed_moved by blast
  have f: "(\<exists>l r. c = DiffIterator l r) \<longrightarrow> getTags nd c = Inl CheckFailed"
    using assms by auto
  have g: "\<forall>t b. c = IteratorWithTag t b \<longrightarrow>
          getTags nd c \<noteq> Inr [] \<and> (\<not> hasTag b \<longrightarrow> getTags nd c = Inr [t])"
    by (auto split: sum.splits)
  show ?thesis using a b d e f g by blast
qed

theorem C5_invalid_cursor_reads_witness:
  "itr_value (VectorIterator [3, 5] 2) = kInvalidDocId
   \<and> getTags True (VectorIterator [3, 5] 2) = Inr []
   \<and> getTags False (VectorIterator [3, 5] 2) = Inr []
   \<and> AndIterator_new [getVectorIterator [1], getVectorIterator [2]]
       = Inr (AndIterator [VectorIterator [1] 1, VectorIterator [2] 0] False)
   \<and> itr_value (AndIterator [VectorIterator [1] 1, VectorIterator [2] 0] False) = kInvalidDocId
   \<and> \<not> hasTag (AndIterator [VectorIterator [1] 1, VectorIterator [2] 0] False)
   \<and> getTags True (AndIterator [VectorIterator [1] 1, VectorIterator [2] 0] False) = Inr []
   \<and> getTags False (AndIterator [VectorIterator [1] 1, VectorIterator [2] 0] False) = Inl CheckFailed
   \<and> OrIterator_new [getVectorIterator [1]] = Inr (OrIterator [VectorIterator [1] 0] False)
   \<and> fst (itr_next (OrIterator [VectorIterator [1] 0] False)) = OrIterator [] False
   \<and> \<not> hasTag (OrIterator [] False)
   \<and> getTags True (OrIterator [] False) = Inr []
   \<and> getTags False (OrIterator [] False) = Inl CheckFailed
   \<and> itr_value (DiffIterator (VectorIterator [1] 1) (VectorIterator [1] 0)) = kInvalidDocId
   \<and> getTags True (DiffIterator (VectorIterator [1] 1) (VectorIterator [1] 0)) = Inl CheckFailed
   \<and> getTags False (DiffIterator (VectorIterator [1] 1) (VectorIterator [1] 0)) = Inl CheckFailed
   \<and> getTags True (IteratorWithTag ''t'' (DiffIterator EmptyIterator (VectorIterator [1] 0)))
       = Inr [''t'']
   \<and> getTags False (IteratorWithTag ''t'' (DiffIterator EmptyIterator (VectorIterator [1] 0)))
       = Inr [''t'']"
proof -
  define a where "a = AndIterator [VectorIterator [1] 1, VectorIterator [2] 0] False"
  define o1 where "o1 = OrIterator [VectorIterator [1] 0] False"
  have ea: "AndIterator_new [getVectorIterator [1], getVectorIterator [2]] = Inr a"
    unfolding a_def by code_simp
  have eo: "OrIterator_new [getVectorIterator [1]] = Inr o1"
    unfolding o1_def by code_simp
  have n: "fst (itr_next o1) = OrIterator [] False"
    unfolding o1_def by code_simp
  have ma: "moved a a" by (rule moved_refl)
  have mo: "moved o1 (OrIterator [] False)"
    using moved_next[OF moved_refl, of o1] n by simp
  have va: "\<not> valid a" by (simp add: a_def)
  have ha: "\<not> (\<exists>x\<in>set [getVectorIterator [1], getVectorIterator [2]]. hasTag x)"
    by (simp add: getVectorIterator_def)
  have ho: "\<not> (\<exists>x\<in>set [getVectorIterator [1]]. hasTag x)"
    by (simp add: getVectorIterator_def)
  have ta: "\<not> hasTag a \<and> getTags True a = Inr [] \<and> getTags False a = Inl CheckFailed"
    using C5_invalid_cursor_reads[where c = a and nd = True, OF va]
      C5_invalid_cursor_reads[where c = a and nd = False, OF va] ea ma ha
    unfolding a_def by blast
  have to: "\<not> hasTag (OrIterator [] False) \<and> getTags True (OrIterator [] False) = Inr []
      \<and> getTags False (OrIterator [] False) = Inl CheckFailed"
    using C5_invalid_cursor_reads[where c = "OrIterator [] False" and nd = True]
      C5_invalid_cursor_reads[where c = "OrIterator [] False" and nd = False] eo mo ho
    by simp
  show ?thesis
    using C5_invalid_cursor_reads[where c = "VectorIterator [3, 5] 2" and nd = True]
      C5_invalid_cursor_reads[where c = "VectorIterator [3, 5] 2" and nd = False]
      C5_invalid_cursor_reads[where c = "DiffIterator (VectorIterator [1] 1) (VectorIterator [1] 0)"
        and nd = True]
      C5_invalid_cursor_reads[where c = "DiffIterator (VectorIterator [1] 1) (VectorIterator [1] 0)"
        and nd = False]
      C5_invalid_cursor_reads[where c = "IteratorWithTag ''t'' (DiffIterator EmptyIterator (VectorIterator [1] 0))"
        and nd = True]
      C5_invalid_cursor_reads[where c = "IteratorWithTag ''t'' (DiffIterator EmptyIterator (VectorIterator [1] 0))"
        and nd = False]
      C5_invalid_cursor_reads[where c = a and nd = True, OF va]
      ta to ea eo n
    unfolding a_def o1_def by simp
qed

text \<open>
  C7 (as stated). The claim is that a DIFF operator with a child count other than two
  fails with the arity error. With no child at all the failure is the one for an operator
  without sub-expressions, raised before the operator kind is looked at.
\<close>

theorem C7_diff_without_children_counterexample:
  "getIterator (SimpleIteratorFactory []) ''(diff)'' = Inl (Exception NoSubExpression 5)"
  by code_simp

text \<open>
  C7 (amended). A query of the grammar parses without failure. A query of white space
  only fails with the error for a frame without sub-expression, reported for the ROOT
  frame at the end of the query. A query that ends inside an open parenthesis fails with
  the unmatched-left-parenthesis error at that parenthesis. A DIFF frame closed over one
  or over more than two expressions fails with the arity error, and one closed over none
  with the error for an operator without sub-expression, both at the closing parenthesis.
\<close>

theorem C7_parse_failures:
  "(spec_expr (split q1) \<longrightarrow> (\<exists>c. getIterator f q1 = Inr c))
   \<and> ((\<forall>c\<in>set q2. isspace c) \<longrightarrow> getIterator f q2 = Inl (Exception NoSubExpression (length q2)))
   \<and> (unclosed (split q3) p \<longrightarrow> getIterator f q3 = Inl (Exception UnmatchedLeftParenthesis p))
   \<and> (tag_opt tagOpt \<and> (\<forall>e\<in>set es. spec_expr e) \<and> length es \<noteq> 2 \<longrightarrow>
        token_loop f (topOp # below)
           ((p1, ''('') # (p2, ''diff'') # tagOpt @ concat es @ (p3, '')'') # rest)
         = Inl (Exception (if es = [] then NoSubExpression else DiffArity (length es)) p3))"
  using grammatical_parses[of q1 f] whitespace_fails[of q2 f] unclosed_fails[of q3 p f]
    diff_arity_fails[of tagOpt es f topOp below p1 p2 p3 rest]
  by blast

theorem C7_parse_failures_witness:
  "(\<exists>c. getIterator (SimpleIteratorFactory []) ''(and t:haha)'' = Inr c)
   \<and> getIterator (SimpleIteratorFactory []) ''   '' = Inl (Exception NoSubExpression 3)
   \<and> getIterator (SimpleIteratorFactory []) ''(and t:a (or t:b)''
       = Inl (Exception UnmatchedLeftParenthesis 0)
   \<and> getIterator (SimpleIteratorFactory []) ''(diff t:haha)'' = Inl (Exception (DiffArity 1) 12)"
proof -
  have s1: "split ''(and t:haha)'' = (0, ''('') # (1, ''and'') # [] @ concat [[(5, ''t:haha'')]] @ [(11, '')'')]"
    by code_simp
  have t1: "spec_expr [(5, ''t:haha'')]" "spec_expr [(5, ''t:a'')]" "spec_expr [(13, ''t:b'')]"
    "spec_expr [(6, ''t:haha'')]"
    by (rule spec_term, simp add: is_term_def starts_with_def kTagPrefix_def)+
  have g1: "spec_expr (split ''(and t:haha)'')"
    unfolding s1 using t1 by (intro spec_sExpr) simp_all
  have w2: "\<forall>c\<in>set ''   ''. isspace c" by (simp add: isspace_def)
  have inner: "spec_expr ((9, ''('') # (10, ''or'') # [] @ concat [[(13, ''t:b'')]] @ [(16, '')'')])"
    using t1 by (intro spec_sExpr) simp_all
  have s3: "split ''(and t:a (or t:b)'' = concat [] @ (0, ''('') # (1, ''and'') # [] @
       concat [[(5, ''t:a'')], [(9, ''(''), (10, ''or''), (13, ''t:b''), (16, '')'')]]"
    by code_simp
  have u3: "unclosed (split ''(and t:a (or t:b)'') 0"
    unfolding s3 using t1 inner by (intro unclosed_first) (simp_all add: tag_opt_def)
  have s4: "split ''(diff t:haha)''
      = (0, ''('') # (1, ''diff'') # [] @ concat [[(6, ''t:haha'')]] @ (12, '')'') # []"
    by code_simp
  have d4: "tag_opt [] \<and> (\<forall>e\<in>set [[(6, ''t:haha'')]]. spec_expr e) \<and> length [[(6 :: nat, ''t:haha'')]] \<noteq> 2"
    using t1 by (simp add: tag_opt_def)
  show ?thesis
    using C7_parse_failures[of "''(and t:haha)''" "SimpleIteratorFactory []" "''   ''"
        "''(and t:a (or t:b)''" 0 "[]" "[[(6, ''t:haha'')]]"
        "\<lparr>startPos = 0, op = ROOT, itrs = [], tag = []\<rparr>" "[]" 0 1 12 "[]"]
      g1 w2 u3 d4
    by (simp add: getIterator_def s4)
qed

text \<open>
  C8. Closing an AND or OR frame that holds exactly one child \<open>x\<close> and no tag returns
  \<open>x\<close> itself, so every observation of the result is an observation of \<open>x\<close>. In the
  token loop such a frame around any expression reads as the expression alone, at every
  depth of the stack; and a term wrapped in any number of single-child AND and OR frames
  parses to the cursor the factory gives for the term.
\<close>

theorem C8_single_child_collapses:
  "((op st = AND \<or> op st = OR) \<and> itrs st = [x] \<and> tag st = [] \<longrightarrow> close st endPos = Inr x)
   \<and> ((opName = ''and'' \<or> opName = ''or'') \<and> spec_expr e \<longrightarrow>
        token_loop f (topOp # below) ((p1, ''('') # (p2, opName) # e @ (p3, '')'') # rest)
          = token_loop f (topOp # below) (e @ rest))
   \<and> ((\<forall>opName\<in>set ops. opName = ''and'' \<or> opName = ''or'') \<and> is_word t \<and> is_term t \<longrightarrow>
        getIterator f (nest ops t) = Inr (f t))"
  using close_collapse[of st x endPos]
    bare_tag_frame_collapses[of opName e "[]" "[]" f topOp below p1 p2 p3 rest]
    nested_single_child[of ops t f]
  by simp

theorem C8_single_child_collapses_witness:
  "close \<lparr>startPos = 4, op = OR, itrs = [getVectorIterator [1, 2]], tag = []\<rparr> 9
     = Inr (getVectorIterator [1, 2])
   \<and> getIterator (SimpleIteratorFactory [(''term'', [1, 2])]) ''(and (or (and term)))''
       = Inr (getVectorIterator [1, 2])"
  using C8_single_child_collapses[where
      st = "\<lparr>startPos = 4, op = OR, itrs = [getVectorIterator [1, 2]], tag = []\<rparr>"
      and x = "getVectorIterator [1, 2]" and endPos = 9 and ops = "[''and'', ''or'', ''and'']"
      and t = "''term''" and f = "SimpleIteratorFactory [(''term'', [1, 2])]"]
  by (simp add: is_word_def is_term_def isspace_def isParenthesis_def starts_with_def kTagPrefix_def
      SimpleIteratorFactory_def)

text \<open>
  C9. An operator cursor made with a non-empty tag is the tagged wrapper of the
  operator: wherever \<^verbatim>\<open>next\<close> and \<^verbatim>\<open>skipTo\<close> move it, it is the wrapper of the moved
  operator and \<^verbatim>\<open>hasTag\<close> is true. Made with an empty tag the cursor is the operator
  itself. On a live reachable cursor, in either build, \<^verbatim>\<open>getTags\<close> returns, and on its
  wrapper it returns the same list followed by the wrapper's own tag. The list of the
  operator comes from its children: for an AND cursor it is the lists of all its children
  one after the other in stored order; for an OR cursor it is the lists of the children
  at the heap positions \<open>or_fired\<close>, which are the positions of exactly the children that
  stand on the current value, each once, in the pre-order of the heap; for a DIFF cursor it
  is the list of the left child. The flag \<^verbatim>\<open>hasTag\<close> of a constructed AND or OR cursor
  says whether one of the children given to the constructor has a tag.
\<close>

theorem C9_tagged_operator:
  assumes "Itr args = Inr base"
  shows "(tg \<noteq> [] \<longrightarrow>
        makeIterator tg Itr args = Inr (IteratorWithTag tg base)
        \<and> (\<forall>c. moved (IteratorWithTag tg base) c \<longrightarrow>
              hasTag c \<and> (\<exists>b. c = IteratorWithTag tg b \<and> moved base b)))
    \<and> (tg = [] \<longrightarrow> makeIterator tg Itr args = Inr base)
    \<and> (\<forall>b. built b \<and> valid b \<longrightarrow>
          getTags nd b = Inr (tags_of nd b)
          \<and> getTags nd (IteratorWithTag tg b) = Inr (tags_of nd b @ [tg]))
    \<and> (\<forall>children a. AndIterator_new children = Inr a \<or> OrIterator_new children = Inr a \<longrightarrow>
          hasTag a = (\<exists>x\<in>set children. hasTag x))
    \<and> (\<forall>cs h. built (AndIterator cs h) \<and> valid (AndIterator cs h) \<longrightarrow>
          (\<forall>c\<in>set cs. getTags nd c = Inr (tags_of nd c))
          \<and> getTags nd (AndIterator cs h) = Inr (concat (map (tags_of nd) cs)))
    \<and> (\<forall>cs h. built (OrIterator cs h) \<and> valid (OrIterator cs h) \<longrightarrow>
          (\<forall>i\<in>set (or_fired cs 0 (itr_value (OrIterator cs h))).
              getTags nd (cs ! i) = Inr (tags_of nd (cs ! i)))
          \<and> getTags nd (OrIterator cs h)
              = Inr (concat (map (\<lambda>i. tags_of nd (cs ! i))
                               (or_fired cs 0 (itr_value (OrIterator cs h)))))
          \<and> distinct (or_fired cs 0 (itr_value (OrIterator cs h)))
          \<and> set (or_fired cs 0 (itr_value (OrIterator cs h)))
              = {i. i < length cs \<and> itr_value (cs ! i) = itr_value (OrIterator cs h)})
    \<and> (\<forall>lhs rhs. valid (DiffIterator lhs rhs) \<longrightarrow>
          getTags nd (DiffIterator lhs rhs) = getTags nd lhs)"
proof -
  have a: "tg \<noteq> [] \<Longrightarrow> makeIterator tg Itr args = Inr (IteratorWithTag tg base)"
    and b: "tg = [] \<Longrightarrow> makeIterator tg Itr args = Inr base"
    using assms by (simp_all add: makeIterator_def)
  have h: "hasTag c \<and> (\<exists>b. c = IteratorWithTag tg b \<and> moved base b)"
    if "moved (IteratorWithTag tg base) c" for c
    using moved_Tag[OF that refl] by auto
  have c: "getTags nd b = Inr (tags_of nd b)
      \<and> getTags nd (IteratorWithTag tg b) = Inr (tags_of nd b @ [tg])"
    if "built b" "valid b" for b
    using tagged_getTags[OF built_well_formed[OF that(1)] that(2), of nd tg]
    by (auto simp: tags_of_def)
  have k: "hasTag a = (\<exists>x\<in>set children. hasTag x)"
    if "AndIterator_new children = Inr a \<or> OrIterator_new children = Inr a" for children a
    using that AndIterator_new_flags(1) OrIterator_new_flags(1) by blast
  have d: "(\<forall>c\<in>set cs. getTags nd c = Inr (tags_of nd c))
          \<and> getTags nd (AndIterator cs h) = Inr (concat (map (tags_of nd) cs))"
    if "built (AndIterator cs h)" "valid (AndIterator cs h)" for cs h
    using and_children_tags[OF built_well_formed[OF that(1)] that(2) built_flags_ok[OF that(1)]] .
  have e: "(\<forall>i\<in>set (or_fired cs 0 (itr_value (OrIterator cs h))).
              getTags nd (cs ! i) = Inr (tags_of nd (cs ! i)))
          \<and> getTags nd (OrIterator cs h)
              = Inr (concat (map (\<lambda>i. tags_of nd (cs ! i))
                               (or_fired cs 0 (itr_value (OrIterator cs h)))))
          \<and> distinct (or_fired cs 0 (itr_value (OrIterator cs h)))
          \<and> set (or_fired cs 0 (itr_value (OrIterator cs h)))
              = {i. i < length cs \<and> itr_value (cs ! i) = itr_value (OrIterator cs h)}"
    if "built (OrIterator cs h)" "valid (OrIterator cs h)" for cs h
    using or_children_tags[OF built_well_formed[OF that(1)] that(2) built_flags_ok[OF that(1)]] .
  have f: "getTags nd (DiffIterator lhs rhs) = getTags nd lhs" if "valid (DiffIterator lhs rhs)"
    for lhs rhs
    using that by simp
  show ?thesis
    apply (intro conjI impI allI)
    subgoal using a by simp
    subgoal using h by simp
    subgoal using h by simp
    subgoal using b by simp
    subgoal using c by simp
    subgoal using c by simp
    subgoal using k by simp
    subgoal using d by blast
    subgoal using d by blast
    subgoal using e by blast
    subgoal using e by blast
    subgoal using e by blast
    subgoal using e by blast
    subgoal using f by simp
    done
qed

theorem C9_tagged_operator_witness:
  "makeIterator ''top'' AndIterator_new
       [IteratorWithTag ''x'' (getVectorIterator [1, 2]), IteratorWithTag ''y'' (getVectorIterator [2])]
     = Inr (IteratorWithTag ''top''
         (AndIterator [IteratorWithTag ''y'' (VectorIterator [2] 0),
                       IteratorWithTag ''x'' (VectorIterator [1, 2] 1)] True))
   \<and> hasTag (IteratorWithTag ''top''
         (AndIterator [IteratorWithTag ''y'' (VectorIterator [2] 0),
                       IteratorWithTag ''x'' (VectorIterator [1, 2] 1)] True))
   \<and> getTags False (IteratorWithTag ''top''
         (AndIterator [IteratorWithTag ''y'' (VectorIterator [2] 0),
                       IteratorWithTag ''x'' (VectorIterator [1, 2] 1)] True))
       = Inr [''y'', ''x'', ''top'']
   \<and> makeIterator [] AndIterator_new
       [IteratorWithTag ''x'' (getVectorIterator [1, 2]), IteratorWithTag ''y'' (getVectorIterator [2])]
     = Inr (AndIterator [IteratorWithTag ''y'' (VectorIterator [2] 0),
                         IteratorWithTag ''x'' (VectorIterator [1, 2] 1)] True)
   \<and> getTags False (AndIterator [IteratorWithTag ''y'' (VectorIterator [2] 0),
                         IteratorWithTag ''x'' (VectorIterator [1, 2] 1)] True)
       = Inr [''y'', ''x'']
   \<and> OrIterator_new
       [IteratorWithTag ''x'' (getVectorIterator [1, 3]), IteratorWithTag ''y'' (getVectorIterator [1]),
        IteratorWithTag ''z'' (getVectorIterator [2]), IteratorWithTag ''w'' (getVectorIterator [1, 2])]
     = Inr (OrIterator
         [IteratorWithTag ''w'' (VectorIterator [1, 2] 0), IteratorWithTag ''y'' (VectorIterator [1] 0),
          IteratorWithTag ''z'' (VectorIterator [2] 0), IteratorWithTag ''x'' (VectorIterator [1, 3] 0)]
         True)
   \<and> getTags False (IteratorWithTag ''or'' (OrIterator
         [IteratorWithTag ''w'' (VectorIterator [1, 2] 0), IteratorWithTag ''y'' (VectorIterator [1] 0),
          IteratorWithTag ''z'' (VectorIterator [2] 0), IteratorWithTag ''x'' (VectorIterator [1, 3] 0)]
         True))
       = Inr [''w'', ''y'', ''x'', ''or'']"
proof -
  define ca where "ca = [IteratorWithTag ''x'' (getVectorIterator [1, 2]),
     IteratorWithTag ''y'' (getVectorIterator [2])]"
  define a where "a = AndIterator [IteratorWithTag ''y'' (VectorIterator [2] 0),
     IteratorWithTag ''x'' (VectorIterator [1, 2] 1)] True"
  define co where "co = [IteratorWithTag ''x'' (getVectorIterator [1, 3]),
     IteratorWithTag ''y'' (getVectorIterator [1]), IteratorWithTag ''z'' (getVectorIterator [2]),
     IteratorWithTag ''w'' (getVectorIterator [1, 2])]"
  define os where "os = [IteratorWithTag ''w'' (VectorIterator [1, 2] 0),
     IteratorWithTag ''y'' (VectorIterator [1] 0), IteratorWithTag ''z'' (VectorIterator [2] 0),
     IteratorWithTag ''x'' (VectorIterator [1, 3] 0)]"
  have ea: "AndIterator_new ca = Inr a" unfolding ca_def a_def by code_simp
  have eo: "OrIterator_new co = Inr (OrIterator os True)" unfolding co_def os_def by code_simp
  have pl: "posting_list [1, 2]" "posting_list [2]" "posting_list [1, 3]" "posting_list [1]"
    by (simp_all add: posting_list_def kInvalidDocId_def)
  have "\<forall>c\<in>set ca. built c" unfolding ca_def using pl by (auto intro: built_tag built_leaf)
  then have ba: "built a" using built_and[OF _ ea] by simp
  have "\<forall>c\<in>set co. built c" unfolding co_def using pl by (auto intro: built_tag built_leaf)
  then have bo: "built (OrIterator os True)" using built_or[OF _ eo] by simp
  have va: "valid a" by (simp add: a_def)
  have vo: "valid (OrIterator os True)" by (simp add: os_def)
  have fired: "or_fired os 0 (itr_value (OrIterator os True)) = [0, 1, 3]"
    unfolding os_def by code_simp
  have ta: "getTags False a = Inr [''y'', ''x'']"
    and tta: "getTags False (IteratorWithTag ''top'' a) = Inr [''y'', ''x'', ''top'']"
    using C9_tagged_operator[where Itr = AndIterator_new and args = ca and tg = "''top''"
        and nd = False, OF ea] ba va
    unfolding a_def by (simp_all add: tags_of_def)
  have tto: "getTags False (IteratorWithTag ''or'' (OrIterator os True)) = Inr [''w'', ''y'', ''x'', ''or'']"
  proof -
    have "tags_of False (OrIterator os True) = [''w'', ''y'', ''x'']"
      using C9_tagged_operator[where Itr = OrIterator_new and args = co and tg = "''or''"
        and nd = False, OF eo] bo vo fired
      by (simp add: tags_of_def os_def del: getTags.simps(4))
    then show ?thesis
      using C9_tagged_operator[where Itr = OrIterator_new and args = co and tg = "''or''"
        and nd = False, OF eo] bo vo
      by (simp del: getTags.simps)
  qed
  show ?thesis
    using C9_tagged_operator[where Itr = AndIterator_new and args = ca and tg = "''top''"
        and nd = False, OF ea]
      C9_tagged_operator[where Itr = AndIterator_new and args = ca and tg = "[]"
        and nd = False, OF ea] ta tta tto eo
    unfolding ca_def a_def co_def os_def by (simp del: getTags.simps)
qed

text \<open>
  C10 (as stated). The claim is that a bare \<^verbatim>\<open>tag:\<close> inside an operator frame never
  stops the parse and raises no duplicate-tag error. After a tag with a name in the same
  frame it does raise that error.
\<close>

theorem C10_bare_tag_after_tag_counterexample:
  "getIterator (SimpleIteratorFactory []) ''(and tag:x tag: a)'' = Inl (Exception MultipleTags 11)"
  by code_simp

text \<open>
  C10 (amended). In an operator frame that has no tag with a name so far, bare \<^verbatim>\<open>tag:\<close>
  tokens, however many, are read without any effect: the frame stays untagged and no
  duplicate-tag error is raised. An AND or OR frame holding one expression and only bare
  \<^verbatim>\<open>tag:\<close> tokens reads as the expression alone. In a frame that already has a tag with
  a name, a bare \<^verbatim>\<open>tag:\<close> raises the duplicate-tag error.
\<close>

theorem C10_bare_tag:
  "(op topOp \<noteq> ROOT \<and> tag topOp = [] \<and> (\<forall>tk\<in>set bares. snd tk = kTagPrefix) \<longrightarrow>
        token_loop f (topOp # below) (bares @ rest) = token_loop f (topOp # below) rest)
   \<and> ((opName = ''and'' \<or> opName = ''or'') \<and> spec_expr e
        \<and> (\<forall>tk\<in>set bares1. snd tk = kTagPrefix) \<and> (\<forall>tk\<in>set bares2. snd tk = kTagPrefix) \<longrightarrow>
        token_loop f (topOp # below)
           ((p1, ''('') # (p2, opName) # bares1 @ e @ bares2 @ (p3, '')'') # rest)
         = token_loop f (topOp # below) (e @ rest))
   \<and> (tag topOp \<noteq> [] \<longrightarrow>
        token_loop f (topOp # below) ((p, kTagPrefix) # rest) = Inl (Exception MultipleTags p))"
  using bare_tags_skipped[of topOp bares f below rest]
    bare_tag_frame_collapses[of opName e bares1 bares2 f topOp below p1 p2 p3 rest]
    bare_tag_after_tag[of topOp f below p rest]
  by blast

theorem C10_bare_tag_witness:
  "getIterator (SimpleIteratorFactory [(''a'', [1])]) ''(and tag: tag: a tag:)''
     = Inr (getVectorIterator [1])
   \<and> token_loop (SimpleIteratorFactory [])
        [\<lparr>startPos = 0, op = AND, itrs = [], tag = ''x''\<rparr>,
         \<lparr>startPos = 0, op = ROOT, itrs = [], tag = []\<rparr>] [(11, ''tag:''), (16, ''a''), (17, '')'')]
     = Inl (Exception MultipleTags 11)"
proof -
  have s: "split ''(and tag: tag: a tag:)''
      = (0, ''('') # (1, ''and'') # [(5, ''tag:''), (10, ''tag:'')] @ [(15, ''a'')] @ [(17, ''tag:'')]
          @ (21, '')'') # []"
    by code_simp
  have e: "spec_expr [(15, ''a'')]"
    by (rule spec_term) (simp add: is_term_def starts_with_def kTagPrefix_def)
  have k: "kTagPrefix = ''tag:''" by (simp add: kTagPrefix_def)
  show ?thesis
    using C10_bare_tag[where topOp = "\<lparr>startPos = 0, op = ROOT, itrs = [], tag = []\<rparr>"
        and below = "[]" and f = "SimpleIteratorFactory [(''a'', [1])]" and rest = "[]"
        and opName = "''and''" and e = "[(15, ''a'')]"
        and ?bares1.0 = "[(5, ''tag:''), (10, ''tag:'')]" and ?bares2.0 = "[(17, ''tag:'')]"
        and ?p1.0 = 0 and ?p2.0 = 1 and ?p3.0 = 21]
      C10_bare_tag[where topOp = "\<lparr>startPos = 0, op = AND, itrs = [], tag = ''x''\<rparr>"
        and below = "[\<lparr>startPos = 0, op = ROOT, itrs = [], tag = []\<rparr>]"
        and f = "SimpleIteratorFactory []" and rest = "[(16, ''a''), (17, '')'')]" and p = 11]
      e
    by (simp add: getIterator_def s k token_loop_term is_term_def starts_with_def close_def
        SimpleIteratorFactory_def)
qed

end
